(* ===== verification/Prelude.thy ===== *)
theory Prelude
  imports Main "HOL-Library.Word"
begin

text \<open>
  Shared vocabulary of the development: the outcome of a C expression that may
  be undefined (\<open>cres\<close>), byte buffers with checked access, and the generic list
  lemmas the component theories rely on.

  A C object of type \<^verbatim>\<open>char[n]\<close> is a list of \<open>n\<close> characters; a pointer into it is
  the suffix that starts there.  Every access outside the object, every use of a
  null, dangling or uninitialised pointer is a value of type \<open>fault\<close>, so that each
  undefined behaviour of the source is a branch of the model and never a silent
  default.  \<open>NoReturn\<close> is a loop that runs out of
  the fuel its model gives it, \<open>Deadlock\<close> a lock that nobody will release, \<open>Blocked\<close> a
  system call the environment has not answered; \<open>Exit\<close> is the process ending itself with \<^verbatim>\<open>_exit\<close>.
\<close>

named_theorems buf_simps \<open>rewrite rules for buffers and C strings\<close>
named_theorems res_simps \<open>rewrite rules for checked results\<close>

section \<open>Checked results\<close>

datatype fault = NullDeref | OutOfBounds | UseAfterFree | Uninit | NoReturn | Deadlock | Blocked | Exit int

type_synonym 'a cres = "fault + 'a"

definition bindR :: "'a cres \<Rightarrow> ('a \<Rightarrow> 'b cres) \<Rightarrow> 'b cres" where
  "bindR m f = (case m of Inl e \<Rightarrow> Inl e | Inr x \<Rightarrow> f x)"

lemma bindR_simps [simp, res_simps]:
  "bindR (Inl e) f = Inl e"
  "bindR (Inr x) f = f x"
  by (simp_all add: bindR_def)

lemma bindR_Inr_iff [res_simps]:
  "bindR m f = Inr y \<longleftrightarrow> (\<exists>x. m = Inr x \<and> f x = Inr y)"
  by (cases m) simp_all

lemma bindR_assoc: "bindR (bindR m f) g = bindR m (\<lambda>x. bindR (f x) g)"
  by (cases m) simp_all

lemma bindR_cong [fundef_cong]:
  "m = m' \<Longrightarrow> (\<And>x. m' = Inr x \<Longrightarrow> f x = f' x) \<Longrightarrow> bindR m f = bindR m' f'"
  by (cases m') simp_all

text \<open>Checked traversal of a list, stopping at the first fault.\<close>

fun mapR :: "('a \<Rightarrow> 'b cres) \<Rightarrow> 'a list \<Rightarrow> 'b list cres" where
  "mapR f [] = Inr []"
| "mapR f (x # xs) = bindR (f x) (\<lambda>y. bindR (mapR f xs) (\<lambda>ys. Inr (y # ys)))"

lemma mapR_Inr_map:
  "(\<And>x. x \<in> set xs \<Longrightarrow> f x = Inr (g x)) \<Longrightarrow> mapR f xs = Inr (map g xs)"
  by (induction xs) auto

lemma mapR_map: "mapR f (map g xs) = mapR (\<lambda>x. f (g x)) xs"
  by (induction xs) simp_all

lemma mapR_fault:
  "(\<And>x. x \<in> set xs \<Longrightarrow> f x = (if P x then Inr (g x) else Inl e)) \<Longrightarrow> \<exists>x \<in> set xs. \<not> P x \<Longrightarrow>
   mapR f xs = Inl e"
  by (induction xs) auto

lemma mapR_length: "mapR f xs = Inr ys \<Longrightarrow> length ys = length xs"
  by (induction xs arbitrary: ys) (auto simp: bindR_Inr_iff)

lemma mapR_nth: "mapR f xs = Inr ys \<Longrightarrow> i < length xs \<Longrightarrow> f (xs ! i) = Inr (ys ! i)"
  by (induction xs arbitrary: ys i) (auto simp: bindR_Inr_iff nth_Cons split: nat.splits)

text \<open>A counting loop whose body may fault, over the sequence of its indices.\<close>

fun foldR :: "('b \<Rightarrow> 'a \<Rightarrow> 'b cres) \<Rightarrow> 'b \<Rightarrow> 'a list \<Rightarrow> 'b cres" where
  "foldR f s [] = Inr s"
| "foldR f s (x # xs) = bindR (f s x) (\<lambda>s'. foldR f s' xs)"

lemma foldR_append: "foldR f s (xs @ ys) = bindR (foldR f s xs) (\<lambda>s'. foldR f s' ys)"
  by (induction xs arbitrary: s) (simp_all add: bindR_assoc)

lemma foldR_upt_inv:
  assumes "I 0 s" and "\<And>i t. i < n \<Longrightarrow> I i t \<Longrightarrow> \<exists>t'. f t i = Inr t' \<and> I (Suc i) t'"
  shows "\<exists>t. foldR f s [0..<n] = Inr t \<and> I n t"
  using assms(2)
proof (induction n)
  case 0
  with assms(1) show ?case by simp
next
  case (Suc n)
  then obtain t where "foldR f s [0..<n] = Inr t" and "I n t" by auto
  moreover from Suc.prems [of n t] this obtain t' where "f t n = Inr t'" "I (Suc n) t'" by auto
  ultimately show ?case by (simp add: foldR_append)
qed

text \<open>Checked access to an array by index.\<close>

definition getR :: "'a list \<Rightarrow> int \<Rightarrow> 'a cres" where
  "getR a i = (if 0 \<le> i \<and> nat i < length a then Inr (a ! nat i) else Inl OutOfBounds)"

definition setR :: "'a list \<Rightarrow> int \<Rightarrow> 'a \<Rightarrow> 'a list cres" where
  "setR a i x = (if 0 \<le> i \<and> nat i < length a then Inr (a[nat i := x]) else Inl OutOfBounds)"

lemma getR_nat [simp]: "getR a (int n) = (if n < length a then Inr (a ! n) else Inl OutOfBounds)"
  by (simp add: getR_def)

lemma setR_nat [simp]: "setR a (int n) x = (if n < length a then Inr (a[n := x]) else Inl OutOfBounds)"
  by (simp add: setR_def)

lemma getR_pair:
  "getR a (2 * int i) = (if 2 * i < length a then Inr (a ! (2 * i)) else Inl OutOfBounds)"
  "getR a (2 * int i + 1) = (if Suc (2 * i) < length a then Inr (a ! Suc (2 * i)) else Inl OutOfBounds)"
  using getR_nat [of a "2 * i"] getR_nat [of a "Suc (2 * i)"] by (simp_all add: add.commute)

lemma setR_pair:
  "setR a (2 * int i) x = (if 2 * i < length a then Inr (a[2 * i := x]) else Inl OutOfBounds)"
  "setR a (2 * int i + 1) x = (if Suc (2 * i) < length a then Inr (a[Suc (2 * i) := x]) else Inl OutOfBounds)"
  using setR_nat [of a "2 * i" x] setR_nat [of a "Suc (2 * i)" x] by (simp_all add: add.commute)

section \<open>Lists\<close>

lemma update_again: "xs[m := w, i := b, m := w] = xs[i := b, m := w]"
  by (cases "m = i") (simp_all add: list_update_swap)

lemma update_take_drop:
  "i < length xs \<Longrightarrow> i < length ys \<Longrightarrow>
   (take i xs @ drop i ys)[i := xs ! i] = take (Suc i) xs @ drop (Suc i) ys"
  by (simp add: list_update_append take_Suc_conv_app_nth Cons_nth_drop_Suc [symmetric])

lemma takeWhile_neq_append [simp]:
  "c \<notin> set xs \<Longrightarrow> takeWhile (\<lambda>x. x \<noteq> c) (xs @ c # ys) = xs"
  by (induction xs) auto

lemma dropWhile_neq_append [simp]:
  "c \<notin> set xs \<Longrightarrow> dropWhile (\<lambda>x. x \<noteq> c) (xs @ c # ys) = c # ys"
  by (induction xs) auto

lemma takeWhile_neq_id: "c \<notin> set xs \<Longrightarrow> takeWhile (\<lambda>x. x \<noteq> c) xs = xs"
  by (induction xs) auto

lemma take_drop_append [simp]: "take k xs @ drop k xs @ ys = xs @ ys"
  by (simp flip: append_assoc)

lemma notin_takeWhile [simp]: "c \<notin> set (takeWhile (\<lambda>x. x \<noteq> c) xs)"
  by (auto dest: set_takeWhileD)

lemma split_at_first:
  "c \<in> set xs \<Longrightarrow> xs = takeWhile (\<lambda>x. x \<noteq> c) xs @ c # tl (dropWhile (\<lambda>x. x \<noteq> c) xs)"
  by (induction xs) auto

end
