(* ===== verification/CString.thy ===== *)
theory CString
  imports Prelude
begin

text \<open>
  The string functions of the bundled C library, over buffers with checked
  access.  The definitions follow \<^verbatim>\<open>glibc-2.27/string/\<close>: \<open>strcmp\<close>, \<open>strncpy\<close>,
  \<open>strcpy\<close>, \<open>strcat\<close>.  \<open>strlen\<close>, \<open>strnlen\<close> and \<open>strchr\<close> are the byte by byte
  reference functions; the word-at-a-time code of \<^verbatim>\<open>strlen.c\<close> and \<^verbatim>\<open>strchr.c\<close> is in
  theory \<open>WordScan\<close>, with the proof that it computes the same result.
  A buffer holds the string \<open>s\<close> when \<open>cstr\<close> returns \<open>s\<close>: the characters before
  its first NUL.  The lemmas describe each function by what it does to the
  strings held, and by the exact condition under which it leaves its object.
\<close>

abbreviation NUL :: char where "NUL \<equiv> CHR 0x00"

abbreviation NL :: char where "NL \<equiv> CHR 0x0A"

section \<open>Checked block access\<close>

definition fetch :: "'a list \<Rightarrow> nat \<Rightarrow> nat \<Rightarrow> 'a list cres" where
  "fetch src off n = (if off + n \<le> length src then Inr (take n (drop off src)) else Inl OutOfBounds)"

definition store :: "'a list \<Rightarrow> nat \<Rightarrow> 'a list \<Rightarrow> 'a list cres" where
  "store dst off bs =
     (if off + length bs \<le> length dst then Inr (take off dst @ bs @ drop (off + length bs) dst)
      else Inl OutOfBounds)"

definition memcpy :: "'a list \<Rightarrow> nat \<Rightarrow> 'a list \<Rightarrow> nat \<Rightarrow> 'a list cres" where
  "memcpy dst off src n = bindR (fetch src 0 n) (store dst off)"

definition memset :: "'a list \<Rightarrow> nat \<Rightarrow> 'a \<Rightarrow> nat \<Rightarrow> 'a list cres" where
  "memset dst off c n = store dst off (replicate n c)"

lemma store_length [buf_simps]: "store dst off bs = Inr d \<Longrightarrow> length d = length dst"
  by (auto simp: store_def split: if_splits)

lemma memcpy_length [buf_simps]: "memcpy dst off src n = Inr d \<Longrightarrow> length d = length dst"
  by (auto simp: memcpy_def bindR_Inr_iff dest: store_length)

lemma memcpy_eq:
  "memcpy dst off src n =
     (if n \<le> length src \<and> off + n \<le> length dst
      then Inr (take off dst @ take n src @ drop (off + n) dst) else Inl OutOfBounds)"
  by (auto simp: memcpy_def fetch_def store_def min_def)

section \<open>Strings held by a buffer\<close>

definition cstr :: "char list \<Rightarrow> string cres" where
  "cstr b = (if NUL \<in> set b then Inr (takeWhile (\<lambda>x. x \<noteq> NUL) b) else Inl OutOfBounds)"

lemma cstr_append [simp, buf_simps]: "NUL \<notin> set s \<Longrightarrow> cstr (s @ NUL # r) = Inr s"
  by (simp add: cstr_def)

lemma cstr_replicate [simp, buf_simps]: "NUL \<notin> set s \<Longrightarrow> 0 < n \<Longrightarrow> cstr (s @ replicate n NUL) = Inr s"
  by (cases n) simp_all

lemma cstr_InrE:
  assumes "cstr b = Inr s"
  obtains r where "b = s @ NUL # r" and "NUL \<notin> set s"
proof -
  from assms have n: "NUL \<in> set b" and s: "s = takeWhile (\<lambda>x. x \<noteq> NUL) b"
    by (auto simp: cstr_def split: if_splits)
  from n have "b = s @ NUL # tl (dropWhile (\<lambda>x. x \<noteq> NUL) b)"
    unfolding s by (rule split_at_first)
  moreover have "NUL \<notin> set s" by (simp add: s)
  ultimately show ?thesis by (rule that)
qed

lemma cstr_Inr_iff: "cstr b = Inr s \<longleftrightarrow> NUL \<notin> set s \<and> (\<exists>r. b = s @ NUL # r)"
  by (auto elim: cstr_InrE)

lemma cstr_no_nul: "cstr b = Inr s \<Longrightarrow> NUL \<notin> set s"
  by (auto elim: cstr_InrE)

lemma cstr_length: "cstr b = Inr s \<Longrightarrow> length s < length b"
  by (auto elim: cstr_InrE)

section \<open>strlen, strnlen, strchr: byte by byte\<close>

fun strlen :: "char list \<Rightarrow> nat cres" where
  "strlen [] = Inl OutOfBounds"
| "strlen (c # cs) = (if c = NUL then Inr 0 else bindR (strlen cs) (\<lambda>n. Inr (Suc n)))"

fun strnlen :: "char list \<Rightarrow> nat \<Rightarrow> nat cres" where
  "strnlen cs 0 = Inr 0"
| "strnlen [] (Suc n) = Inl OutOfBounds"
| "strnlen (c # cs) (Suc n) = (if c = NUL then Inr 0 else bindR (strnlen cs n) (\<lambda>k. Inr (Suc k)))"

fun strchr :: "char list \<Rightarrow> char \<Rightarrow> nat option cres" where
  "strchr [] c = Inl OutOfBounds"
| "strchr (x # xs) c =
     (if x = c then Inr (Some 0) else if x = NUL then Inr None
      else bindR (strchr xs c) (\<lambda>r. Inr (map_option Suc r)))"

lemma strlen_cstr: "strlen b = bindR (cstr b) (\<lambda>s. Inr (length s))"
  by (induction b) (auto simp: cstr_def)

lemma strlen_append [simp, buf_simps]: "NUL \<notin> set s \<Longrightarrow> strlen (s @ NUL # r) = Inr (length s)"
  by (simp add: strlen_cstr)

lemma strnlen_append [simp, buf_simps]:
  "NUL \<notin> set s \<Longrightarrow> strnlen (s @ NUL # r) n = Inr (min (length s) n)"
proof (induction s arbitrary: n)
  case Nil
  then show ?case by (cases n) simp_all
next
  case (Cons c s)
  then show ?case by (cases n) auto
qed

lemma strchr_in [simp, buf_simps]:
  "c \<notin> set s \<Longrightarrow> NUL \<notin> set s \<Longrightarrow> strchr (s @ c # r) c = Inr (Some (length s))"
  by (induction s) auto

lemma strchr_notin [simp, buf_simps]:
  "c \<notin> set s \<Longrightarrow> NUL \<notin> set s \<Longrightarrow> c \<noteq> NUL \<Longrightarrow> strchr (s @ NUL # r) c = Inr None"
  by (induction s) auto

lemma strchr_Some_iff:
  assumes "NUL \<notin> set s" "c \<noteq> NUL"
  shows "strchr (s @ NUL # r) c =
    Inr (if c \<in> set s then Some (length (takeWhile (\<lambda>x. x \<noteq> c) s)) else None)"
  using assms by (induction s) auto

section \<open>strcpy, strncpy, strcat\<close>

definition strncpy :: "char list \<Rightarrow> nat \<Rightarrow> char list \<Rightarrow> nat \<Rightarrow> char list cres" where
  "strncpy s1 off s2 n =
     bindR (strnlen s2 n) (\<lambda>size.
     bindR (if size \<noteq> n then memset s1 (off + size) NUL (n - size) else Inr s1) (\<lambda>s1'.
     memcpy s1' off s2 size))"

definition strcpy :: "char list \<Rightarrow> nat \<Rightarrow> char list \<Rightarrow> char list cres" where
  "strcpy dest off src = bindR (strlen src) (\<lambda>n. memcpy dest off src (n + 1))"

definition strcat :: "char list \<Rightarrow> char list \<Rightarrow> char list cres" where
  "strcat dest src = bindR (strlen dest) (\<lambda>n. strcpy dest n src)"

text \<open>A string literal of the source as the array the compiler stores.\<close>

definition lit :: "string \<Rightarrow> char list" where
  "lit s = s @ [NUL]"

lemma cstr_lit [simp, buf_simps]: "NUL \<notin> set s \<Longrightarrow> cstr (lit s) = Inr s"
  by (simp add: lit_def)

lemma strcpy_eq:
  assumes "cstr src = Inr s"
  shows "strcpy dest off src =
    (if off + length s < length dest
     then Inr (take off dest @ s @ NUL # drop (off + length s + 1) dest) else Inl OutOfBounds)"
proof -
  from assms obtain r where src: "src = s @ NUL # r" and "NUL \<notin> set s" by (rule cstr_InrE)
  then show ?thesis by (auto simp: strcpy_def memcpy_eq)
qed

lemma strcat_eq:
  assumes "cstr dest = Inr a" and "cstr src = Inr b"
  shows "strcat dest src =
    (if length a + length b < length dest
     then Inr (a @ b @ NUL # drop (length a + length b + 1) dest) else Inl OutOfBounds)"
proof -
  from assms(1) obtain r where "dest = a @ NUL # r" and "NUL \<notin> set a" by (rule cstr_InrE)
  then show ?thesis by (simp add: strcat_def strcpy_eq [OF assms(2)])
qed

lemma strcpy_cstr:
  assumes "cstr src = Inr s" and "length s < length dest"
  shows "\<exists>d. strcpy dest 0 src = Inr d \<and> cstr d = Inr s \<and> length d = length dest"
  using assms by (auto simp: strcpy_eq dest: cstr_no_nul)

lemma strcat_cstr:
  assumes "cstr dest = Inr a" and "cstr src = Inr b" and "length a + length b < length dest"
  shows "\<exists>d. strcat dest src = Inr d \<and> cstr d = Inr (a @ b) \<and> length d = length dest"
proof -
  from assms have "cstr (a @ b @ NUL # drop (length a + length b + 1) dest) = Inr (a @ b)"
    using cstr_append [of "a @ b"] by (auto dest: cstr_no_nul)
  with assms show ?thesis by (auto simp: strcat_eq)
qed

text \<open>
  \<open>strncpy\<close> of a prefix that stops before the source's NUL, into zeroed memory.
  It writes \<open>n\<close> bytes and no terminator.
\<close>

lemma strncpy_prefix:
  assumes "cstr src = Inr s" and "n \<le> length s"
  shows "strncpy dest off src n =
    (if off + n \<le> length dest then Inr (take off dest @ take n s @ drop (off + n) dest)
     else Inl OutOfBounds)"
proof -
  from assms(1) obtain r where "src = s @ NUL # r" and "NUL \<notin> set s" by (rule cstr_InrE)
  with assms(2) show ?thesis by (auto simp: strncpy_def memcpy_eq min_def)
qed

section \<open>strcmp\<close>

definition uchar :: "char \<Rightarrow> int" where
  "uchar c = of_char c"

lemma uchar_NUL [simp]: "uchar NUL = 0"
  by (simp add: uchar_def)

lemma uchar_range: "0 \<le> uchar c \<and> uchar c < 256"
  using of_char_mod_256 [where ?'a = int, of c] pos_mod_bound [of 256 "uchar c"]
    pos_mod_sign [of 256 "uchar c"] by (simp add: uchar_def)

lemma uchar_inject [simp]: "uchar a = uchar b \<longleftrightarrow> a = b"
  by (simp add: uchar_def)

fun strcmp :: "char list \<Rightarrow> char list \<Rightarrow> int cres" where
  "strcmp (c1 # s1) (c2 # s2) =
     (if c1 = NUL then Inr (uchar c1 - uchar c2)
      else if c1 = c2 then strcmp s1 s2
      else Inr (uchar c1 - uchar c2))"
| "strcmp _ _ = Inl OutOfBounds"

text \<open>On two strings the result is the sign of the lexicographic order of the bytes.\<close>

fun lexcmp :: "string \<Rightarrow> string \<Rightarrow> int" where
  "lexcmp [] [] = 0"
| "lexcmp [] (y # ys) = - uchar y"
| "lexcmp (x # xs) [] = uchar x"
| "lexcmp (x # xs) (y # ys) = (if x = y then lexcmp xs ys else uchar x - uchar y)"

lemma strcmp_lexcmp:
  "NUL \<notin> set a \<Longrightarrow> NUL \<notin> set b \<Longrightarrow> strcmp (a @ NUL # r) (b @ NUL # q) = Inr (lexcmp a b)"
  by (induction a b rule: lexcmp.induct) auto

lemma strcmp_cstr: "cstr p = Inr a \<Longrightarrow> cstr q = Inr b \<Longrightarrow> strcmp p q = Inr (lexcmp a b)"
  by (auto simp: strcmp_lexcmp elim!: cstr_InrE)

lemma uchar_pos: "c \<noteq> NUL \<Longrightarrow> 0 < uchar c"
  using uchar_range [of c] uchar_inject [of c NUL] by auto

lemma lexcmp_self [simp]: "lexcmp a a = 0"
  by (induction a) auto

lemma uchar_0_iff [simp]: "uchar c = 0 \<longleftrightarrow> c = NUL"
  using uchar_inject [of c NUL] by simp

lemma lexcmp_0_iff: "NUL \<notin> set a \<Longrightarrow> NUL \<notin> set b \<Longrightarrow> lexcmp a b = 0 \<longleftrightarrow> a = b"
  by (induction a b rule: lexcmp.induct) auto

lemma lexcmp_antisym: "lexcmp b a = - lexcmp a b"
  by (induction a b rule: lexcmp.induct) auto

lemma lexcmp_trans_le:
  "NUL \<notin> set a \<Longrightarrow> NUL \<notin> set b \<Longrightarrow> NUL \<notin> set c \<Longrightarrow>
   lexcmp a b \<le> 0 \<Longrightarrow> lexcmp b c \<le> 0 \<Longrightarrow> lexcmp a c \<le> 0"
proof (induction a b arbitrary: c rule: lexcmp.induct)
  case 1
  then show ?case by simp
next
  case (2 y ys)
  then show ?case using uchar_range by (cases c) auto
next
  case (3 x xs)
  then show ?case using uchar_pos [of x] by auto
next
  case (4 x xs y ys)
  show ?case
  proof (cases c)
    case Nil
    with 4 show ?thesis using uchar_pos [of y] by auto
  next
    case (Cons z zs)
    show ?thesis
    proof (cases "x = y \<and> y = z")
      case True
      with 4 Cons show ?thesis by auto
    next
      case False
      with 4 Cons have le: "uchar x \<le> uchar y" "uchar y \<le> uchar z"
        by (auto split: if_splits)
      then have "x \<noteq> z" using False uchar_inject [of x y] by fastforce
      with le Cons show ?thesis by simp
    qed
  qed
qed

text \<open>A search key shorter than the object compared with never makes \<open>strcmp\<close> leave it.\<close>

lemma strcmp_in_bounds:
  "NUL \<notin> set k \<Longrightarrow> length k < length b \<Longrightarrow>
   strcmp (k @ NUL # r) b \<noteq> Inl e"
proof (induction k arbitrary: b)
  case Nil
  then show ?case by (cases b) auto
next
  case (Cons c k)
  then show ?case by (cases b) auto
qed

lemma strcmp_0_iff:
  "NUL \<notin> set k \<Longrightarrow> length k < length b \<Longrightarrow>
   strcmp (k @ NUL # r) b = Inr 0 \<longleftrightarrow> cstr b = Inr k"
proof (induction k arbitrary: b)
  case Nil
  then show ?case by (cases b) (auto simp: cstr_def dest: uchar_pos)
next
  case (Cons c k)
  then obtain x xs where b: "b = x # xs" and l: "length k < length xs" by (cases b) auto
  with Cons show ?case by (auto simp: cstr_def split: if_splits)
qed

end
