(* ===== verification/HexConvert.thy ===== *)
theory HexConvert
  imports CString
begin

text \<open>
  The number formatting helpers of \<^verbatim>\<open>src/jinzhiConvert.c\<close>: hexadecimal text to
  bytes and back, and the 32 bits of an integer.  \<^verbatim>\<open>char\<close> is signed on the target,
  so arithmetic on a character reads it with \<open>schar\<close>; an assignment to \<^verbatim>\<open>uint8_t\<close>
  reduces modulo 256.
\<close>

unbundle bit_operations_syntax

definition schar :: "char \<Rightarrow> int" where
  "schar c = (if uchar c < 128 then uchar c else uchar c - 256)"

definition to_char :: "int \<Rightarrow> char" where
  "to_char i = char_of (i mod 256)"

definition lowtocap :: "char \<Rightarrow> char" where
  "lowtocap c = (if schar c \<ge> schar CHR ''a'' \<and> schar c \<le> schar CHR ''z'' then to_char (schar c - 32) else c)"

definition digitValue :: "char \<Rightarrow> int" where
  "digitValue ch =
     (let d = schar (lowtocap ch) - schar CHR ''0''
      in if d > 9 then schar (lowtocap ch) - schar CHR ''A'' + 10 else d)"

text \<open>
  The body of the loop of \<open>AsciiToHex\<close>.  The branch for an odd \<open>len\<close> stands inside
  the loop, as in the source.
\<close>

definition AsciiToHex_body :: "char list \<Rightarrow> int \<Rightarrow> 8 word list \<Rightarrow> nat \<Rightarrow> 8 word list cres" where
  "AsciiToHex_body src len dest i =
     bindR (getR src (2 * int i)) (\<lambda>ch.
     bindR (getR src (2 * int i + 1)) (\<lambda>cl.
     bindR (setR dest (int i) (word_of_int (digitValue ch * 16 + digitValue cl))) (\<lambda>dest1.
     if len mod 2 > 0 then
       bindR (getR src (len - 1)) (\<lambda>c.
       bindR (setR dest1 (len div 2) (word_of_int (schar c - schar CHR ''0''))) (\<lambda>dest2.
       bindR (getR dest2 (len div 2)) (\<lambda>b.
       if uint b > 9 then setR dest2 (len div 2) (word_of_int (schar (lowtocap c) - schar CHR ''A'' + 10))
       else Inr dest2)))
     else Inr dest1)))"

definition AsciiToHex :: "char list option \<Rightarrow> 8 word list option \<Rightarrow> int \<Rightarrow> 8 word list option cres" where
  "AsciiToHex src dest len =
     (case (src, dest) of
        (Some s, Some d) \<Rightarrow>
          if len < 1 then Inr (Some d)
          else bindR (foldR (AsciiToHex_body s len) d [0..<nat len]) (\<lambda>d'. Inr (Some d'))
      | _ \<Rightarrow> Inr dest)"

definition hexChar :: "int \<Rightarrow> int" where
  "hexChar n =
     (let d = schar CHR ''0'' + n
      in if d > schar CHR ''9'' then d - schar CHR ''9'' - 1 + schar CHR ''A'' else d)"

definition HexToAscii_body :: "8 word list \<Rightarrow> char list \<Rightarrow> nat \<Rightarrow> char list cres" where
  "HexToAscii_body src dest i =
     bindR (getR src (int i)) (\<lambda>b.
     bindR (setR dest (2 * int i) (to_char (hexChar (uint b div 16)))) (\<lambda>dest1.
     setR dest1 (2 * int i + 1) (to_char (hexChar (uint b mod 16)))))"

definition HexToAscii :: "8 word list option \<Rightarrow> char list option \<Rightarrow> int \<Rightarrow> char list option cres" where
  "HexToAscii src dest len =
     (case (src, dest) of
        (Some s, Some d) \<Rightarrow>
          if len < 1 then Inr (Some d)
          else bindR (foldR (HexToAscii_body s) d [0..<nat len]) (\<lambda>d1.
               bindR (setR d1 (2 * len) NUL) (\<lambda>d2. Inr (Some d2)))
      | _ \<Rightarrow> Inr dest)"

text \<open>What \<open>decimalToBinary\<close> prints.\<close>

definition decimalToBinary :: "32 word \<Rightarrow> string" where
  "decimalToBinary num =
     map (\<lambda>i. if num AND push_bit i 1 \<noteq> 0 then CHR ''1'' else CHR ''0'') (rev [0..<32])"

section \<open>Digits\<close>

definition hexDigit :: "nat \<Rightarrow> char" where
  "hexDigit n = to_char (hexChar (int n))"

lemma hexDigit_simps:
  "map hexDigit [0..<16] = ''0123456789ABCDEF''"
  by code_simp

lemma hexDigit_nth: "n < 16 \<Longrightarrow> hexDigit n = ''0123456789ABCDEF'' ! n"
  using hexDigit_simps by (metis (no_types, lifting) add_0 diff_zero length_upt nth_map nth_upt)

lemma digitValue_table: "map digitValue ''0123456789ABCDEF'' = map int [0..<16]"
  by code_simp

lemma digitValue_hexDigit [simp]:
  assumes "n < 16" shows "digitValue (hexDigit n) = int n"
proof -
  have "map digitValue ''0123456789ABCDEF'' ! n = map int [0..<16] ! n"
    by (simp only: digitValue_table)
  moreover have "n < length ''0123456789ABCDEF''" using assms by simp
  ultimately show ?thesis using assms by (simp only: hexDigit_nth nth_map) simp
qed

lemma digitValue_lower: "map digitValue ''abcdef'' = [10, 11, 12, 13, 14, 15]"
  by code_simp

section \<open>The text of a byte sequence\<close>

definition hexText :: "8 word list \<Rightarrow> string" where
  "hexText bs = concat (map (\<lambda>b. [hexDigit (unat b div 16), hexDigit (unat b mod 16)]) bs)"

lemma length_hexText [simp]: "length (hexText bs) = 2 * length bs"
  by (induction bs) (simp_all add: hexText_def)

lemma hexText_nth:
  "i < length bs \<Longrightarrow> hexText bs ! (2 * i) = hexDigit (unat (bs ! i) div 16)"
  "i < length bs \<Longrightarrow> hexText bs ! (Suc (2 * i)) = hexDigit (unat (bs ! i) mod 16)"
  by (induction bs arbitrary: i) (auto simp: hexText_def nth_Cons split: nat.splits)

lemma unat_byte_less: "unat (b :: 8 word) < 256"
  using unsigned_less [of b, where ?'a = nat] by simp

lemma nibbles_less [simp]: "unat (b :: 8 word) div 16 < 16" "unat b mod 16 < 16"
  using unat_byte_less [of b] by (simp_all add: less_mult_imp_div_less)

lemma nibbles_join [simp]:
  "word_of_nat (unat b div 16) * 16 + word_of_nat (unat b mod 16) = (b :: 8 word)"
proof -
  have "word_of_nat (unat b div 16 * 16 + unat b mod 16) = b"
    by (simp only: div_mult_mod_eq) simp
  then show ?thesis by (simp only: of_nat_add of_nat_mult of_nat_numeral)
qed

lemma to_char_hexChar:
  "to_char (hexChar (uint b div 16)) = hexDigit (unat b div 16)"
  "to_char (hexChar (uint b mod 16)) = hexDigit (unat b mod 16)"
  by (simp_all add: hexDigit_def zdiv_int zmod_int)

lemma AsciiToHex_even_step:
  assumes "i < length bs" "length bs \<le> length d" "length s = 2 * length bs + k" "take (2 * length bs) s = hexText bs"
  shows "bindR (getR s (2 * int i)) (\<lambda>ch. bindR (getR s (2 * int i + 1)) (\<lambda>cl.
           bindR (setR t (int i) (word_of_int (digitValue ch * 16 + digitValue cl))) f)) =
         bindR (setR t (int i) (bs ! i)) f"
proof -
  have "s ! (2 * i) = hexText bs ! (2 * i)" "s ! Suc (2 * i) = hexText bs ! Suc (2 * i)"
    using assms by (simp_all flip: assms(4))
  then have "getR s (2 * int i) = Inr (hexDigit (unat (bs ! i) div 16))"
    "getR s (2 * int i + 1) = Inr (hexDigit (unat (bs ! i) mod 16))"
    using assms hexText_nth [of i bs] by (simp_all add: getR_pair)
  then show ?thesis by simp
qed

text \<open>The value the odd branch stores, for a digit of the text.\<close>

lemma odd_branch_value:
  assumes "n < 16"
  shows "(if uint (word_of_int (schar (hexDigit n) - schar CHR ''0'') :: 8 word) > 9
          then word_of_int (schar (lowtocap (hexDigit n)) - schar CHR ''A'' + 10)
          else word_of_int (schar (hexDigit n) - schar CHR ''0'')) = (word_of_int (int n) :: 8 word)"
proof -
  have "map (\<lambda>c. if uint (word_of_int (schar c - schar CHR ''0'') :: 8 word) > 9
          then word_of_int (schar (lowtocap c) - schar CHR ''A'' + 10)
          else word_of_int (schar c - schar CHR ''0'')) ''0123456789ABCDEF'' =
        map (\<lambda>n. word_of_int (int n) :: 8 word) [0..<16]" (is "map ?f _ = map ?g _")
    by code_simp
  then have "map ?f ''0123456789ABCDEF'' ! n = map ?g [0..<16] ! n" by (simp only:)
  moreover have "n < length ''0123456789ABCDEF''" using assms by simp
  ultimately show ?thesis using assms by (simp only: hexDigit_nth nth_map) simp
qed

lemma odd_branch:
  fixes t :: "8 word list"
  assumes "n < 16" and "m < length t" and "getR s (int j) = Inr (hexDigit n)"
  shows "bindR (getR s (int j)) (\<lambda>c.
       bindR (setR t (int m) (word_of_int (schar c - schar CHR ''0''))) (\<lambda>t2.
       bindR (getR t2 (int m)) (\<lambda>b.
       if uint b > 9 then setR t2 (int m) (word_of_int (schar (lowtocap c) - schar CHR ''A'' + 10))
       else Inr t2))) = Inr (t[m := word_of_int (int n)])"
  using assms(2,3) odd_branch_value [OF assms(1)] by (auto split: if_splits)

definition hexNibble :: "8 word list \<Rightarrow> nat \<Rightarrow> nat" where
  "hexNibble bs j = (if even j then unat (bs ! (j div 2)) div 16 else unat (bs ! (j div 2)) mod 16)"

lemma hexText_nibble: "j < 2 * length bs \<Longrightarrow> hexText bs ! j = hexDigit (hexNibble bs j)"
  using hexText_nth [of "j div 2" bs] by (cases "even j") (auto simp: hexNibble_def elim!: evenE oddE)

lemma hexNibble_less [simp]: "hexNibble bs j < 16"
  by (simp add: hexNibble_def)

text \<open>The loop invariant of \<open>AsciiToHex\<close> after \<open>i\<close> rounds.\<close>

definition decoded :: "8 word list \<Rightarrow> 8 word list \<Rightarrow> nat \<Rightarrow> 8 word list" where
  "decoded bs d i =
     (let t = take i bs @ drop i d; n = length bs
      in if odd n \<and> 0 < i then t[n div 2 := word_of_int (int (hexNibble bs (n - 1)))] else t)"

lemma decoded_step:
  assumes "i < length bs" "length bs \<le> length d"
  shows "AsciiToHex_body (hexText bs @ r) (int (length bs)) (decoded bs d i) i = Inr (decoded bs d (Suc i))"
proof -
  let ?n = "length bs" and ?s = "hexText bs @ r"
  let ?w = "word_of_int (int (hexNibble bs (?n - 1))) :: 8 word"
  have ld: "length (decoded bs d i) = length d" using assms by (simp add: decoded_def Let_def)
  have up: "(take i bs @ drop i d)[i := bs ! i] = take (Suc i) bs @ drop (Suc i) d"
    using assms by (simp add: update_take_drop)
  have m2: "int ?n mod 2 > 0 \<longleftrightarrow> odd ?n" by presburger
  have n1: "getR ?s (int ?n - 1) = Inr (hexDigit (hexNibble bs (?n - 1)))"
  proof -
    have "?n - 1 < 2 * ?n" "0 < ?n" using assms by auto
    then show ?thesis using hexText_nibble [of "?n - 1" bs] getR_nat [of ?s "?n - 1"]
      by (simp add: nth_append of_nat_diff)
  qed
  have dv: "int ?n div 2 = int (?n div 2)" "int ?n - 1 = int (?n - 1)"
    using assms by (simp_all add: zdiv_int)
  have "AsciiToHex_body ?s (int ?n) (decoded bs d i) i =
      bindR (setR (decoded bs d i) (int i) (bs ! i)) (\<lambda>t.
        if odd ?n then Inr (t[?n div 2 := ?w]) else Inr t)"
    unfolding AsciiToHex_body_def m2 dv
  proof (subst AsciiToHex_even_step [of i bs d ?s "length r"], goal_cases)
    case 5
    show ?case
    proof (intro bindR_cong refl if_cong)
      fix t assume "setR (decoded bs d i) (int i) (bs ! i) = Inr t"
      then have "?n div 2 < length t" using assms ld by (auto simp: setR_def split: if_splits)
      then show "bindR (getR ?s (int (?n - 1))) (\<lambda>c.
          bindR (setR t (int (?n div 2)) (word_of_int (schar c - schar CHR ''0''))) (\<lambda>t2.
          bindR (getR t2 (int (?n div 2))) (\<lambda>b.
          if uint b > 9 then setR t2 (int (?n div 2)) (word_of_int (schar (lowtocap c) - schar CHR ''A'' + 10))
          else Inr t2))) = Inr (t[?n div 2 := ?w])"
        by (rule odd_branch [OF hexNibble_less _ n1 [unfolded dv(2)]])
    qed
  qed (use assms in auto)
  also have "\<dots> = (if odd ?n then Inr ((decoded bs d i)[i := bs ! i, ?n div 2 := ?w])
      else Inr ((decoded bs d i)[i := bs ! i]))"
    using assms ld by simp
  also have "\<dots> = Inr (decoded bs d (Suc i))"
    using up by (auto simp: decoded_def Let_def update_again)
  finally show ?thesis .
qed

lemma AsciiToHex_hexText:
  assumes "bs \<noteq> []" and "length bs \<le> length d"
  shows "AsciiToHex (Some (hexText bs @ r)) (Some d) (int (length bs)) =
    Inr (Some (decoded bs d (length bs)))"
proof -
  have "\<exists>t. foldR (AsciiToHex_body (hexText bs @ r) (int (length bs))) d [0..<length bs] = Inr t \<and>
      t = decoded bs d (length bs)"
    by (rule foldR_upt_inv) (use assms decoded_step in \<open>auto simp: decoded_def [of bs d 0]\<close>)
  moreover have "\<not> int (length bs) < 1" using assms(1) by (cases bs) auto
  ultimately show ?thesis by (simp add: AsciiToHex_def)
qed

lemma HexToAscii_hexText:
  assumes "bs \<noteq> []" and "2 * length bs < length d"
  shows "HexToAscii (Some bs) (Some d) (int (length bs)) =
    Inr (Some (hexText bs @ NUL # drop (2 * length bs + 1) d))"
proof -
  let ?I = "\<lambda>i t. t = take (2 * i) (hexText bs) @ drop (2 * i) d"
  have step: "\<exists>t'. HexToAscii_body bs t i = Inr t' \<and> ?I (Suc i) t'" if i: "i < length bs" and t: "?I i t" for i t
  proof -
    have l: "length t = length d" using i t assms by simp
    have "HexToAscii_body bs t i = Inr (t[2 * i := hexText bs ! (2 * i), Suc (2 * i) := hexText bs ! Suc (2 * i)])"
      using i assms l hexText_nth [OF i] by (simp add: HexToAscii_body_def to_char_hexChar setR_pair)
    moreover have "t[2 * i := hexText bs ! (2 * i), Suc (2 * i) := hexText bs ! Suc (2 * i)] =
        take (2 * Suc i) (hexText bs) @ drop (2 * Suc i) d"
      using i assms update_take_drop [of "2 * i" "hexText bs" d]
        update_take_drop [of "Suc (2 * i)" "hexText bs" d] by (simp add: t)
    ultimately show ?thesis by simp
  qed
  have "\<exists>t. foldR (HexToAscii_body bs) d [0..<length bs] = Inr t \<and> ?I (length bs) t"
    by (rule foldR_upt_inv) (use step in auto)
  moreover have "\<not> int (length bs) < 1" using assms(1) by (cases bs) auto
  ultimately show ?thesis using assms(2)
    by (auto simp: HexToAscii_def setR_pair list_update_append Cons_nth_drop_Suc [symmetric])
qed

section \<open>Properties\<close>

text \<open>
  C23.  Hexadecimal round trip: printing \<open>n > 0\<close> bytes with \<open>HexToAscii\<close> and reading
  the text back with \<open>AsciiToHex\<close> for \<open>n\<close> bytes restores every byte when \<open>n\<close> is even.
  When \<open>n\<close> is odd the byte in the middle is replaced by the value of one
  hexadecimal digit, that of the character at index \<open>n - 1\<close>.
\<close>

theorem hex_roundtrip:
  assumes "bs \<noteq> []" and "2 * length bs < length d1" and "length bs \<le> length d2"
  shows "bindR (HexToAscii (Some bs) (Some d1) (int (length bs))) (\<lambda>txt.
           AsciiToHex txt (Some d2) (int (length bs))) =
    Inr (Some ((if even (length bs) then bs
                else bs[length bs div 2 := word_of_int (int (hexNibble bs (length bs - 1)))]) @
               drop (length bs) d2))"
  using assms AsciiToHex_hexText [OF assms(1,3)]
  by (auto simp: HexToAscii_hexText decoded_def Let_def list_update_append)

theorem hex_roundtrip_witness:
  "bindR (HexToAscii (Some [0xAB, 0xCC]) (Some (replicate 5 NUL)) 2) (\<lambda>txt.
     AsciiToHex txt (Some [0, 0]) 2) = Inr (Some [0xAB, 0xCC]) \<and>
   bindR (HexToAscii (Some [0xAB]) (Some (replicate 3 NUL)) 1) (\<lambda>txt.
     AsciiToHex txt (Some [0]) 1) = Inr (Some [0x0A])"
proof -
  have "hexNibble [0xAB] 0 = 10" by code_simp
  then show ?thesis
    using hex_roundtrip [of "[0xAB, 0xCC]" "replicate 5 NUL" "[0, 0]"]
      hex_roundtrip [of "[0xAB]" "replicate 3 NUL" "[0]"] by simp
qed


end
