(* ===== verification/Comparator.thy ===== *)
theory Comparator
  imports Prelude "HOL-Library.Multiset"
begin

text \<open>
  Contracts around \<open>qsort\<close>.  \<open>comparator\<close> is what the C standard asks of a
  comparison function: a total preorder.  \<open>sorter\<close> is what a sort promises for such
  a function on the arrays that fit its limits, and \<open>stable_sorter\<close> the stronger promise of a merge sort.  The lemmas
  say how far each promise determines the result.
\<close>

definition sorted_by :: "('a \<Rightarrow> 'a \<Rightarrow> int) \<Rightarrow> 'a list \<Rightarrow> bool" where
  "sorted_by cmp xs \<longleftrightarrow> sorted_wrt (\<lambda>x y. cmp x y \<le> 0) xs"

locale comparator =
  fixes cmp :: "'a \<Rightarrow> 'a \<Rightarrow> int"
  assumes cmp_flip: "cmp x y < 0 \<longleftrightarrow> cmp y x > 0"
    and cmp_trans: "cmp x y \<le> 0 \<Longrightarrow> cmp y z \<le> 0 \<Longrightarrow> cmp x z \<le> 0"
begin

lemma cmp_refl [simp]: "cmp x x = 0"
  using cmp_flip [of x x] by linarith

lemma cmp_total: "cmp x y \<le> 0 \<or> cmp y x \<le> 0"
  using cmp_flip [of x y] by linarith

lemma cmp_le_flip: "cmp x y \<le> 0 \<longleftrightarrow> 0 \<le> cmp y x"
  using cmp_flip [of y x] by linarith

lemma cmp_eq_flip: "cmp x y = 0 \<longleftrightarrow> cmp y x = 0"
  using cmp_flip [of x y] cmp_flip [of y x] by linarith

lemma cmp_eq_trans: "cmp x y = 0 \<Longrightarrow> cmp y z = 0 \<Longrightarrow> cmp x z = 0"
  using cmp_trans [of x y z] cmp_trans [of z y x] cmp_eq_flip [of x y] cmp_eq_flip [of y z] cmp_le_flip [of z x]
  by linarith

lemma cmp_less_trans: "cmp x y < 0 \<Longrightarrow> cmp y z \<le> 0 \<Longrightarrow> cmp x z < 0"
  using cmp_trans [of y z x] cmp_flip [of x y] cmp_le_flip [of z x] by (meson leD leI)

text \<open>A sorted list is determined by its elements up to equivalent ones.\<close>

lemma sorted_unique:
  assumes "sorted_by cmp xs" "sorted_by cmp ys" "mset xs = mset ys"
    and "\<And>x. filter (\<lambda>y. cmp x y = 0) xs = filter (\<lambda>y. cmp x y = 0) ys"
  shows "xs = ys"
  using assms
proof (induction xs arbitrary: ys)
  case Nil
  then show ?case by simp
next
  case (Cons x xs)
  then obtain y ys' where ys: "ys = y # ys'" by (cases ys) auto
  have "x \<in> set ys" "y \<in> set (x # xs)" using Cons.prems(3) ys
    by (metis list.set_intros(1) set_mset_mset)+
  then have "cmp y x \<le> 0" "cmp x y \<le> 0" using Cons.prems(1,2) ys by (auto simp: sorted_by_def)
  then have xy: "cmp x y = 0" using cmp_flip [of x y] cmp_flip [of y x] by linarith
  then have "x = y" using Cons.prems(4) [of x] ys by simp
  moreover have "xs = ys'"
  proof (rule Cons.IH)
    show "filter (\<lambda>z. cmp w z = 0) xs = filter (\<lambda>z. cmp w z = 0) ys'" for w
      using Cons.prems(4) [of w] ys \<open>x = y\<close> by (simp split: if_splits)
  qed (use Cons.prems ys \<open>x = y\<close> in \<open>auto simp: sorted_by_def\<close>)
  ultimately show ?case using ys by simp
qed

end

lemma replicate_filter: "filter (\<lambda>y. y = w) us = replicate (count (mset us) w) w"
  by (induction us) auto

locale sorter =
  fixes sort :: "('a \<Rightarrow> 'a \<Rightarrow> int) \<Rightarrow> 'a list \<Rightarrow> 'a list cres" and fits :: "'a list \<Rightarrow> bool"
  assumes sorts: "comparator cmp \<Longrightarrow> fits xs \<Longrightarrow> \<exists>ys. sort cmp xs = Inr ys \<and> mset ys = mset xs \<and> sorted_by cmp ys"
begin

lemma sort_length: "comparator cmp \<Longrightarrow> fits xs \<Longrightarrow> sort cmp xs = Inr ys \<Longrightarrow> length ys = length xs"
  using sorts [of cmp xs] by (auto dest: mset_eq_length)

lemma sort_set: "comparator cmp \<Longrightarrow> fits xs \<Longrightarrow> sort cmp xs = Inr ys \<Longrightarrow> set ys = set xs"
  using sorts [of cmp xs] by (auto dest: mset_eq_setD)

text \<open>Where only equal elements compare equal, every sort gives the same list.\<close>

lemma sort_determined:
  assumes c: "comparator cmp" and f: "fits xs" and i: "\<And>x y. x \<in> set xs \<Longrightarrow> y \<in> set xs \<Longrightarrow> cmp x y = 0 \<Longrightarrow> x = y"
    and zs: "mset zs = mset xs" "sorted_by cmp zs"
  shows "sort cmp xs = Inr zs"
proof -
  obtain ys where ys: "sort cmp xs = Inr ys" "mset ys = mset xs" "sorted_by cmp ys"
    using sorts [OF c f] by blast
  have s: "set zs = set xs" "set ys = set xs" using zs ys by (auto dest: mset_eq_setD)
  have "filter (\<lambda>y. cmp x y = 0) ys = filter (\<lambda>y. cmp x y = 0) zs" for x
  proof (cases "\<exists>w \<in> set xs. cmp x w = 0")
    case True
    then obtain w where w: "w \<in> set xs" "cmp x w = 0" by blast
    have "cmp x y = 0 \<longleftrightarrow> y = w" if "y \<in> set xs" for y
      using w i [OF that w(1)] that comparator.cmp_eq_trans [OF c] comparator.cmp_eq_flip [OF c] by metis
    then have "filter (\<lambda>y. cmp x y = 0) us = replicate (count (mset us) w) w" if "set us = set xs" for us
      using that replicate_filter [of w us] by (metis (mono_tags, lifting) filter_cong)
    with s ys(2) zs(1) show ?thesis by metis
  qed (use s in \<open>auto simp: filter_empty_conv\<close>)
  then have "ys = zs"
    using comparator.sorted_unique [OF c ys(3) zs(2)] ys(2) zs(1) by simp
  with ys(1) show ?thesis by simp
qed

end

locale stable_sorter = sorter +
  assumes stable: "comparator cmp \<Longrightarrow> fits xs \<Longrightarrow> sort cmp xs = Inr ys \<Longrightarrow>
    filter (\<lambda>y. cmp x y = 0) ys = filter (\<lambda>y. cmp x y = 0) xs"
begin

text \<open>A stable sort is determined completely.\<close>

lemma stable_determined:
  assumes "comparator cmp" "fits xs" "mset zs = mset xs" "sorted_by cmp zs"
    and "\<And>x. filter (\<lambda>y. cmp x y = 0) zs = filter (\<lambda>y. cmp x y = 0) xs"
  shows "sort cmp xs = Inr zs"
proof -
  obtain ys where "sort cmp xs = Inr ys" "mset ys = mset xs" "sorted_by cmp ys"
    using sorts [OF assms(1,2)] by blast
  with comparator.sorted_unique [OF assms(1), of ys zs] stable [OF assms(1,2)] assms show ?thesis by simp
qed

lemma sort_sorted:
  assumes "comparator cmp" "fits xs" "sorted_by cmp xs"
  shows "sort cmp xs = Inr xs"
  using stable_determined [OF assms(1,2) refl assms(3)] by simp

end

end
