(* ===== verification/Msort.thy ===== *)
theory Msort
  imports CString Comparator
begin

text \<open>
  \<open>qsort\<close> of the bundled C library (\<^verbatim>\<open>glibc-2.27/stdlib/msort.c\<close>): a merge sort in a
  temporary array, which sorts pointers and then permutes the elements along the
  cycles of the permutation when an element is larger than 32 bytes.
  An array is a list of elements; a pointer into it is an index.  The five
  branches of \<open>switch (p->var)\<close> copy one element each time, by different
  instructions; \<open>merge_loop\<close> is all of them, and the comparison through pointers
  of branch 3 is in the comparison function it is called with.
  The lemmas show that the array becomes the stable sorted permutation of
  itself, that no access leaves the two arrays and that every loop ends.
\<close>

section \<open>The code\<close>

function merge_loop ::
  "('a \<Rightarrow> 'a \<Rightarrow> int) \<Rightarrow> 'a list \<Rightarrow> 'a list \<Rightarrow> nat \<Rightarrow> nat \<Rightarrow> nat \<Rightarrow> nat \<Rightarrow> nat \<Rightarrow>
   ('a list \<times> nat \<times> nat \<times> nat \<times> nat) cres" where
  "merge_loop cmp b t b1 n1 b2 n2 tmp =
     (if n1 > 0 \<and> n2 > 0 then
        bindR (getR b (int b1)) (\<lambda>x. bindR (getR b (int b2)) (\<lambda>y.
        if cmp x y \<le> 0
        then bindR (setR t (int tmp) x) (\<lambda>t'. merge_loop cmp b t' (b1 + 1) (n1 - 1) b2 n2 (tmp + 1))
        else bindR (setR t (int tmp) y) (\<lambda>t'. merge_loop cmp b t' b1 n1 (b2 + 1) (n2 - 1) (tmp + 1))))
      else Inr (t, b1, n1, n2, tmp))"
  by pat_completeness auto
termination
  by (relation "measure (\<lambda>(cmp, b, t, b1, n1, b2, n2, tmp). n1 + n2)") auto

declare merge_loop.simps [simp del]

function msort_with_tmp :: "('a \<Rightarrow> 'a \<Rightarrow> int) \<Rightarrow> 'a list \<Rightarrow> 'a list \<Rightarrow> nat \<Rightarrow> nat \<Rightarrow> ('a list \<times> 'a list) cres" where
  "msort_with_tmp cmp m t b n =
     (if n \<le> 1 then Inr (m, t)
      else
        let n1 = n div 2; n2 = n - n1; b1 = b; b2 = b + n1
        in bindR (msort_with_tmp cmp m t b1 n1) (\<lambda>(m, t).
           bindR (msort_with_tmp cmp m t b2 n2) (\<lambda>(m, t).
           bindR (merge_loop cmp m t b1 n1 b2 n2 0) (\<lambda>(t, b1, n1, n2, tmp).
           bindR (if n1 > 0 then memcpy t tmp (drop b1 m) n1 else Inr t) (\<lambda>t.
           bindR (memcpy m b t (n - n2)) (\<lambda>m. Inr (m, t)))))))"
  by pat_completeness auto
termination
  by (relation "measure (\<lambda>(cmp, m, t, b, n). n)") auto

declare msort_with_tmp.simps [simp del]

text \<open>
  The second half of indirect sorting: \<open>tp ! i\<close> is the index of the element that
  belongs at \<open>i\<close>.  \<open>cycle_loop\<close> is the \<open>do ... while (kp != ip)\<close> loop; its fuel is
  the number of elements, and running out of it is the loop not ending.
\<close>

fun cycle_loop :: "nat \<Rightarrow> 'a list \<Rightarrow> nat list \<Rightarrow> nat \<Rightarrow> nat \<Rightarrow> nat \<Rightarrow> ('a list \<times> nat list \<times> nat) cres" where
  "cycle_loop 0 b tp ip jp kp = Inl NoReturn"
| "cycle_loop (Suc fuel) b tp ip jp kp =
     bindR (setR tp (int jp) jp) (\<lambda>tp.
     bindR (getR b (int kp)) (\<lambda>x.
     bindR (setR b (int jp) x) (\<lambda>b.
     bindR (getR tp (int kp)) (\<lambda>kp'.
     if kp' \<noteq> ip then cycle_loop fuel b tp ip kp kp'
     else Inr (b, tp, kp)))))"

definition permute_step :: "nat \<Rightarrow> 'a list \<times> nat list \<Rightarrow> nat \<Rightarrow> ('a list \<times> nat list) cres" where
  "permute_step n st i =
     (case st of (b, tp) \<Rightarrow>
        bindR (getR tp (int i)) (\<lambda>kp.
        if kp \<noteq> i then
          bindR (getR b (int i)) (\<lambda>tmp_storage.
          bindR (cycle_loop n b tp i i kp) (\<lambda>(b, tp, j).
          bindR (setR tp (int j) j) (\<lambda>tp.
          bindR (setR b (int j) tmp_storage) (\<lambda>b. Inr (b, tp)))))
        else Inr (b, tp)))"

text \<open>
  The sort of \<open>__qsort_r\<close> once the temporary array is there: indirect for elements
  of more than 32 bytes, with pointers into the array and the comparison through
  them, and direct otherwise.  \<open>junk\<close> is what the fresh array holds.
\<close>

definition msort_indirect :: "('a \<Rightarrow> 'a \<Rightarrow> int) \<Rightarrow> 'a list \<Rightarrow> 'a list cres" where
  "msort_indirect cmp b =
     (let n = length b
      in bindR (msort_with_tmp (\<lambda>i j. cmp (b ! i) (b ! j)) [0..<n] (replicate n 0) 0 n) (\<lambda>(tp, t).
         bindR (foldR (permute_step n) (b, tp) [0..<n]) (\<lambda>(b, tp). Inr b)))"

definition msort_direct :: "('a \<Rightarrow> 'a \<Rightarrow> int) \<Rightarrow> 'a list \<Rightarrow> 'a \<Rightarrow> 'a list cres" where
  "msort_direct cmp b junk =
     bindR (msort_with_tmp cmp b (replicate (length b) junk) 0 (length b)) (\<lambda>(m, t). Inr m)"

section \<open>The merge\<close>

abbreviation seg :: "'a list \<Rightarrow> nat \<Rightarrow> nat \<Rightarrow> 'a list" where
  "seg b i n \<equiv> take n (drop i b)"

fun merge :: "('a \<Rightarrow> 'a \<Rightarrow> int) \<Rightarrow> 'a list \<Rightarrow> 'a list \<Rightarrow> 'a list" where
  "merge cmp [] ys = ys"
| "merge cmp xs [] = xs"
| "merge cmp (x # xs) (y # ys) =
     (if cmp x y \<le> 0 then x # merge cmp xs (y # ys) else y # merge cmp (x # xs) ys)"

lemma merge_Nil2 [simp]: "merge cmp xs [] = xs"
  by (cases xs) simp_all

lemma mset_merge [simp]: "mset (merge cmp xs ys) = mset xs + mset ys"
  by (induction cmp xs ys rule: merge.induct) simp_all

lemma length_merge [simp]: "length (merge cmp xs ys) = length xs + length ys"
  by (metis mset_merge size_mset size_union)

lemma set_merge [simp]: "set (merge cmp xs ys) = set xs \<union> set ys"
  by (metis mset_merge set_mset_mset set_mset_union)

lemma seg_Cons: "i < length b \<Longrightarrow> 0 < n \<Longrightarrow> seg b i n = b ! i # seg b (Suc i) (n - 1)"
  by (cases n) (simp_all add: Cons_nth_drop_Suc [symmetric])

lemma merge_loop_spec:
  assumes "b1 + n1 \<le> length b" "b2 + n2 \<le> length b" "tmp + n1 + n2 \<le> length t"
  shows "\<exists>out n1' n2'. n1' \<le> n1 \<and> n2' \<le> n2 \<and> (n1' = 0 \<or> n2' = 0) \<and> length out + n1' + n2' = n1 + n2 \<and>
     merge_loop cmp b t b1 n1 b2 n2 tmp =
       Inr (take tmp t @ out @ drop (tmp + length out) t, b1 + n1 - n1', n1', n2', tmp + length out) \<and>
     merge cmp (seg b b1 n1) (seg b b2 n2) = out @ seg b (b1 + n1 - n1') n1' @ seg b (b2 + n2 - n2') n2'"
  using assms
proof (induction cmp b t b1 n1 b2 n2 tmp rule: merge_loop.induct)
  case (1 cmp b t b1 n1 b2 n2 tmp)
  let ?x = "b ! b1" and ?y = "b ! b2"
  show ?case
  proof (cases "n1 > 0 \<and> n2 > 0")
    case False
    then show ?thesis
      by - (rule exI [of _ "[]"], rule exI [of _ n1], rule exI [of _ n2], subst merge_loop.simps, auto)
  next
    case True
    with "1.prems" have g: "getR b (int b1) = Inr ?x" "getR b (int b2) = Inr ?y"
      and st: "setR t (int tmp) z = Inr (t[tmp := z])" for z by (auto simp del: length_0_conv)
    have s: "seg b b1 n1 = ?x # seg b (Suc b1) (n1 - 1)" "seg b b2 n2 = ?y # seg b (Suc b2) (n2 - 1)"
      using True "1.prems" by (simp_all add: seg_Cons)
    have upd: "take (Suc tmp) (t[tmp := z]) @ out @ drop (Suc tmp + length out) (t[tmp := z]) =
        take tmp t @ (z # out) @ drop (tmp + length (z # out)) t" for z out
      using "1.prems" True by (simp add: take_Suc_conv_app_nth)
    show ?thesis
    proof (cases "cmp ?x ?y \<le> 0")
      case le: True
      from "1.IH"(1) [OF True g le st] "1.prems" True
      obtain out n1' n2' where o: "n1' \<le> n1 - 1" "n2' \<le> n2" "n1' = 0 \<or> n2' = 0"
        "length out + n1' + n2' = n1 - 1 + n2"
        "merge_loop cmp b (t[tmp := ?x]) (b1 + 1) (n1 - 1) b2 n2 (tmp + 1) =
          Inr (take (Suc tmp) (t[tmp := ?x]) @ out @ drop (Suc tmp + length out) (t[tmp := ?x]),
            b1 + n1 - n1', n1', n2', Suc tmp + length out)"
        "merge cmp (seg b (Suc b1) (n1 - 1)) (seg b b2 n2) =
          out @ seg b (b1 + n1 - n1') n1' @ seg b (b2 + n2 - n2') n2'" by auto
      have "merge_loop cmp b t b1 n1 b2 n2 tmp = Inr (take tmp t @ (?x # out) @ drop (tmp + length (?x # out)) t,
            b1 + n1 - n1', n1', n2', tmp + length (?x # out))"
        using o(5) le unfolding upd by (subst merge_loop.simps) (simp add: True g st del: getR_nat setR_nat)
      moreover have "merge cmp (seg b b1 n1) (seg b b2 n2) =
          (?x # out) @ seg b (b1 + n1 - n1') n1' @ seg b (b2 + n2 - n2') n2'"
        using o(6) le by (simp add: s)
      moreover have "n1' \<le> n1" "n2' \<le> n2" "length (?x # out) + n1' + n2' = n1 + n2" using o True by auto
      ultimately show ?thesis using o(3) by metis
    next
      case gt: False
      from "1.IH"(2) [OF True g gt st] "1.prems" True
      obtain out n1' n2' where o: "n1' \<le> n1" "n2' \<le> n2 - 1" "n1' = 0 \<or> n2' = 0"
        "length out + n1' + n2' = n1 + (n2 - 1)"
        "merge_loop cmp b (t[tmp := ?y]) b1 n1 (b2 + 1) (n2 - 1) (tmp + 1) =
          Inr (take (Suc tmp) (t[tmp := ?y]) @ out @ drop (Suc tmp + length out) (t[tmp := ?y]),
            b1 + n1 - n1', n1', n2', Suc tmp + length out)"
        "merge cmp (seg b b1 n1) (seg b (Suc b2) (n2 - 1)) =
          out @ seg b (b1 + n1 - n1') n1' @ seg b (b2 + n2 - n2') n2'" by auto
      have "merge_loop cmp b t b1 n1 b2 n2 tmp = Inr (take tmp t @ (?y # out) @ drop (tmp + length (?y # out)) t,
            b1 + n1 - n1', n1', n2', tmp + length (?y # out))"
        using o(5) gt unfolding upd by (subst merge_loop.simps) (simp add: True g st del: getR_nat setR_nat)
      moreover have "merge cmp (seg b b1 n1) (seg b b2 n2) =
          (?y # out) @ seg b (b1 + n1 - n1') n1' @ seg b (b2 + n2 - n2') n2'"
        using o(6) gt by (simp add: s)
      moreover have "n1' \<le> n1" "n2' \<le> n2" "length (?y # out) + n1' + n2' = n1 + n2" using o True by auto
      ultimately show ?thesis using o(3) by metis
    qed
  qed
qed

section \<open>The merge sort\<close>

function msort :: "('a \<Rightarrow> 'a \<Rightarrow> int) \<Rightarrow> 'a list \<Rightarrow> 'a list" where
  "msort cmp xs =
     (if length xs \<le> 1 then xs
      else merge cmp (msort cmp (take (length xs div 2) xs)) (msort cmp (drop (length xs div 2) xs)))"
  by pat_completeness auto
termination
  by (relation "measure (\<lambda>(cmp, xs). length xs)") auto

declare msort.simps [simp del]

lemma mset_msort [simp]: "mset (msort cmp xs) = mset xs"
proof (induction cmp xs rule: msort.induct)
  case (1 cmp xs)
  then show ?case
    by (subst msort.simps) (auto simp: mset_append [symmetric] simp del: mset_append)
qed

lemma length_msort [simp]: "length (msort cmp xs) = length xs"
  by (metis mset_msort size_mset)

definition splice :: "'a list \<Rightarrow> nat \<Rightarrow> 'a list \<Rightarrow> 'a list" where
  "splice m b ys = take b m @ ys @ drop (b + length ys) m"

lemma length_splice [simp]: "b + length ys \<le> length m \<Longrightarrow> length (splice m b ys) = length m"
  by (simp add: splice_def)

lemma seg_splice:
  "b + length ys \<le> length m \<Longrightarrow> b + length ys \<le> i \<Longrightarrow> seg (splice m b ys) i k = seg m i k"
  by (simp add: splice_def)

lemma splice_append:
  "b + length xs + length ys \<le> length m \<Longrightarrow>
   splice (splice m b xs) (b + length xs) ys = splice m b (xs @ ys)"
  by (simp add: splice_def ac_simps)

lemma splice_splice:
  "b + length ys \<le> length m \<Longrightarrow> length xs = length ys \<Longrightarrow> splice (splice m b xs) b ys = splice m b ys"
  by (simp add: splice_def)

lemma splice_seg: "b + n \<le> length m \<Longrightarrow> splice m b (seg m b n) = m"
proof -
  assume "b + n \<le> length m"
  moreover have "seg m b n @ drop (n + b) m = drop b m"
    using append_take_drop_id [of n "drop b m"] by (simp del: append_take_drop_id)
  ultimately show ?thesis by (simp add: splice_def add.commute)
qed

lemma memcpy_splice:
  "n \<le> length src \<Longrightarrow> off + n \<le> length dst \<Longrightarrow> memcpy dst off src n = Inr (splice dst off (take n src))"
  by (simp add: memcpy_eq splice_def min_def)

text \<open>The merge and the two copies after it, on halves that are sorted already.\<close>

definition merge_back :: "('a \<Rightarrow> 'a \<Rightarrow> int) \<Rightarrow> 'a list \<Rightarrow> 'a list \<Rightarrow> nat \<Rightarrow> nat \<Rightarrow> nat \<Rightarrow> ('a list \<times> 'a list) cres" where
  "merge_back cmp m t b n1 n2 =
     bindR (merge_loop cmp m t b n1 (b + n1) n2 0) (\<lambda>(t, b1, n1', n2', tmp).
     bindR (if n1' > 0 then memcpy t tmp (drop b1 m) n1' else Inr t) (\<lambda>t.
     bindR (memcpy m b t (n1 + n2 - n2')) (\<lambda>m. Inr (m, t))))"

lemma merge_back_spec:
  assumes m: "b + n1 + n2 \<le> length m" and t: "n1 + n2 \<le> length t"
  shows "\<exists>t'. length t' = length t \<and> merge_back cmp m t b n1 n2 =
    Inr (splice m b (merge cmp (seg m b n1) (seg m (b + n1) n2)), t')"
proof -
  from merge_loop_spec [of b n1 m "b + n1" n2 0 t cmp] m t
  obtain out n1' n2' where o: "n1' \<le> n1" "n2' \<le> n2" "n1' = 0 \<or> n2' = 0" "length out + n1' + n2' = n1 + n2"
    and l: "merge_loop cmp m t b n1 (b + n1) n2 0 =
      Inr (out @ drop (length out) t, b + n1 - n1', n1', n2', length out)"
    and r: "merge cmp (seg m b n1) (seg m (b + n1) n2) =
      out @ seg m (b + n1 - n1') n1' @ seg m (b + n1 + n2 - n2') n2'" by auto
  define rest where "rest = seg m (b + n1 - n1') n1'"
  have lr: "length rest = n1'" using m o by (simp add: rest_def)
  define t' where "t' = out @ rest @ drop (length out + n1') t"
  have lt: "length t' = length t" using o t lr by (simp add: t'_def)
  have c1: "(if n1' > 0 then memcpy (out @ drop (length out) t) (length out) (drop (b + n1 - n1') m) n1'
      else Inr (out @ drop (length out) t)) = Inr t'"
    using m t o by (auto simp: memcpy_eq t'_def rest_def add.commute [of n1'])
  have k: "n1 + n2 - n2' = length out + n1'" using o by linarith
  have tk: "take (length out + n1') t' = out @ rest" by (simp add: t'_def lr)
  have c2: "memcpy m b t' (n1 + n2 - n2') = Inr (splice m b (out @ rest))"
    unfolding k using o m t lt by (subst memcpy_splice) (simp_all add: tk)
  have "splice m b (out @ rest) = splice m b (out @ rest @ seg m (b + n1 + n2 - n2') n2')"
  proof -
    have e: "b + n1 + n2 - n2' = b + (length out + n1')" using o by linarith
    have "drop (b + (length out + n1')) m =
        seg m (b + (length out + n1')) n2' @ drop (b + (length out + n1') + n2') m"
      by (metis append_take_drop_id drop_drop add.commute)
    then show ?thesis using lr m o unfolding e by (simp add: splice_def ac_simps)
  qed
  with l c1 c2 r lt show ?thesis by (auto simp: merge_back_def rest_def)
qed

lemma msort_with_tmp_spec:
  assumes "b + n \<le> length m" "n \<le> length t"
  shows "\<exists>t'. length t' = length t \<and> msort_with_tmp cmp m t b n = Inr (splice m b (msort cmp (seg m b n)), t')"
  using assms
proof (induction n arbitrary: m t b rule: less_induct)
  case (less n)
  show ?case
  proof (cases "n \<le> 1")
    case True
    with less.prems show ?thesis
      by (subst msort_with_tmp.simps, subst msort.simps) (simp add: splice_seg)
  next
    case False
    define n1 n2 where "n1 = n div 2" and "n2 = n - n1"
    have n: "n1 < n" "n2 < n" "n1 + n2 = n" using False by (auto simp: n1_def n2_def)
    define xs ys where "xs = msort cmp (seg m b n1)" and "ys = msort cmp (seg m (b + n1) n2)"
    have lxy: "length xs = n1" "length ys = n2" using less.prems n by (simp_all add: xs_def ys_def)
    obtain t1 where t1: "length t1 = length t" "msort_with_tmp cmp m t b n1 = Inr (splice m b xs, t1)"
      using less.IH [OF n(1), of b m t] less.prems n by (auto simp: xs_def)
    have "seg (splice m b xs) (b + n1) n2 = seg m (b + n1) n2"
      using less.prems n lxy by (intro seg_splice) auto
    then obtain t2 where t2: "length t2 = length t"
      "msort_with_tmp cmp (splice m b xs) t1 (b + n1) n2 = Inr (splice (splice m b xs) (b + n1) ys, t2)"
      using less.IH [OF n(2), of "b + n1" "splice m b xs" t1] less.prems n lxy t1(1) by (auto simp: ys_def)
    have sp: "splice (splice m b xs) (b + n1) ys = splice m b (xs @ ys)"
      using splice_append [of b xs ys m] less.prems n lxy by simp
    have "seg (splice m b (xs @ ys)) b n1 = xs" "seg (splice m b (xs @ ys)) (b + n1) n2 = ys"
      using less.prems n lxy by (simp_all add: splice_def)
    then obtain t3 where t3: "length t3 = length t"
      "merge_back cmp (splice m b (xs @ ys)) t2 b n1 n2 = Inr (splice (splice m b (xs @ ys)) b (merge cmp xs ys), t3)"
      using merge_back_spec [of b n1 n2 "splice m b (xs @ ys)" t2 cmp] less.prems n lxy t2(1) by auto
    have "splice (splice m b (xs @ ys)) b (merge cmp xs ys) = splice m b (merge cmp xs ys)"
      using less.prems n lxy by (intro splice_splice) simp_all
    moreover have "msort cmp (seg m b n) = merge cmp xs ys"
    proof -
      have "length (seg m b n) = n" using less.prems by simp
      moreover have "take (n div 2) (seg m b n) = seg m b n1" by (simp add: n1_def min_absorb1)
      moreover have "drop (n div 2) (seg m b n) = seg m (b + n1) n2"
        by (simp add: n1_def n2_def drop_take ac_simps)
      ultimately show ?thesis using False by (subst msort.simps) (simp only: xs_def ys_def One_nat_def if_False)
    qed
    moreover have "msort_with_tmp cmp m t b n =
        bindR (msort_with_tmp cmp m t b n1) (\<lambda>(m, t). bindR (msort_with_tmp cmp m t (b + n1) n2)
          (\<lambda>(m, t). merge_back cmp m t b n1 n2))"
      using False by (subst msort_with_tmp.simps)
        (simp add: Let_def merge_back_def n(3) flip: n1_def n2_def)
    ultimately show ?thesis using t1 t2 t3 sp by auto
  qed
qed

section \<open>Permuting along the cycles\<close>

text \<open>
  The elements with index in \<open>V\<close> are in their place; all others are untouched.
\<close>

definition placed :: "'a list \<Rightarrow> nat list \<Rightarrow> nat set \<Rightarrow> 'a list \<Rightarrow> nat list \<Rightarrow> bool" where
  "placed b0 tp0 V b tp \<longleftrightarrow> length b = length b0 \<and> length tp = length b0 \<and>
     (\<forall>v < length b0. if v \<in> V then tp ! v = v \<and> b ! v = b0 ! (tp0 ! v) else tp ! v = tp0 ! v \<and> b ! v = b0 ! v)"

lemma placed_step:
  assumes "placed b0 tp0 V b tp" "jp < length b0"
  shows "placed b0 tp0 (insert jp V) (b[jp := b0 ! (tp0 ! jp)]) (tp[jp := jp])"
  using assms by (auto simp: placed_def nth_list_update)

lemma placedD:
  assumes "placed b0 tp0 V b tp" "v < length b0"
  shows "v \<in> V \<Longrightarrow> tp ! v = v" "v \<in> V \<Longrightarrow> b ! v = b0 ! (tp0 ! v)"
    "v \<notin> V \<Longrightarrow> tp ! v = tp0 ! v" "v \<notin> V \<Longrightarrow> b ! v = b0 ! v"
    "length b = length b0" "length tp = length b0"
  using assms by (auto simp: placed_def)

locale permutation =
  fixes b0 :: "'a list" and tp0 :: "nat list"
  assumes perm: "mset tp0 = mset [0..<length b0]"
begin

lemma perm_length [simp]: "length tp0 = length b0"
  using perm by (metis length_upt size_mset minus_nat.diff_0)

lemma perm_less [simp]: "v < length b0 \<Longrightarrow> tp0 ! v < length b0"
  using perm by (metis atLeastLessThan_iff nth_mem perm_length set_mset_mset set_upt)

lemma perm_inj: "v < length b0 \<Longrightarrow> w < length b0 \<Longrightarrow> tp0 ! v = tp0 ! w \<Longrightarrow> v = w"
  using perm by (metis distinct_upt mset_eq_imp_distinct_iff nth_eq_iff_index_eq perm_length)

lemma cycle_loop_placed:
  assumes "placed b0 tp0 V b tp" "V \<subseteq> {..<length b0}" "jp < length b0" "jp \<notin> V" "tp0 ! jp \<noteq> i"
    "insert jp V - {i} = (\<lambda>v. tp0 ! v) ` V" "i \<in> insert jp V" "length b0 \<le> fuel + card V"
  shows "\<exists>b' tp' j V'. cycle_loop fuel b tp i jp (tp0 ! jp) = Inr (b', tp', j) \<and>
    placed b0 tp0 V' b' tp' \<and> V' \<subseteq> {..<length b0} \<and> V \<subseteq> V' \<and> j < length b0 \<and> j \<notin> V' \<and> tp0 ! j = i \<and>
    i \<in> insert j V' \<and> (\<lambda>v. tp0 ! v) ` insert j V' = insert j V'"
  using assms
proof (induction fuel arbitrary: V b tp jp)
  case 0
  then have "card V < length b0"
    using psubset_card_mono [of "{..<length b0}" V] by auto
  with "0.prems" show ?case by simp
next
  case (Suc fuel)
  let ?kp = "tp0 ! jp" and ?V = "insert jp V"
  have k: "?kp < length b0" using Suc.prems(3) by simp
  have kV: "?kp \<notin> ?V"
  proof
    assume "?kp \<in> ?V"
    then have "?kp \<in> (\<lambda>v. tp0 ! v) ` V" using Suc.prems(5,6) by blast
    then obtain v where "v \<in> V" "tp0 ! jp = tp0 ! v" by blast
    with Suc.prems(2-4) show False using perm_inj [of jp v] by blast
  qed
  define b1 tp1 where "b1 = b[jp := b0 ! ?kp]" and "tp1 = tp[jp := jp]"
  have p1: "placed b0 tp0 ?V b1 tp1"
    unfolding b1_def tp1_def using placed_step [OF Suc.prems(1,3)] .
  have st: "cycle_loop (Suc fuel) b tp i jp ?kp =
      (if tp0 ! ?kp \<noteq> i then cycle_loop fuel b1 tp1 i ?kp (tp0 ! ?kp) else Inr (b1, tp1, ?kp))"
    using placedD [OF p1 k] placedD [OF Suc.prems(1,3)] placedD [OF Suc.prems(1) k] k kV Suc.prems(3)
    by (simp add: b1_def tp1_def)
  have im: "insert ?kp ?V - {i} = (\<lambda>v. tp0 ! v) ` ?V" using Suc.prems(5,6) by auto
  show ?case
  proof (cases "tp0 ! ?kp = i")
    case True
    with im Suc.prems(7) have "(\<lambda>v. tp0 ! v) ` insert ?kp ?V = insert ?kp ?V" by auto
    moreover have "?V \<subseteq> {..<length b0}" "V \<subseteq> ?V" "i \<in> insert ?kp ?V" using Suc.prems(2,3,7) by auto
    ultimately show ?thesis using True st p1 k kV by metis
  next
    case False
    have "finite V" using Suc.prems(2) finite_subset by blast
    then have "length b0 \<le> fuel + card ?V" using Suc.prems(4,8) by simp
    moreover have "?V \<subseteq> {..<length b0}" "i \<in> insert ?kp ?V" using Suc.prems(2,3,7) by auto
    ultimately obtain b' tp' j V' where
      "cycle_loop fuel b1 tp1 i ?kp (tp0 ! ?kp) = Inr (b', tp', j)"
      "placed b0 tp0 V' b' tp'" "V' \<subseteq> {..<length b0}" "?V \<subseteq> V'" "j < length b0" "j \<notin> V'" "tp0 ! j = i"
      "i \<in> insert j V'" "(\<lambda>v. tp0 ! v) ` insert j V' = insert j V'"
      using Suc.IH [OF p1 _ k kV False im] by blast
    with st False show ?thesis by auto
  qed
qed

lemma permute_step_placed:
  assumes "placed b0 tp0 F b tp" "F \<subseteq> {..<length b0}" "(\<lambda>v. tp0 ! v) ` F = F" "i < length b0"
  shows "\<exists>b' tp' F'. permute_step (length b0) (b, tp) i = Inr (b', tp') \<and>
    placed b0 tp0 F' b' tp' \<and> F' \<subseteq> {..<length b0} \<and> insert i F \<subseteq> F' \<and> (\<lambda>v. tp0 ! v) ` F' = F'"
proof (cases "tp ! i = i")
  case True
  note p = placedD [OF assms(1,4)]
  have "placed b0 tp0 (insert i F) b tp"
    using True p assms(1) by (cases "i \<in> F") (auto simp: insert_absorb placed_def)
  moreover have "(\<lambda>v. tp0 ! v) ` insert i F = insert i F"
    using True p(3) assms(3) by (cases "i \<in> F") (auto simp: insert_absorb)
  moreover have "permute_step (length b0) (b, tp) i = Inr (b, tp)"
    using True p(5,6) assms(4) by (simp add: permute_step_def)
  ultimately show ?thesis using assms(2,4) by blast
next
  case False
  then have i: "i \<notin> F" "tp ! i = tp0 ! i" "tp0 ! i \<noteq> i" "b ! i = b0 ! i"
    and l: "length b = length b0" "length tp = length b0" using placedD [OF assms(1,4)] by metis+
  from cycle_loop_placed [OF assms(1,2,4) i(1,3), of "length b0"] i(1) assms(3)
  obtain b' tp' j V' where c: "cycle_loop (length b0) b tp i i (tp0 ! i) = Inr (b', tp', j)"
    "placed b0 tp0 V' b' tp'" "V' \<subseteq> {..<length b0}" "F \<subseteq> V'" "j < length b0" "j \<notin> V'" "tp0 ! j = i"
    "i \<in> insert j V'" "(\<lambda>v. tp0 ! v) ` insert j V' = insert j V'" by auto
  have "placed b0 tp0 (insert j V') (b'[j := b0 ! i]) (tp'[j := j])"
    using placed_step [OF c(2,5)] c(7) by simp
  moreover have "permute_step (length b0) (b, tp) i = Inr (b'[j := b0 ! i], tp'[j := j])"
    using c(1,2,5) i assms(4) l by (auto simp: permute_step_def placed_def)
  ultimately show ?thesis using c(3-9) by blast
qed

lemma permute_all:
  "\<exists>tp. foldR (permute_step (length b0)) (b0, tp0) [0..<length b0] =
     Inr (map (\<lambda>v. b0 ! v) tp0, tp)"
proof -
  let ?I = "\<lambda>i st. \<exists>b tp F. st = (b, tp) \<and> placed b0 tp0 F b tp \<and> F \<subseteq> {..<length b0} \<and>
    {..<i} \<subseteq> F \<and> (\<lambda>v. tp0 ! v) ` F = F"
  have "\<exists>st. foldR (permute_step (length b0)) (b0, tp0) [0..<length b0] = Inr st \<and> ?I (length b0) st"
  proof (rule foldR_upt_inv [where I = ?I])
    show "?I 0 (b0, tp0)" by (auto simp: placed_def)
    fix i st assume i: "i < length b0" and "?I i st"
    then obtain b tp F where st: "st = (b, tp)" "placed b0 tp0 F b tp" "F \<subseteq> {..<length b0}"
      "{..<i} \<subseteq> F" "(\<lambda>v. tp0 ! v) ` F = F" by blast
    from permute_step_placed [OF st(2,3,5) i] obtain b' tp' F' where
      p: "permute_step (length b0) (b, tp) i = Inr (b', tp')"
      "placed b0 tp0 F' b' tp'" "F' \<subseteq> {..<length b0}" "insert i F \<subseteq> F'" "(\<lambda>v. tp0 ! v) ` F' = F'" by blast
    have "{..<Suc i} \<subseteq> F'" using st(4) p(4) by (auto simp: lessThan_Suc)
    with p st(1) show "\<exists>st'. permute_step (length b0) st i = Inr st' \<and> ?I (Suc i) st'" by blast
  qed
  then obtain b tp F where "foldR (permute_step (length b0)) (b0, tp0) [0..<length b0] = Inr (b, tp)"
    "placed b0 tp0 F b tp" "{..<length b0} \<subseteq> F" by auto
  moreover from this(2,3) have "b = map (\<lambda>v. b0 ! v) tp0"
    by (intro nth_equalityI) (auto simp: placed_def)
  ultimately show ?thesis by blast
qed

end

interpretation ptr: permutation b "msort (\<lambda>i j. cmp (b ! i) (b ! j)) [0..<length b]" for b :: "'a list" and cmp
  by unfold_locales simp

section \<open>Both sorts compute the merge sort\<close>

lemma merge_map: "merge cmp (map f xs) (map f ys) = map f (merge (\<lambda>i j. cmp (f i) (f j)) xs ys)"
  by (induction "\<lambda>i j. cmp (f i) (f j)" xs ys rule: merge.induct) simp_all

lemma msort_map: "msort cmp (map f xs) = map f (msort (\<lambda>i j. cmp (f i) (f j)) xs)"
proof (induction "\<lambda>i j. cmp (f i) (f j)" xs rule: msort.induct)
  case (1 xs)
  then show ?case by (subst (1 2) msort.simps) (simp add: merge_map take_map drop_map)
qed

lemma msort_direct_eq: "msort_direct cmp b junk = Inr (msort cmp b)"
  using msort_with_tmp_spec [of 0 "length b" b "replicate (length b) junk" cmp]
  by (auto simp: msort_direct_def splice_def)

lemma msort_indirect_eq: "msort_indirect cmp b = Inr (msort cmp b)"
proof -
  let ?p = "msort (\<lambda>i j. cmp (b ! i) (b ! j)) [0..<length b]"
  obtain t where "msort_with_tmp (\<lambda>i j. cmp (b ! i) (b ! j)) [0..<length b] (replicate (length b) 0) 0 (length b) =
      Inr (?p, t)"
    using msort_with_tmp_spec [of 0 "length b" "[0..<length b]" "replicate (length b) 0"
      "\<lambda>i j. cmp (b ! i) (b ! j)"] by (auto simp: splice_def)
  moreover obtain tp where "foldR (permute_step (length b)) (b, ?p) [0..<length b] = Inr (map (\<lambda>v. b ! v) ?p, tp)"
    using ptr.permute_all [of b cmp] by blast
  moreover have "map (\<lambda>v. b ! v) ?p = msort cmp b"
    using msort_map [of cmp "\<lambda>v. b ! v" "[0..<length b]"] by (simp add: map_nth)
  ultimately show ?thesis by (simp add: msort_indirect_def)
qed

section \<open>The merge sort is a stable sort\<close>

context comparator
begin

lemma merge_sorted:
  "sorted_by cmp xs \<Longrightarrow> sorted_by cmp ys \<Longrightarrow> sorted_by cmp (merge cmp xs ys)"
proof (induction "length xs + length ys" arbitrary: xs ys rule: less_induct)
  case less
  show ?case
  proof (cases "xs = [] \<or> ys = []")
    case True
    with less.prems show ?thesis by auto
  next
    case False
    then obtain x xs' y ys' where e: "xs = x # xs'" "ys = y # ys'" by (meson neq_Nil_conv)
    have "cmp x y \<le> 0 \<Longrightarrow> z \<in> set ys' \<Longrightarrow> cmp x z \<le> 0" "cmp y x \<le> 0 \<Longrightarrow> z \<in> set xs' \<Longrightarrow> cmp y z \<le> 0" for z
      using less.prems e by (auto simp: sorted_by_def intro: cmp_trans)
    moreover have "\<not> cmp x y \<le> 0 \<Longrightarrow> cmp y x \<le> 0" using cmp_total [of x y] by blast
    ultimately show ?thesis
      using less.hyps [of xs' ys] less.hyps [of xs ys'] less.prems e by (auto simp: sorted_by_def)
  qed
qed

lemma merge_stable:
  "sorted_by cmp xs \<Longrightarrow> sorted_by cmp ys \<Longrightarrow>
   filter (\<lambda>y. cmp w y = 0) (merge cmp xs ys) = filter (\<lambda>y. cmp w y = 0) xs @ filter (\<lambda>y. cmp w y = 0) ys"
proof (induction "length xs + length ys" arbitrary: xs ys rule: less_induct)
  case less
  show ?case
  proof (cases "xs = [] \<or> ys = []")
    case True
    then show ?thesis by auto
  next
    case False
    then obtain x xs' y ys' where e: "xs = x # xs'" "ys = y # ys'" by (meson neq_Nil_conv)
    have late: "cmp w z \<noteq> 0" if "\<not> cmp x y \<le> 0" "cmp w y = 0" "z \<in> set xs" for z
    proof -
      have "cmp x z \<le> 0" using that(3) less.prems(1) e by (auto simp: sorted_by_def)
      then have "cmp y z < 0" using that(1) cmp_less_trans [of y x z] cmp_flip [of y x] by simp
      then show ?thesis using that(2) cmp_eq_trans [of y w z] cmp_eq_flip [of w y] by auto
    qed
    then have "\<not> cmp x y \<le> 0 \<Longrightarrow> cmp w y = 0 \<Longrightarrow> filter (\<lambda>y. cmp w y = 0) xs = []"
      by (simp add: filter_empty_conv)
    then show ?thesis
      using less.hyps [of xs' ys] less.hyps [of xs ys'] less.prems e by (auto simp: sorted_by_def)
  qed
qed

lemma msort_sorted: "sorted_by cmp (msort cmp xs)"
proof (induction "length xs" arbitrary: xs rule: less_induct)
  case less
  have "sorted_by cmp xs" if "length xs \<le> 1"
    using that by (cases xs) (auto simp: sorted_by_def)
  moreover have "sorted_by cmp (merge cmp (msort cmp (take (length xs div 2) xs)) (msort cmp (drop (length xs div 2) xs)))"
    if "\<not> length xs \<le> 1"
    using that by (intro merge_sorted less.hyps) auto
  ultimately show ?case by (subst msort.simps) simp
qed

lemma msort_stable: "filter (\<lambda>y. cmp w y = 0) (msort cmp xs) = filter (\<lambda>y. cmp w y = 0) xs"
proof (induction "length xs" arbitrary: xs rule: less_induct)
  case less
  let ?f = "filter (\<lambda>y. cmp w y = 0)" and ?k = "length xs div 2"
  show ?case
  proof (cases "length xs \<le> 1")
    case True
    then show ?thesis by (subst msort.simps) simp
  next
    case False
    then have "?f (msort cmp xs) = ?f (msort cmp (take ?k xs)) @ ?f (msort cmp (drop ?k xs))"
      by (subst msort.simps) (simp add: merge_stable msort_sorted)
    also have "\<dots> = ?f (take ?k xs) @ ?f (drop ?k xs)"
      using False less.hyps [of "take ?k xs"] less.hyps [of "drop ?k xs"] by simp
    also have "\<dots> = ?f xs" by (simp flip: filter_append)
    finally show ?thesis .
  qed
qed

end

lemmas msort_props = comparator.msort_sorted comparator.msort_stable

interpretation ms: stable_sorter "\<lambda>cmp b. msort_direct cmp b junk" "\<lambda>_. True" for junk :: 'a
  by unfold_locales (auto simp: msort_direct_eq msort_props)

interpretation mi: stable_sorter "msort_indirect :: ('a \<Rightarrow> 'a \<Rightarrow> int) \<Rightarrow> _" "\<lambda>_. True"
  by unfold_locales (auto simp: msort_indirect_eq msort_props)

end
