(* ===== verification/Quicksort.thy ===== *)
theory Quicksort
  imports Comparator
begin

text \<open>
  \<open>_quicksort\<close> of the bundled C library (\<^verbatim>\<open>glibc-2.27/stdlib/qsort.c\<close>), the sort in
  place that \<open>qsort\<close> falls back to when it gets no temporary array: median of
  three, an explicit stack of 64 partitions, and one insertion sort at the end
  with the smallest element as sentinel.
  Pointers into the array are integer indices; an access outside the array, or a
  push on a full stack, is a fault.  The lemmas show that for a consistent
  comparison function and fewer than \<open>2^64\<close> elements no fault occurs, the loops end
  and the array becomes a sorted permutation of itself.
\<close>

section \<open>The code\<close>

abbreviation (input) MAX_THRESH :: int where "MAX_THRESH \<equiv> 4"

abbreviation (input) STACK_SIZE :: nat where "STACK_SIZE \<equiv> 64"

definition cmpR :: "('a \<Rightarrow> 'a \<Rightarrow> int) \<Rightarrow> 'a list \<Rightarrow> int \<Rightarrow> int \<Rightarrow> int cres" where
  "cmpR cmp a i j = bindR (getR a i) (\<lambda>x. bindR (getR a j) (\<lambda>y. Inr (cmp x y)))"

definition SWAP :: "'a list \<Rightarrow> int \<Rightarrow> int \<Rightarrow> 'a list cres" where
  "SWAP a i j = bindR (getR a i) (\<lambda>x. bindR (getR a j) (\<lambda>y. bindR (setR a i y) (\<lambda>a. setR a j x)))"

definition swap_if_less :: "('a \<Rightarrow> 'a \<Rightarrow> int) \<Rightarrow> 'a list \<Rightarrow> int \<Rightarrow> int \<Rightarrow> 'a list cres" where
  "swap_if_less cmp a i j = bindR (cmpR cmp a i j) (\<lambda>c. if c < 0 then SWAP a i j else Inr a)"

definition median3 :: "('a \<Rightarrow> 'a \<Rightarrow> int) \<Rightarrow> 'a list \<Rightarrow> int \<Rightarrow> int \<Rightarrow> int \<Rightarrow> 'a list cres" where
  "median3 cmp a lo mid hi =
     bindR (swap_if_less cmp a mid lo) (\<lambda>a.
     bindR (cmpR cmp a hi mid) (\<lambda>c.
     if c < 0 then bindR (SWAP a mid hi) (\<lambda>a. swap_if_less cmp a mid lo) else Inr a))"

function scan_left :: "('a \<Rightarrow> 'a \<Rightarrow> int) \<Rightarrow> 'a list \<Rightarrow> int \<Rightarrow> int \<Rightarrow> int cres" where
  "scan_left cmp a mid left_ptr =
     bindR (cmpR cmp a left_ptr mid) (\<lambda>c. if c < 0 then scan_left cmp a mid (left_ptr + 1) else Inr left_ptr)"
  by pat_completeness auto
termination
  by (relation "measure (\<lambda>(cmp, a, mid, l). nat (int (length a) - l))")
    (auto simp: cmpR_def bindR_Inr_iff getR_def split: if_splits)

function scan_right :: "('a \<Rightarrow> 'a \<Rightarrow> int) \<Rightarrow> 'a list \<Rightarrow> int \<Rightarrow> int \<Rightarrow> int cres" where
  "scan_right cmp a mid right_ptr =
     bindR (cmpR cmp a mid right_ptr) (\<lambda>c. if c < 0 then scan_right cmp a mid (right_ptr - 1) else Inr right_ptr)"
  by pat_completeness auto
termination
  by (relation "measure (\<lambda>(cmp, a, mid, r). nat (r + 1))")
    (auto simp: cmpR_def bindR_Inr_iff getR_def split: if_splits)

declare scan_left.simps [simp del] scan_right.simps [simp del]

lemma scan_left_ge: "scan_left cmp a mid l = Inr l' \<Longrightarrow> l \<le> l'"
proof (induction cmp a mid l rule: scan_left.induct)
  case (1 cmp a mid l)
  then show ?case
    by (subst (asm) (2) scan_left.simps) (fastforce simp: bindR_Inr_iff split: if_splits)
qed

lemma scan_right_le: "scan_right cmp a mid r = Inr r' \<Longrightarrow> r' \<le> r"
proof (induction cmp a mid r rule: scan_right.induct)
  case (1 cmp a mid r)
  then show ?case
    by (subst (asm) (2) scan_right.simps) (fastforce simp: bindR_Inr_iff split: if_splits)
qed

text \<open>The \<open>do ... while (left_ptr <= right_ptr)\<close> loop.\<close>

function collapse :: "('a \<Rightarrow> 'a \<Rightarrow> int) \<Rightarrow> 'a list \<Rightarrow> int \<Rightarrow> int \<Rightarrow> int \<Rightarrow> ('a list \<times> int \<times> int) cres" where
  "collapse cmp a mid left_ptr right_ptr =
     bindR (scan_left cmp a mid left_ptr) (\<lambda>l.
     bindR (scan_right cmp a mid right_ptr) (\<lambda>r.
     if l < r then
       bindR (SWAP a l r) (\<lambda>a.
       let mid = (if mid = l then r else if mid = r then l else mid)
       in if l + 1 \<le> r - 1 then collapse cmp a mid (l + 1) (r - 1) else Inr (a, l + 1, r - 1))
     else if l = r then Inr (a, l + 1, r - 1)
     else Inr (a, l, r)))"
  by pat_completeness auto
termination
  by (relation "measure (\<lambda>(cmp, a, mid, l, r). nat (r - l + 1))") (auto dest!: scan_left_ge scan_right_le)

declare collapse.simps [simp del]

text \<open>
  The difference of two pointers as a \<open>size_t\<close> against \<open>max_thresh\<close>: a negative one
  is a huge number.
\<close>

definition below_thresh :: "int \<Rightarrow> bool" where
  "below_thresh d \<longleftrightarrow> 0 \<le> d \<and> d \<le> MAX_THRESH"

definition PUSH :: "'s \<Rightarrow> 's list \<Rightarrow> 's list cres" where
  "PUSH s stack = (if length stack < STACK_SIZE then Inr (s # stack) else Inl OutOfBounds)"

text \<open>
  The \<open>while (STACK_NOT_EMPTY)\<close> loop.  \<open>None\<close> is the pair of null pointers pushed
  first; the fuel bounds the number of iterations.
\<close>

fun quicksort_loop ::
  "nat \<Rightarrow> ('a \<Rightarrow> 'a \<Rightarrow> int) \<Rightarrow> 'a list \<Rightarrow> (int \<times> int) option \<Rightarrow> (int \<times> int) option list \<Rightarrow> 'a list cres" where
  "quicksort_loop 0 cmp a cur stack = Inl NoReturn"
| "quicksort_loop (Suc fuel) cmp a cur stack =
     (case stack of [] \<Rightarrow> Inr a
      | tp # rest \<Rightarrow>
        (case cur of None \<Rightarrow> Inl NullDeref
         | Some (lo, hi) \<Rightarrow>
           let mid = lo + (hi - lo) div 2
           in bindR (median3 cmp a lo mid hi) (\<lambda>a.
              bindR (collapse cmp a mid (lo + 1) (hi - 1)) (\<lambda>(a, left_ptr, right_ptr).
              if below_thresh (right_ptr - lo) then
                if below_thresh (hi - left_ptr) then quicksort_loop fuel cmp a tp rest
                else quicksort_loop fuel cmp a (Some (left_ptr, hi)) stack
              else if below_thresh (hi - left_ptr) then quicksort_loop fuel cmp a (Some (lo, right_ptr)) stack
              else if right_ptr - lo > hi - left_ptr then
                bindR (PUSH (Some (lo, right_ptr)) stack) (quicksort_loop fuel cmp a (Some (left_ptr, hi)))
              else
                bindR (PUSH (Some (left_ptr, hi)) stack) (quicksort_loop fuel cmp a (Some (lo, right_ptr)))))))"

text \<open>
  The insertion sort.  \<open>shift_up\<close> moves the elements from \<open>tmp_ptr\<close> up by one and
  puts \<open>c\<close> at \<open>tmp_ptr\<close>; the source does it byte by byte, with the same result for
  each byte of an element.
\<close>

definition find_smallest :: "('a \<Rightarrow> 'a \<Rightarrow> int) \<Rightarrow> 'a list \<Rightarrow> nat \<Rightarrow> nat cres" where
  "find_smallest cmp a thresh =
     foldR (\<lambda>tmp i. bindR (cmpR cmp a (int (Suc i)) (int tmp)) (\<lambda>c. Inr (if c < 0 then Suc i else tmp))) 0 [0..<thresh]"

function insert_scan :: "('a \<Rightarrow> 'a \<Rightarrow> int) \<Rightarrow> 'a list \<Rightarrow> int \<Rightarrow> int \<Rightarrow> int cres" where
  "insert_scan cmp a run_ptr tmp_ptr =
     bindR (cmpR cmp a run_ptr tmp_ptr) (\<lambda>c. if c < 0 then insert_scan cmp a run_ptr (tmp_ptr - 1) else Inr tmp_ptr)"
  by pat_completeness auto
termination
  by (relation "measure (\<lambda>(cmp, a, r, t). nat (t + 1))")
    (auto simp: cmpR_def bindR_Inr_iff getR_def split: if_splits)

declare insert_scan.simps [simp del]

function shift_up :: "'a list \<Rightarrow> int \<Rightarrow> int \<Rightarrow> 'a \<Rightarrow> 'a list cres" where
  "shift_up a tmp_ptr hi c =
     (if hi - 1 \<ge> tmp_ptr
      then bindR (getR a (hi - 1)) (\<lambda>x. bindR (setR a hi x) (\<lambda>a. shift_up a tmp_ptr (hi - 1) c))
      else setR a hi c)"
  by pat_completeness auto
termination
  by (relation "measure (\<lambda>(a, t, hi, c). nat (hi - t))") auto

declare shift_up.simps [simp del]

definition insert_run :: "('a \<Rightarrow> 'a \<Rightarrow> int) \<Rightarrow> 'a list \<Rightarrow> nat \<Rightarrow> 'a list cres" where
  "insert_run cmp a run_ptr =
     bindR (insert_scan cmp a (int run_ptr) (int run_ptr - 1)) (\<lambda>t.
     let tmp_ptr = t + 1
     in if tmp_ptr \<noteq> int run_ptr
        then bindR (getR a (int run_ptr)) (shift_up a tmp_ptr (int run_ptr))
        else Inr a)"

definition insertion_phase :: "('a \<Rightarrow> 'a \<Rightarrow> int) \<Rightarrow> 'a list \<Rightarrow> 'a list cres" where
  "insertion_phase cmp a =
     (let end_ptr = length a - 1; thresh = min end_ptr 4
      in bindR (find_smallest cmp a thresh) (\<lambda>tmp_ptr.
         bindR (if tmp_ptr \<noteq> 0 then SWAP a (int tmp_ptr) 0 else Inr a) (\<lambda>a.
         foldR (\<lambda>a i. insert_run cmp a (i + 2)) a [0..<length a - 2])))"

definition quicksort :: "('a \<Rightarrow> 'a \<Rightarrow> int) \<Rightarrow> 'a list \<Rightarrow> 'a list cres" where
  "quicksort cmp a =
     (let total_elems = length a
      in if total_elems = 0 then Inr a
         else bindR
           (if int total_elems > MAX_THRESH
            then bindR (PUSH None []) (quicksort_loop (Suc total_elems) cmp a (Some (0, int total_elems - 1)))
            else Inr a)
           (insertion_phase cmp))"

section \<open>Access and exchange\<close>

abbreviation el :: "'a list \<Rightarrow> int \<Rightarrow> 'a" where
  "el a i \<equiv> a ! nat i"

abbreviation inside :: "'a list \<Rightarrow> int \<Rightarrow> bool" where
  "inside a i \<equiv> 0 \<le> i \<and> i < int (length a)"

lemma getR_el [simp]: "inside a i \<Longrightarrow> getR a i = Inr (el a i)"
  by (auto simp: getR_def)

lemma setR_el [simp]: "inside a i \<Longrightarrow> setR a i x = Inr (a[nat i := x])"
  by (auto simp: setR_def)

lemma cmpR_el [simp]: "inside a i \<Longrightarrow> inside a j \<Longrightarrow> cmpR cmp a i j = Inr (cmp (el a i) (el a j))"
  by (simp add: cmpR_def)

lemma cmpR_nat: "i < length a \<Longrightarrow> j < length a \<Longrightarrow> cmpR cmp a (int i) (int j) = Inr (cmp (a ! i) (a ! j))"
  by simp

definition swp :: "'a list \<Rightarrow> int \<Rightarrow> int \<Rightarrow> 'a list" where
  "swp a i j = a[nat i := el a j, nat j := el a i]"

lemma SWAP_el [simp]: "inside a i \<Longrightarrow> inside a j \<Longrightarrow> SWAP a i j = Inr (swp a i j)"
  by (simp add: SWAP_def swp_def)

lemma length_swp [simp]: "length (swp a i j) = length a"
  by (simp add: swp_def)

lemma el_swp:
  "inside a i \<Longrightarrow> inside a j \<Longrightarrow> 0 \<le> k \<Longrightarrow>
   el (swp a i j) k = (if k = i then el a j else if k = j then el a i else el a k)"
  by (auto simp: swp_def nth_list_update nat_eq_iff)

lemma mset_swp: "inside a i \<Longrightarrow> inside a j \<Longrightarrow> mset (swp a i j) = mset a"
  unfolding swp_def by (rule mset_swap) auto

text \<open>What a step on the partition from \<open>lo\<close> to \<open>hi\<close> keeps.\<close>

definition same :: "int \<Rightarrow> int \<Rightarrow> 'a list \<Rightarrow> 'a list \<Rightarrow> bool" where
  "same lo hi a b \<longleftrightarrow> length b = length a \<and> mset b = mset a \<and>
     (\<forall>k. 0 \<le> k \<and> (k < lo \<or> hi < k) \<longrightarrow> el b k = el a k) \<and>
     (\<forall>k. lo \<le> k \<and> k \<le> hi \<longrightarrow> (\<exists>k'. lo \<le> k' \<and> k' \<le> hi \<and> el b k' = el a k))"

lemma same_refl [simp]: "same lo hi a a"
  by (auto simp: same_def)

lemma same_trans: "same lo hi a b \<Longrightarrow> same lo hi b c \<Longrightarrow> same lo hi a c"
  unfolding same_def by (metis (no_types, lifting))

lemma same_swp:
  assumes "0 \<le> lo" "hi < int (length a)" "lo \<le> i" "i \<le> hi" "lo \<le> j" "j \<le> hi"
  shows "same lo hi a (swp a i j)"
proof -
  have ij: "inside a i" "inside a j" using assms by auto
  have "\<exists>k'. lo \<le> k' \<and> k' \<le> hi \<and> el (swp a i j) k' = el a k" if "lo \<le> k" "k \<le> hi" for k
  proof -
    have "el (swp a i j) (if k = i then j else if k = j then i else k) = el a k"
      using ij that assms(1) by (auto simp: el_swp)
    moreover have "lo \<le> (if k = i then j else if k = j then i else k)"
      "(if k = i then j else if k = j then i else k) \<le> hi" using that assms by auto
    ultimately show ?thesis by blast
  qed
  with ij assms show ?thesis by (auto simp: same_def mset_swp el_swp)
qed

lemma sameD:
  assumes "same lo hi a b"
  shows "length b = length a" "mset b = mset a"
    "0 \<le> k \<Longrightarrow> k < lo \<or> hi < k \<Longrightarrow> el b k = el a k"
    "lo \<le> k \<Longrightarrow> k \<le> hi \<Longrightarrow> \<exists>k'. lo \<le> k' \<and> k' \<le> hi \<and> el b k' = el a k"
  using assms by (auto simp: same_def)

section \<open>The scans and the median\<close>

lemma scan_left_stops:
  assumes "0 \<le> l" "l \<le> s" "s < int (length a)" "inside a mid" "\<not> cmp (el a s) (el a mid) < 0"
  shows "\<exists>l'. scan_left cmp a mid l = Inr l' \<and> l \<le> l' \<and> l' \<le> s \<and> \<not> cmp (el a l') (el a mid) < 0 \<and>
    (\<forall>k. l \<le> k \<and> k < l' \<longrightarrow> cmp (el a k) (el a mid) < 0)"
  using assms
proof (induction "nat (s - l)" arbitrary: l rule: less_induct)
  case less
  show ?case
  proof (cases "cmp (el a l) (el a mid) < 0")
    case True
    with less.prems have "l < s" by (cases "l = s") auto
    then obtain l' where "scan_left cmp a mid (l + 1) = Inr l'" "l + 1 \<le> l'" "l' \<le> s"
      "\<not> cmp (el a l') (el a mid) < 0" "\<forall>k. l + 1 \<le> k \<and> k < l' \<longrightarrow> cmp (el a k) (el a mid) < 0"
      using less.hyps [of "l + 1"] less.prems by auto
    moreover from this(5) True have "\<forall>k. l \<le> k \<and> k < l' \<longrightarrow> cmp (el a k) (el a mid) < 0"
      by (metis add1_zle_eq order_le_less)
    moreover have "scan_left cmp a mid l = scan_left cmp a mid (l + 1)"
      using True less.prems by (subst scan_left.simps) simp
    ultimately show ?thesis by (intro exI [of _ l']) simp
  next
    case False
    with less.prems show ?thesis by (subst scan_left.simps) auto
  qed
qed

lemma scan_right_stops:
  assumes "0 \<le> s" "s \<le> r" "r < int (length a)" "inside a mid" "\<not> cmp (el a mid) (el a s) < 0"
  shows "\<exists>r'. scan_right cmp a mid r = Inr r' \<and> s \<le> r' \<and> r' \<le> r \<and> \<not> cmp (el a mid) (el a r') < 0 \<and>
    (\<forall>k. r' < k \<and> k \<le> r \<longrightarrow> cmp (el a mid) (el a k) < 0)"
  using assms
proof (induction "nat (r - s)" arbitrary: r rule: less_induct)
  case less
  show ?case
  proof (cases "cmp (el a mid) (el a r) < 0")
    case True
    with less.prems have "s < r" by (cases "r = s") auto
    then obtain r' where "scan_right cmp a mid (r - 1) = Inr r'" "s \<le> r'" "r' \<le> r - 1"
      "\<not> cmp (el a mid) (el a r') < 0" "\<forall>k. r' < k \<and> k \<le> r - 1 \<longrightarrow> cmp (el a mid) (el a k) < 0"
      using less.hyps [of "r - 1"] less.prems by auto
    moreover from this(5) True have "\<forall>k. r' < k \<and> k \<le> r \<longrightarrow> cmp (el a mid) (el a k) < 0"
      by (metis zle_diff1_eq order_le_less)
    moreover have "scan_right cmp a mid r = scan_right cmp a mid (r - 1)"
      using True less.prems by (subst scan_right.simps) simp
    ultimately show ?thesis by (intro exI [of _ r']) simp
  next
    case False
    with less.prems show ?thesis by (subst scan_right.simps) auto
  qed
qed

context comparator
begin

lemma cmp_not_less: "\<not> cmp x y < 0 \<longleftrightarrow> cmp y x \<le> 0"
  using cmp_flip [of x y] by linarith

lemma median3_spec:
  assumes "0 \<le> lo" "lo < mid" "mid < hi" "hi < int (length a)"
  shows "\<exists>b. median3 cmp a lo mid hi = Inr b \<and> same lo hi a b \<and>
    cmp (el b lo) (el b mid) \<le> 0 \<and> cmp (el b mid) (el b hi) \<le> 0"
proof -
  have low: "\<exists>b. swap_if_less cmp c mid lo = Inr b \<and> same lo hi c b \<and> cmp (el b lo) (el b mid) \<le> 0 \<and>
      el b hi = el c hi \<and> (el b mid = el c mid \<or> el b mid = el c lo)" if "length c = length a" for c
  proof (cases "cmp (el c mid) (el c lo) < 0")
    case True
    with that assms have "swap_if_less cmp c mid lo = Inr (swp c mid lo)" "same lo hi c (swp c mid lo)"
      by (auto simp: swap_if_less_def intro: same_swp)
    with True that assms show ?thesis by (auto simp: el_swp)
  next
    case False
    with that assms have "swap_if_less cmp c mid lo = Inr c" by (simp add: swap_if_less_def)
    with False show ?thesis by (auto simp: cmp_not_less)
  qed
  then obtain c where c: "swap_if_less cmp a mid lo = Inr c" "same lo hi a c" "cmp (el c lo) (el c mid) \<le> 0" by blast
  note lc = sameD(1) [OF c(2)]
  show ?thesis
  proof (cases "cmp (el c hi) (el c mid) < 0")
    case True
    define d where "d = swp c mid hi"
    have d: "SWAP c mid hi = Inr d" "same lo hi c d" "length d = length a"
      using assms lc by (auto simp: d_def intro: same_swp)
    have e: "el d mid = el c hi" "el d hi = el c mid" "el d lo = el c lo" using assms lc by (auto simp: d_def el_swp)
    obtain b where b: "swap_if_less cmp d mid lo = Inr b" "same lo hi d b" "cmp (el b lo) (el b mid) \<le> 0"
      "el b hi = el d hi" "el b mid = el d mid \<or> el b mid = el d lo" using low [OF d(3)] by blast
    have "cmp (el b mid) (el b hi) \<le> 0" using b(4,5) e c(3) True by auto
    moreover have "median3 cmp a lo mid hi = Inr b"
      using True c(1) d(1) b(1) assms lc by (simp add: median3_def)
    moreover have "same lo hi a b" using c(2) d(2) b(2) same_trans by blast
    ultimately show ?thesis using b(3) by blast
  next
    case False
    then have "median3 cmp a lo mid hi = Inr c" using c(1) assms lc by (simp add: median3_def)
    with False c(2,3) show ?thesis by (auto simp: cmp_not_less)
  qed
qed

definition low_part :: "'a list \<Rightarrow> int \<Rightarrow> int \<Rightarrow> 'a \<Rightarrow> bool" where
  "low_part a lo l p \<longleftrightarrow> (\<forall>k. lo \<le> k \<and> k < l \<longrightarrow> cmp (el a k) p \<le> 0)"

definition high_part :: "'a list \<Rightarrow> int \<Rightarrow> int \<Rightarrow> 'a \<Rightarrow> bool" where
  "high_part a r hi p \<longleftrightarrow> (\<forall>k. r < k \<and> k \<le> hi \<longrightarrow> cmp p (el a k) \<le> 0)"

definition split_at :: "'a list \<Rightarrow> int \<Rightarrow> int \<Rightarrow> 'a list \<times> int \<times> int \<Rightarrow> bool" where
  "split_at a lo hi res \<longleftrightarrow> (case res of (b, l, r) \<Rightarrow>
     same lo hi a b \<and> lo \<le> r \<and> r < l \<and> l \<le> hi \<and> (\<exists>p. low_part b lo l p \<and> high_part b r hi p))"

lemma scans_spec:
  assumes "0 \<le> lo" "hi < int (length a)" "lo < l" "l \<le> r" "r < hi" "lo \<le> mid" "mid \<le> hi"
    "low_part a lo l (el a mid)" "high_part a r hi (el a mid)"
  shows "\<exists>l' r'. scan_left cmp a mid l = Inr l' \<and> scan_right cmp a mid r = Inr r' \<and> l \<le> l' \<and> l' \<le> r + 1 \<and>
    l' - 1 \<le> r' \<and> r' \<le> r \<and> low_part a lo l' (el a mid) \<and> high_part a r' hi (el a mid) \<and>
    cmp (el a mid) (el a l') \<le> 0 \<and> cmp (el a r') (el a mid) \<le> 0"
proof -
  have "cmp (el a mid) (el a (r + 1)) \<le> 0" using assms(5,9) by (simp add: high_part_def)
  then obtain l' where l': "scan_left cmp a mid l = Inr l'" "l \<le> l'" "l' \<le> r + 1"
    "\<not> cmp (el a l') (el a mid) < 0" "\<forall>k. l \<le> k \<and> k < l' \<longrightarrow> cmp (el a k) (el a mid) < 0"
    using scan_left_stops [of l "r + 1" a mid cmp] assms by (auto simp: cmp_not_less)
  have lp: "low_part a lo l' (el a mid)"
    unfolding low_part_def
  proof (intro allI impI)
    fix k assume "lo \<le> k \<and> k < l'"
    then show "cmp (el a k) (el a mid) \<le> 0"
      using assms(8) l'(5) unfolding low_part_def by (meson less_imp_le not_le)
  qed
  then have "cmp (el a (l' - 1)) (el a mid) \<le> 0" using l'(2) assms(3) by (simp add: low_part_def)
  then obtain r' where r': "scan_right cmp a mid r = Inr r'" "l' - 1 \<le> r'" "r' \<le> r"
    "\<not> cmp (el a mid) (el a r') < 0" "\<forall>k. r' < k \<and> k \<le> r \<longrightarrow> cmp (el a mid) (el a k) < 0"
    using scan_right_stops [of "l' - 1" r a mid cmp] assms l' by (auto simp: cmp_not_less)
  have "high_part a r' hi (el a mid)"
    unfolding high_part_def
  proof (intro allI impI)
    fix k assume "r' < k \<and> k \<le> hi"
    then show "cmp (el a mid) (el a k) \<le> 0"
      using assms(9) r'(5) unfolding high_part_def by (meson less_imp_le not_le)
  qed
  with l' r' lp show ?thesis by (auto simp: cmp_not_less)
qed

lemma collapse_spec:
  assumes "0 \<le> lo" "hi < int (length a)" "lo < l" "l \<le> r" "r < hi" "lo \<le> mid" "mid \<le> hi"
    "low_part a lo l (el a mid)" "high_part a r hi (el a mid)"
  shows "\<exists>res. collapse cmp a mid l r = Inr res \<and> split_at a lo hi res"
  using assms
proof (induction "nat (r - l)" arbitrary: a mid l r rule: less_induct)
  case less
  let ?p = "el a mid"
  from scans_spec [OF less.prems] obtain l' r' where
    s: "scan_left cmp a mid l = Inr l'" "scan_right cmp a mid r = Inr r'" and
    b: "l \<le> l'" "l' \<le> r + 1" "l' - 1 \<le> r'" "r' \<le> r" and
    lp: "low_part a lo l' ?p" and hp: "high_part a r' hi ?p" and
    e: "cmp ?p (el a l') \<le> 0" "cmp (el a r') ?p \<le> 0" by blast
  consider (lt) "l' < r'" | (eq) "l' = r'" | (gt) "r' < l'" by linarith
  then show ?case
  proof cases
    case gt
    then have "r' = l' - 1" using b by linarith
    with gt b less.prems lp hp show ?thesis
      by (subst collapse.simps) (auto simp: s split_at_def)
  next
    case eq
    have "low_part a lo (l' + 1) ?p" using lp e(2) eq
      unfolding low_part_def by (metis add1_zle_eq linorder_not_le order_le_less)
    moreover have "high_part a (r' - 1) hi ?p" using hp e(1) eq
      unfolding high_part_def by (metis add1_zle_eq diff_add_cancel order_le_less)
    ultimately show ?thesis using eq b less.prems
      by (subst collapse.simps) (auto simp: s split_at_def)
  next
    case lt
    define c mid' where "c = swp a l' r'" and "mid' = (if mid = l' then r' else if mid = r' then l' else mid)"
    have i: "inside a l'" "inside a r'" using lt b less.prems by auto
    have sm: "same lo hi a c" and lc: "length c = length a"
      using lt b less.prems by (auto simp: c_def intro!: same_swp)
    have m: "lo \<le> mid'" "mid' \<le> hi" and pm: "el c mid' = ?p"
      using lt b less.prems i by (auto simp: mid'_def c_def el_swp)
    have lp': "low_part c lo (l' + 1) ?p"
      using lp e(2) i lt less.prems(1) unfolding low_part_def c_def by (auto simp: el_swp)
    have hp': "high_part c (r' - 1) hi ?p"
      using hp e(1) i lt less.prems(1) unfolding high_part_def c_def by (auto simp: el_swp)
    have st: "collapse cmp a mid l r =
        (if l' + 1 \<le> r' - 1 then collapse cmp c mid' (l' + 1) (r' - 1) else Inr (c, l' + 1, r' - 1))"
      using lt i by (subst collapse.simps) (simp add: s c_def mid'_def Let_def)
    show ?thesis
    proof (cases "l' + 1 \<le> r' - 1")
      case True
      with less.hyps [of "r' - 1" "l' + 1" c mid'] less.prems b m lp' hp' lc lt pm
      obtain res where "collapse cmp c mid' (l' + 1) (r' - 1) = Inr res" "split_at c lo hi res" by auto
      with True st sm show ?thesis by (auto simp: split_at_def intro: same_trans)
    next
      case False
      then show ?thesis using st sm lp' hp' lt b less.prems by (auto simp: split_at_def)
    qed
  qed
qed

text \<open>One iteration: the partition is split, and every element below is at most every element above.\<close>

lemma partition_spec:
  assumes "0 \<le> lo" "lo + 2 \<le> hi" "hi < int (length a)"
  shows "\<exists>b l r. bindR (median3 cmp a lo (lo + (hi - lo) div 2) hi)
      (\<lambda>a. collapse cmp a (lo + (hi - lo) div 2) (lo + 1) (hi - 1)) = Inr (b, l, r) \<and>
    same lo hi a b \<and> lo \<le> r \<and> r < l \<and> l \<le> hi \<and>
    (\<forall>i k. lo \<le> i \<and> i \<le> r \<and> r < k \<and> k \<le> hi \<longrightarrow> cmp (el b i) (el b k) \<le> 0)"
proof -
  define mid where "mid = lo + (hi - lo) div 2"
  have mid: "lo < mid" "mid < hi" using assms(2) by (auto simp: mid_def)
  from median3_spec [OF assms(1) mid assms(3)] obtain c where
    c: "median3 cmp a lo mid hi = Inr c" "same lo hi a c" "cmp (el c lo) (el c mid) \<le> 0" "cmp (el c mid) (el c hi) \<le> 0"
    by blast
  have "lo \<le> k \<and> k < lo + 1 \<longleftrightarrow> k = lo" "hi - 1 < k \<and> k \<le> hi \<longleftrightarrow> k = hi" for k by linarith+
  with c(3,4) have "low_part c lo (lo + 1) (el c mid)" "high_part c (hi - 1) hi (el c mid)"
    by (simp_all add: low_part_def high_part_def)
  then obtain res where res: "collapse cmp c mid (lo + 1) (hi - 1) = Inr res" "split_at c lo hi res"
    using collapse_spec [of lo hi c "lo + 1" "hi - 1" mid] assms mid sameD(1) [OF c(2)] by auto
  obtain b l r where r: "res = (b, l, r)" by (cases res) auto
  with res(2) obtain p where p: "same lo hi c b" "lo \<le> r" "r < l" "l \<le> hi" "low_part b lo l p" "high_part b r hi p"
    by (auto simp: split_at_def)
  have "cmp (el b i) (el b k) \<le> 0" if "lo \<le> i" "i \<le> r" "r < k" "k \<le> hi" for i k
    using that p cmp_trans [of "el b i" p "el b k"] by (auto simp: low_part_def high_part_def)
  with c(1,2) res(1) p r same_trans [OF c(2) p(1)] show ?thesis unfolding mid_def [symmetric] by auto
qed

definition is_min :: "'a list \<Rightarrow> int \<Rightarrow> bool" where
  "is_min a k \<longleftrightarrow> (\<forall>x \<in> set a. cmp (el a k) x \<le> 0)"

text \<open>
  What the loop keeps of the pending partitions: they are disjoint, have more than
  four elements, and a smallest element is in the lowest one, or among the first
  five elements and out of the reach of all of them.
\<close>

definition pending_ok :: "'a list \<Rightarrow> (int \<times> int) list \<Rightarrow> bool" where
  "pending_ok a ps \<longleftrightarrow>
     (\<forall>(lo, hi) \<in> set ps. 0 \<le> lo \<and> lo + 4 \<le> hi \<and> hi < int (length a)) \<and>
     sorted_wrt (\<lambda>s t. snd s < fst t \<or> snd t < fst s) ps \<and>
     (\<exists>k h. 0 \<le> k \<and> k \<le> h \<and> h < int (length a) \<and> is_min a k \<and>
       ((0, h) \<in> set ps \<or> (h \<le> 4 \<and> (\<forall>s \<in> set ps. h < fst s))))"

lemma is_min_same: "same lo hi a b \<Longrightarrow> el b k' = el a k \<Longrightarrow> is_min a k \<Longrightarrow> is_min b k'"
  using mset_eq_setD [of a b] by (auto simp: is_min_def same_def)

lemma pending_ok_split:
  assumes p: "pending_ok a ((lo, hi) # ps)" and s: "same lo hi a b" "lo \<le> r" "r < l" "l \<le> hi"
    and o: "\<forall>i k. lo \<le> i \<and> i \<le> r \<and> r < k \<and> k \<le> hi \<longrightarrow> cmp (el b i) (el b k) \<le> 0"
    and new0: "new \<in> {[], [(lo, r)], [(l, hi)], [(lo, r), (l, hi)], [(l, hi), (lo, r)]}"
    and big: "\<forall>(x, y) \<in> set new. x + 4 \<le> y" and small: "(lo, r) \<in> set new \<or> r - lo \<le> 4"
  shows "pending_ok b (new @ ps)"
proof -
  have new: "set new \<subseteq> {(lo, r), (l, hi)}" using new0 by auto
  have bd: "0 \<le> lo" "hi < int (length b)" and lb: "length b = length a"
    using p sameD(1) [OF s(1)] by (auto simp: pending_ok_def)
  have dj: "\<forall>(x, y) \<in> set ps. hi < x \<or> y < lo" using p by (auto simp: pending_ok_def)
  have A: "\<forall>(x, y) \<in> set (new @ ps). 0 \<le> x \<and> x + 4 \<le> y \<and> y < int (length b)"
    using p new big s bd lb by (fastforce simp: pending_ok_def)
  have "sorted_wrt (\<lambda>s t. snd s < fst t \<or> snd t < fst s) new"
    using new0 s(3) by auto
  moreover have "snd s < fst t \<or> snd t < fst s" if "s \<in> set new" "t \<in> set ps" for s t
    using that new dj s(2-4) by fastforce
  ultimately have B: "sorted_wrt (\<lambda>s t. snd s < fst t \<or> snd t < fst s) (new @ ps)"
    using p by (auto simp: sorted_wrt_append pending_ok_def)
  from p obtain k h where k: "0 \<le> k" "k \<le> h" "h < int (length a)" "is_min a k"
    "(0, h) \<in> set ((lo, hi) # ps) \<or> (h \<le> 4 \<and> (\<forall>s \<in> set ((lo, hi) # ps). h < fst s))"
    unfolding pending_ok_def by blast
  show ?thesis
  proof (cases "(0, h) = (lo, hi)")
    case True
    obtain k' where k': "lo \<le> k'" "k' \<le> hi" "el b k' = el a k" using sameD(4) [OF s(1), of k] k True by auto
    then have m: "is_min b k'" using is_min_same s(1) k(4) by blast
    have "\<exists>j. 0 \<le> j \<and> j \<le> r \<and> is_min b j"
    proof (cases "k' \<le> r")
      case True
      moreover have "0 \<le> k'" using k'(1) bd(1) by linarith
      ultimately show ?thesis using m by blast
    next
      case False
      then have "cmp (el b lo) (el b k') \<le> 0" using o s(2) k'(1,2) by auto
      then have "is_min b lo" using m cmp_trans by (auto simp: is_min_def)
      with s(2) bd show ?thesis by auto
    qed
    moreover have "r < int (length b)" using s bd by linarith
    moreover have "(0, r) \<in> set (new @ ps) \<or> (r \<le> 4 \<and> (\<forall>s \<in> set (new @ ps). r < fst s))"
      using small True new dj s(2-4) A by fastforce
    ultimately show ?thesis using A B unfolding pending_ok_def by blast
  next
    case False
    then have "h < lo" using k(5) dj p bd k(1,2) by (fastforce simp: pending_ok_def)
    then have "el b k = el a k" using k sameD(3) [OF s(1)] by auto
    then have "is_min b k" using is_min_same s(1) k(4) by blast
    moreover have "(0, h) \<in> set (new @ ps) \<or> (h \<le> 4 \<and> (\<forall>s \<in> set (new @ ps). h < fst s))"
      using k(5) False new \<open>h < lo\<close> s(2,3) by fastforce
    moreover have "h < int (length b)" using k(3) lb by simp
    ultimately show ?thesis using A B k(1,2) unfolding pending_ok_def by blast
  qed
qed

text \<open>
  The stack holds the larger parts: the partition at depth \<open>d\<close> has at most the
  \<open>2^d\<close>-th part of the elements, so 64 entries are enough.
\<close>

fun depth_ok :: "int \<Rightarrow> (int \<times> int) list \<Rightarrow> bool" where
  "depth_ok n [] = True"
| "depth_ok n (s # ps) = ((snd s - fst s + 1) * 2 ^ length ps \<le> n \<and> depth_ok n ps)"

definition work :: "(int \<times> int) list \<Rightarrow> nat" where
  "work ps = sum_list (map (\<lambda>(lo, hi). nat (hi - lo)) ps)"

lemma scale_le: "u \<le> v \<Longrightarrow> v * 2 ^ k \<le> n \<Longrightarrow> u * 2 ^ k \<le> (n :: int)"
  by (meson mult_right_mono order_trans zero_le_numeral zero_le_power)

lemma depth_ok_shrink:
  "depth_ok n ((lo, hi) # ps) \<Longrightarrow> y - x \<le> hi - lo \<Longrightarrow> depth_ok n ((x, y) # ps)"
  using scale_le [of "y - x + 1" "hi - lo + 1" "length ps" n] by simp

lemma depth_ok_push:
  "depth_ok n ((lo, hi) # ps) \<Longrightarrow> 2 * (y - x + 1) \<le> hi - lo + 1 \<Longrightarrow> y' - x' \<le> hi - lo \<Longrightarrow>
   depth_ok n ((x, y) # (x', y') # ps)"
  using scale_le [of "y' - x' + 1" "hi - lo + 1" "length ps" n]
    scale_le [of "2 * (y - x + 1)" "hi - lo + 1" "length ps" n] by (simp add: algebra_simps)

lemma depth_ok_room:
  assumes "depth_ok n ((lo, hi) # ps)" "lo + 4 \<le> hi" "n < 2 ^ 64"
  shows "length ps + 1 < STACK_SIZE"
proof -
  have "2 ^ (length ps + 2) \<le> (hi - lo + 1) * (2 ^ length ps :: int)"
    using assms(2) by (simp add: power_add mult_right_mono)
  also have "\<dots> < 2 ^ 64" using assms(1,3) by simp
  finally have "length ps + 2 < 64" by (rule power_less_imp_less_exp [rotated]) simp
  then show ?thesis by simp
qed

abbreviation frames :: "(int \<times> int) list \<Rightarrow> (int \<times> int) option list" where
  "frames ps \<equiv> map Some ps @ [None]"

lemma quicksort_loop_spec:
  assumes "pending_ok a (c # ps)" "depth_ok n (c # ps)" "n < 2 ^ 64" "work (c # ps) < fuel"
  shows "\<exists>b. quicksort_loop fuel cmp a (Some c) (frames ps) = Inr b \<and> mset b = mset a \<and> pending_ok b []"
  using assms
proof (induction fuel arbitrary: a c ps)
  case 0
  then show ?case by simp
next
  case (Suc fuel)
  obtain lo hi where c: "c = (lo, hi)" by (cases c)
  have bd: "0 \<le> lo" "lo + 4 \<le> hi" "hi < int (length a)" using Suc.prems(1) c by (auto simp: pending_ok_def)
  then obtain b l r where pt: "bindR (median3 cmp a lo (lo + (hi - lo) div 2) hi)
      (\<lambda>a. collapse cmp a (lo + (hi - lo) div 2) (lo + 1) (hi - 1)) = Inr (b, l, r)"
    "same lo hi a b" "lo \<le> r" "r < l" "l \<le> hi"
    "\<forall>i k. lo \<le> i \<and> i \<le> r \<and> r < k \<and> k \<le> hi \<longrightarrow> cmp (el b i) (el b k) \<le> 0"
    using partition_spec [of lo hi a] by auto
  note split = pending_ok_split [OF Suc.prems(1) [unfolded c] pt(2-6)]
  note mb = sameD(2) [OF pt(2)]
  have pt': "bindR (median3 cmp a lo (lo + (hi - lo) div 2) hi) (\<lambda>a.
      bindR (collapse cmp a (lo + (hi - lo) div 2) (lo + 1) (hi - 1)) f) = f (b, l, r)" for f
    using pt(1) by (metis bindR_assoc bindR_simps(2))
  have L: "below_thresh (r - lo) \<longleftrightarrow> r - lo \<le> 4" "below_thresh (hi - l) \<longleftrightarrow> hi - l \<le> 4"
    using pt(3-5) by (auto simp: below_thresh_def)
  have W: "nat (r - lo) + nat (hi - l) + work ps < fuel" "nat (hi - l) + work ps < fuel"
    "nat (r - lo) + work ps < fuel" "Suc (work ps) \<le> fuel"
    using Suc.prems(4) pt(3-5) bd by (auto simp: c work_def)
  note depth = Suc.prems(2) [unfolded c]
  have push: "PUSH f (frames ps) = Inr (f # frames ps)" for f
    using depth_ok_room [OF depth bd(2) Suc.prems(3)] by (simp add: PUSH_def)
  consider (none) "r - lo \<le> 4" "hi - l \<le> 4" | (right) "r - lo \<le> 4" "\<not> hi - l \<le> 4"
    | (left) "\<not> r - lo \<le> 4" "hi - l \<le> 4"
    | (big_left) "\<not> r - lo \<le> 4" "\<not> hi - l \<le> 4" "r - lo > hi - l"
    | (big_right) "\<not> r - lo \<le> 4" "\<not> hi - l \<le> 4" "\<not> r - lo > hi - l" by blast
  then show ?case
  proof cases
    case none
    have ok: "pending_ok b ps" using split [of "[]"] none by simp
    have st: "quicksort_loop (Suc fuel) cmp a (Some c) (frames ps) =
        quicksort_loop fuel cmp b (hd (frames ps)) (tl (frames ps))"
      using none by (cases ps) (simp_all add: c pt' L Let_def)
    show ?thesis
    proof (cases ps)
      case Nil
      moreover obtain f where "fuel = Suc f" using W(4) by (cases fuel) auto
      ultimately show ?thesis using st ok mb by simp
    next
      case (Cons s ps')
      with Suc.IH [of b s ps'] ok Suc.prems(2,3) W(4) st mb show ?thesis by (auto simp del: quicksort_loop.simps)
    qed
  next
    case right
    have "pending_ok b ((l, hi) # ps)" using split [of "[(l, hi)]"] right by simp
    moreover have "depth_ok n ((l, hi) # ps)" by (rule depth_ok_shrink [OF depth]) (use pt(3,4) in linarith)
    moreover have "quicksort_loop (Suc fuel) cmp a (Some c) (frames ps) =
        quicksort_loop fuel cmp b (Some (l, hi)) (frames ps)"
      using right by (cases ps) (simp_all add: c pt' L Let_def)
    ultimately show ?thesis using Suc.IH [of b "(l, hi)" ps] Suc.prems(3) W(2) mb by (simp add: work_def del: quicksort_loop.simps)
  next
    case left
    have "pending_ok b ((lo, r) # ps)" using split [of "[(lo, r)]"] left by simp
    moreover have "depth_ok n ((lo, r) # ps)" by (rule depth_ok_shrink [OF depth]) (use pt(4,5) in linarith)
    moreover have "quicksort_loop (Suc fuel) cmp a (Some c) (frames ps) =
        quicksort_loop fuel cmp b (Some (lo, r)) (frames ps)"
      using left by (cases ps) (simp_all add: c pt' L Let_def)
    ultimately show ?thesis using Suc.IH [of b "(lo, r)" ps] Suc.prems(3) W(3) mb by (simp add: work_def del: quicksort_loop.simps)
  next
    case big_left
    have "pending_ok b ((l, hi) # (lo, r) # ps)" using split [of "[(l, hi), (lo, r)]"] big_left by simp
    moreover have "depth_ok n ((l, hi) # (lo, r) # ps)"
      by (rule depth_ok_push [OF depth]) (use big_left(3) pt(3-5) in auto)
    moreover have "quicksort_loop (Suc fuel) cmp a (Some c) (frames ps) =
        quicksort_loop fuel cmp b (Some (l, hi)) (frames ((lo, r) # ps))"
      using big_left push by (cases ps) (simp_all add: c pt' L Let_def)
    ultimately show ?thesis using Suc.IH [of b "(l, hi)" "(lo, r) # ps"] Suc.prems(3) W(1) mb
      by (simp add: work_def del: quicksort_loop.simps)
  next
    case big_right
    have "pending_ok b ((lo, r) # (l, hi) # ps)" using split [of "[(lo, r), (l, hi)]"] big_right by simp
    moreover have "depth_ok n ((lo, r) # (l, hi) # ps)"
      by (rule depth_ok_push [OF depth]) (use big_right(3) pt(3-5) in auto)
    moreover have "quicksort_loop (Suc fuel) cmp a (Some c) (frames ps) =
        quicksort_loop fuel cmp b (Some (lo, r)) (frames ((l, hi) # ps))"
      using big_right push by (cases ps) (simp_all add: c pt' L Let_def)
    ultimately show ?thesis using Suc.IH [of b "(lo, r)" "(l, hi) # ps"] Suc.prems(3) W(1) mb
      by (simp add: work_def del: quicksort_loop.simps)
  qed
qed

section \<open>The insertion sort\<close>

lemma find_smallest_spec:
  assumes "thresh < length a"
  shows "\<exists>t. find_smallest cmp a thresh = Inr t \<and> t \<le> thresh \<and> (\<forall>k \<le> thresh. cmp (a ! t) (a ! k) \<le> 0)"
  unfolding find_smallest_def
proof (rule foldR_upt_inv [where I = "\<lambda>i t. t \<le> i \<and> (\<forall>k \<le> i. cmp (a ! t) (a ! k) \<le> 0)"])
  fix i t assume i: "i < thresh" and t: "t \<le> i \<and> (\<forall>k \<le> i. cmp (a ! t) (a ! k) \<le> 0)"
  have c: "cmpR cmp a (int (Suc i)) (int t) = Inr (cmp (a ! Suc i) (a ! t))"
    by (rule cmpR_nat) (use i t assms in auto)
  let ?t = "if cmp (a ! Suc i) (a ! t) < 0 then Suc i else t"
  have "cmp (a ! ?t) (a ! k) \<le> 0" if "k \<le> Suc i" for k
  proof (cases "k = Suc i")
    case True
    then show ?thesis using cmp_not_less [of "a ! Suc i" "a ! t"] by simp
  next
    case False
    then have "cmp (a ! t) (a ! k) \<le> 0" using that t by simp
    then show ?thesis using cmp_trans [of "a ! Suc i" "a ! t" "a ! k"] by simp
  qed
  with c t show "\<exists>t'. bindR (cmpR cmp a (int (Suc i)) (int t)) (\<lambda>c. Inr (if c < 0 then Suc i else t)) = Inr t' \<and>
      t' \<le> Suc i \<and> (\<forall>k \<le> Suc i. cmp (a ! t') (a ! k) \<le> 0)" by auto
qed simp

lemma insert_scan_stops:
  assumes "t < length a" "run < length a" "\<not> cmp (a ! run) (a ! 0) < 0"
  shows "\<exists>t'. insert_scan cmp a (int run) (int t) = Inr (int t') \<and> t' \<le> t \<and> \<not> cmp (a ! run) (a ! t') < 0 \<and>
    (\<forall>k. t' < k \<and> k \<le> t \<longrightarrow> cmp (a ! run) (a ! k) < 0)"
  using assms(1)
proof (induction t)
  case 0
  with assms show ?case by (subst insert_scan.simps) simp
next
  case (Suc t)
  have c: "cmpR cmp a (int run) (int (Suc t)) = Inr (cmp (a ! run) (a ! Suc t))"
    by (rule cmpR_nat) (use Suc.prems assms in auto)
  show ?case
  proof (cases "cmp (a ! run) (a ! Suc t) < 0")
    case True
    from Suc obtain t' where t': "insert_scan cmp a (int run) (int t) = Inr (int t')" "t' \<le> t"
      "\<not> cmp (a ! run) (a ! t') < 0" "\<forall>k. t' < k \<and> k \<le> t \<longrightarrow> cmp (a ! run) (a ! k) < 0" by auto
    have "insert_scan cmp a (int run) (int (Suc t)) = Inr (int t')"
      using True t'(1) c by (subst insert_scan.simps) simp
    moreover have "\<forall>k. t' < k \<and> k \<le> Suc t \<longrightarrow> cmp (a ! run) (a ! k) < 0" using t'(4) True by (auto simp: le_Suc_eq)
    ultimately show ?thesis using t'(2,3) by auto
  next
    case False
    then show ?thesis using c by (intro exI [of _ "Suc t"], subst insert_scan.simps) simp
  qed
qed

end

lemma shift_up_spec:
  assumes "t \<le> run" "run < length a"
  shows "shift_up a (int t) (int run) c =
    Inr (take t a @ c # take (run - t) (drop t a) @ drop (Suc run) a)"
  using assms
proof (induction "run - t" arbitrary: a run)
  case 0
  then show ?case by (subst shift_up.simps) (simp add: upd_conv_take_nth_drop)
next
  case (Suc d)
  then obtain r where r: "run = Suc r" "t \<le> r" "d = r - t" by (cases run) auto
  define b where "b = a[Suc r := a ! r]"
  have "shift_up a (int t) (int run) c = shift_up b (int t) (int r) c"
    using Suc.prems r by (subst shift_up.simps) (auto simp: b_def nat_add_distrib)
  also have "\<dots> = Inr (take t b @ c # take (r - t) (drop t b) @ drop (Suc r) b)"
    using Suc.hyps(1) [of r b] Suc.prems r by (simp add: b_def)
  also have "take t b = take t a" using r by (simp add: b_def)
  also have "take (r - t) (drop t b) = take (r - t) (drop t a)"
    using r by (simp add: b_def drop_update_swap)
  also have "drop (Suc r) b = a ! r # drop (Suc run) a"
    using Suc.prems r by (subst Cons_nth_drop_Suc [symmetric]) (simp_all add: b_def)
  also have "take (r - t) (drop t a) @ a ! r # drop (Suc run) a = take (run - t) (drop t a) @ drop (Suc run) a"
    using Suc.prems r by (simp add: take_Suc_conv_app_nth Suc_diff_le)
  finally show ?case .
qed

context comparator
begin

lemma insert_run_spec:
  assumes run: "0 < run" "run < length a" and sorted: "sorted_by cmp (take run a)"
    and min: "\<forall>x \<in> set a. cmp (a ! 0) x \<le> 0"
  shows "\<exists>b. insert_run cmp a run = Inr b \<and> mset b = mset a \<and> sorted_by cmp (take (Suc run) b) \<and> b ! 0 = a ! 0"
proof -
  have "\<not> cmp (a ! run) (a ! 0) < 0" "run - 1 < length a" using min run by (auto simp: cmp_not_less)
  then obtain s where s: "insert_scan cmp a (int run) (int (run - 1)) = Inr (int s)" "s \<le> run - 1"
    "\<not> cmp (a ! run) (a ! s) < 0" "\<forall>k. s < k \<and> k \<le> run - 1 \<longrightarrow> cmp (a ! run) (a ! k) < 0"
    using insert_scan_stops [of "run - 1" a run, OF _ run(2)] by blast
  define t where "t = Suc s"
  have t: "0 < t" "t \<le> run" using s(2) run by (auto simp: t_def)
  define xs ys where "xs = take t a" and "ys = take (run - t) (drop t a)"
  define b where "b = xs @ a ! run # ys @ drop (Suc run) a"
  have tr: "take run a = xs @ ys"
    using t(2) by (metis xs_def ys_def le_add_diff_inverse take_add)
  have ar: "a = xs @ ys @ a ! run # drop (Suc run) a"
    using id_take_nth_drop [OF run(2)] by (metis tr append_assoc)
  have low: "cmp x (a ! run) \<le> 0" if "x \<in> set xs" for x
  proof -
    have "xs = take s a @ [a ! s]" using t run by (simp add: xs_def t_def take_Suc_conv_app_nth)
    then have "x = a ! s \<or> cmp x (a ! s) \<le> 0"
      using that sorted unfolding tr by (auto simp: sorted_by_def sorted_wrt_append)
    then show ?thesis using s(3) cmp_trans [of x "a ! s" "a ! run"] by (auto simp: cmp_not_less)
  qed
  have high: "cmp (a ! run) y \<le> 0" if "y \<in> set ys" for y
  proof -
    from that obtain k where "k < run - t" "y = a ! (t + k)"
      using run t by (auto simp: ys_def in_set_conv_nth)
    then show ?thesis using s(4) t run by (auto simp: t_def intro!: less_imp_le)
  qed
  have "length xs + length ys = run" using tr run by (metis length_append length_take min.absorb4 run(2))
  then have "take (Suc run) b = xs @ a ! run # ys" by (auto simp: b_def Suc_diff_le)
  then have "sorted_by cmp (take (Suc run) b)"
    using sorted low high unfolding tr by (auto simp: sorted_by_def sorted_wrt_append)
  moreover have "mset b = mset a" by (subst ar) (simp add: b_def)
  moreover have "b ! 0 = a ! 0" using t(1) run by (auto simp: b_def xs_def nth_append)
  moreover have "insert_run cmp a run = Inr b"
  proof (cases "t = run")
    case True
    then have "b = a" using ar by (simp add: b_def ys_def)
    with True s(1) run show ?thesis by (simp add: insert_run_def t_def of_nat_diff)
  next
    case False
    with s(1) run t shift_up_spec [of t run a "a ! run"] show ?thesis
      by (auto simp: insert_run_def t_def of_nat_diff b_def xs_def ys_def add.commute)
  qed
  ultimately show ?thesis by blast
qed

lemma insertion_phase_spec:
  assumes ne: "a \<noteq> []" and m: "\<exists>k. k \<le> 4 \<and> k < length a \<and> (\<forall>x \<in> set a. cmp (a ! k) x \<le> 0)"
  shows "\<exists>b. insertion_phase cmp a = Inr b \<and> mset b = mset a \<and> sorted_by cmp b"
proof -
  obtain k where k: "k \<le> 4" "k < length a" "\<forall>x \<in> set a. cmp (a ! k) x \<le> 0" using m by blast
  define th where "th = min (length a - 1) 4"
  have th: "th < length a" "k \<le> th" using ne k by (auto simp: th_def)
  obtain t where t: "find_smallest cmp a th = Inr t" "t \<le> th" "\<forall>k \<le> th. cmp (a ! t) (a ! k) \<le> 0"
    using find_smallest_spec [OF th(1)] by blast
  have tm: "\<forall>x \<in> set a. cmp (a ! t) x \<le> 0" using t(3) th(2) k(3) cmp_trans by blast
  define c where "c = (if t \<noteq> 0 then swp a (int t) 0 else a)"
  have c: "(if t \<noteq> 0 then SWAP a (int t) 0 else Inr a) = Inr c" "mset c = mset a" "c ! 0 = a ! t" "length c = length a"
  proof -
    have i: "inside a (int t)" "inside a 0" using t(2) th by auto
    show "(if t \<noteq> 0 then SWAP a (int t) 0 else Inr a) = Inr c" "mset c = mset a" "length c = length a"
      using i by (simp_all add: c_def mset_swp)
    show "c ! 0 = a ! t" using el_swp [OF i, of 0] by (simp add: c_def)
  qed
  have cm: "\<forall>x \<in> set c. cmp (c ! 0) x \<le> 0" using tm c(2,3) mset_eq_setD [of c a] by simp
  let ?I = "\<lambda>i b. mset b = mset a \<and> b ! 0 = c ! 0 \<and> sorted_by cmp (take (i + 2) b)"
  have "\<exists>b. foldR (\<lambda>a i. insert_run cmp a (i + 2)) c [0..<length c - 2] = Inr b \<and> ?I (length c - 2) b"
  proof (rule foldR_upt_inv [where I = ?I])
    show "?I 0 c" using c(2) cm by (cases c; cases "tl c") (auto simp: sorted_by_def)
    fix i b assume i: "i < length c - 2" and b: "?I i b"
    then have "set b = set c" "length b = length c" using c(2) mset_eq_setD [of b c] mset_eq_length [of b c] by auto
    then show "\<exists>b'. insert_run cmp b (i + 2) = Inr b' \<and> ?I (Suc i) b'"
      using insert_run_spec [of "i + 2" b] i b cm by fastforce
  qed
  then obtain b where b: "foldR (\<lambda>a i. insert_run cmp a (i + 2)) c [0..<length c - 2] = Inr b"
    "mset b = mset a" "sorted_by cmp (take (length c - 2 + 2) b)" by blast
  have "length b \<le> length c - 2 + 2" using b(2) c(4) mset_eq_length [of b a] by simp
  with b have "sorted_by cmp b" by simp
  moreover have "insertion_phase cmp a = Inr b"
    unfolding insertion_phase_def Let_def th_def [symmetric] t(1) bindR_simps c(1) by (rule b(1))
  ultimately show ?thesis using b(2) by blast
qed

lemma exists_min: "a \<noteq> [] \<Longrightarrow> \<exists>k < length a. \<forall>x \<in> set a. cmp (a ! k) x \<le> 0"
proof (induction a)
  case (Cons y a)
  show ?case
  proof (cases "a = []")
    case False
    with Cons.IH obtain k where k: "k < length a" "\<forall>x \<in> set a. cmp (a ! k) x \<le> 0" by blast
    show ?thesis
    proof (cases "cmp (a ! k) y \<le> 0")
      case True
      with k show ?thesis by (intro exI [of _ "Suc k"]) auto
    next
      case f: False
      then have "cmp y (a ! k) \<le> 0" using cmp_total [of y "a ! k"] by blast
      with k(2) show ?thesis by (intro exI [of _ 0]) (auto intro: cmp_trans)
    qed
  qed simp
qed simp

lemma quicksort_sorts:
  assumes "length a < 2 ^ 64"
  shows "\<exists>b. quicksort cmp a = Inr b \<and> mset b = mset a \<and> sorted_by cmp b"
proof (cases "a = []")
  case True
  then show ?thesis by (simp add: quicksort_def sorted_by_def)
next
  case ne: False
  obtain k where k: "k < length a" "\<forall>x \<in> set a. cmp (a ! k) x \<le> 0" using exists_min [OF ne] by blast
  have "\<exists>c. (if int (length a) > MAX_THRESH
      then bindR (PUSH None []) (quicksort_loop (Suc (length a)) cmp a (Some (0, int (length a) - 1)))
      else Inr a) = Inr c \<and> mset c = mset a \<and> (\<exists>k. k \<le> 4 \<and> k < length c \<and> (\<forall>x \<in> set c. cmp (c ! k) x \<le> 0))"
  proof (cases "int (length a) > MAX_THRESH")
    case True
    have "pending_ok a [(0, int (length a) - 1)]"
    proof -
      have "0 \<le> int k \<and> int k \<le> int (length a) - 1 \<and> int (length a) - 1 < int (length a) \<and> is_min a (int k)"
        using k by (auto simp: is_min_def)
      with True show ?thesis unfolding pending_ok_def by (simp, blast)
    qed
    moreover have "depth_ok (int (length a)) [(0, int (length a) - 1)]" by simp
    moreover have "work [(0, int (length a) - 1)] < Suc (length a)" by (simp add: work_def)
    moreover have "int (length a) < 2 ^ 64" using assms by (metis of_nat_less_iff of_nat_numeral of_nat_power)
    ultimately obtain c where c: "quicksort_loop (Suc (length a)) cmp a (Some (0, int (length a) - 1)) (frames []) = Inr c"
      "mset c = mset a" "pending_ok c []" using quicksort_loop_spec by blast
    from c(3) obtain j h where "0 \<le> j" "j \<le> h" "h < int (length c)" "is_min c j" "h \<le> 4"
      by (auto simp: pending_ok_def)
    then have "nat j \<le> 4 \<and> nat j < length c \<and> (\<forall>x \<in> set c. cmp (c ! nat j) x \<le> 0)" by (auto simp: is_min_def)
    with c(1,2) True show ?thesis by (auto simp: PUSH_def)
  next
    case False
    with k show ?thesis by (auto intro!: exI [of _ k])
  qed
  then obtain c where c: "(if int (length a) > MAX_THRESH
      then bindR (PUSH None []) (quicksort_loop (Suc (length a)) cmp a (Some (0, int (length a) - 1)))
      else Inr a) = Inr c" "mset c = mset a"
      "\<exists>k. k \<le> 4 \<and> k < length c \<and> (\<forall>x \<in> set c. cmp (c ! k) x \<le> 0)" by blast
  have "c \<noteq> []" using c(2) ne by auto
  from insertion_phase_spec [OF this c(3)] obtain b where
    "insertion_phase cmp c = Inr b" "mset b = mset c" "sorted_by cmp b" by blast
  then show ?thesis using ne c(1,2) by (simp add: quicksort_def Let_def)
qed

end

interpretation qs: sorter quicksort "\<lambda>a. length a < 2 ^ 64"
  by unfold_locales (rule comparator.quicksort_sorts)

end
