(* ===== verification/Qsort.thy ===== *)
theory Qsort
  imports Msort Quicksort
begin

text \<open>
  \<open>__qsort_r\<close> and \<open>qsort\<close> (\<^verbatim>\<open>glibc-2.27/stdlib/msort.c\<close>): the choice between the merge
  sort and \<open>_quicksort\<close> by the memory the temporary array needs.
\<close>

text \<open>What the call finds out about memory: the two \<open>sysconf\<close> values and whether \<open>malloc\<close> succeeds.\<close>

record memory =
  phys_pages :: int
  pagesize :: nat
  malloc_ok :: bool

definition size_t :: "nat \<Rightarrow> nat" where
  "size_t n = n mod 2 ^ 64"

text \<open>A quarter of the physical pages; \<open>sysconf\<close> answers \<open>-1\<close> when it does not know.\<close>

definition usable_pages :: "memory \<Rightarrow> nat" where
  "usable_pages m = nat ((if phys_pages m = -1 then 2 ^ 63 - 1 else phys_pages m) div 4)"

definition tmp_size :: "nat \<Rightarrow> nat \<Rightarrow> nat" where
  "tmp_size n s = (if s > 32 then size_t (2 * n * 8 + s) else size_t (n * s))"

definition qsort_r :: "memory \<Rightarrow> nat \<Rightarrow> 'a \<Rightarrow> ('a \<Rightarrow> 'a \<Rightarrow> int) \<Rightarrow> 'a list \<Rightarrow> 'a list cres" where
  "qsort_r m s junk cmp b =
     (let size = tmp_size (length b) s
      in if \<not> size < 1024 \<and> (size div pagesize m > usable_pages m \<or> \<not> malloc_ok m) then quicksort cmp b
         else if s > 32 then msort_indirect cmp b
         else msort_direct cmp b junk)"

definition qsort :: "memory \<Rightarrow> nat \<Rightarrow> 'a \<Rightarrow> ('a \<Rightarrow> 'a \<Rightarrow> int) \<Rightarrow> 'a list \<Rightarrow> 'a list cres" where
  "qsort m s junk cmp b = qsort_r m s junk cmp b"

definition enough_memory :: "memory \<Rightarrow> nat \<Rightarrow> nat \<Rightarrow> bool" where
  "enough_memory m n s \<longleftrightarrow> tmp_size n s < 1024 \<or> (tmp_size n s div pagesize m \<le> usable_pages m \<and> malloc_ok m)"

lemma qsort_msort: "enough_memory m (length b) s \<Longrightarrow> qsort m s junk cmp b = Inr (msort cmp b)"
  by (auto simp: qsort_def qsort_r_def enough_memory_def msort_direct_eq msort_indirect_eq Let_def)

interpretation srt: sorter "qsort m s junk" "\<lambda>a. length a < 2 ^ 64" for m s and junk :: 'a
proof unfold_locales
  fix cmp :: "'a \<Rightarrow> 'a \<Rightarrow> int" and xs :: "'a list"
  assume c: "comparator cmp" and l: "length xs < 2 ^ 64"
  show "\<exists>ys. qsort m s junk cmp xs = Inr ys \<and> mset ys = mset xs \<and> sorted_by cmp ys"
  proof (cases "enough_memory m (length xs) s")
    case True
    with c show ?thesis by (auto simp: qsort_msort msort_props)
  next
    case False
    then have "qsort m s junk cmp xs = quicksort cmp xs"
      by (auto simp: qsort_def qsort_r_def enough_memory_def Let_def)
    then show ?thesis using comparator.quicksort_sorts [OF c l] by simp
  qed
qed

section \<open>Properties\<close>

text \<open>
  C8. \<open>qsort\<close> with a consistent comparison function returns, for every array of
  fewer than \<open>2^64\<close> elements of any size and whatever memory is available: no access
  leaves the array or the temporary array, every loop ends, and the array is then
  a sorted permutation of what it was.
\<close>

theorem qsort_correct:
  assumes "\<And>x y. cmp x y < 0 \<longleftrightarrow> cmp y x > 0"
    and "\<And>x y z. cmp x y \<le> 0 \<Longrightarrow> cmp y z \<le> 0 \<Longrightarrow> cmp x z \<le> 0"
    and "length b < 2 ^ 64"
  shows "\<exists>ys. qsort m s junk cmp b = Inr ys \<and> mset ys = mset b \<and> sorted_by cmp ys"
proof -
  have "comparator cmp" using assms(1,2) by unfold_locales
  then show ?thesis using assms(3) by (rule srt.sorts)
qed

theorem qsort_correct_witness:
  "\<exists>ys. qsort \<lparr>phys_pages = -1, pagesize = 4096, malloc_ok = False\<rparr> 400 0 (\<lambda>x y. x - y) [3, 1, 2 :: int] = Inr ys \<and>
     mset ys = {#1, 2, 3#} \<and> sorted_by (\<lambda>x y. x - y) ys"
  using qsort_correct [of "\<lambda>x y. x - y" "[3, 1, 2 :: int]" "\<lparr>phys_pages = -1, pagesize = 4096, malloc_ok = False\<rparr>" 400 0]
  by (simp add: add_mset_commute)

text \<open>
  C24. With the temporary array \<open>qsort\<close> is stable: elements that compare equal keep
  their order.
\<close>

theorem qsort_stable:
  assumes "\<And>x y. cmp x y < 0 \<longleftrightarrow> cmp y x > 0"
    and "\<And>x y z. cmp x y \<le> 0 \<Longrightarrow> cmp y z \<le> 0 \<Longrightarrow> cmp x z \<le> 0"
    and "enough_memory m (length b) s" and "qsort m s junk cmp b = Inr ys"
  shows "filter (\<lambda>y. cmp x y = 0) ys = filter (\<lambda>y. cmp x y = 0) b"
proof -
  have "comparator cmp" using assms(1,2) by unfold_locales
  with assms(3,4) show ?thesis by (auto simp: qsort_msort msort_props)
qed

theorem qsort_stable_witness:
  "filter (\<lambda>y. fst (1, 0 :: int) - fst y = 0) [(0, 5), (1, 7), (1, 6)] =
   filter (\<lambda>y. fst (1, 0) - fst y = 0) [(1, 7), (0 :: int, 5), (1, 6)]"
proof -
  let ?m = "\<lparr>phys_pages = 1000, pagesize = 4096, malloc_ok = True\<rparr>" and ?c = "\<lambda>x y :: int \<times> int. fst x - fst y"
  have e: "enough_memory ?m (length [(1 :: int, 7 :: int), (0, 5), (1, 6)]) 8"
    by (simp add: enough_memory_def tmp_size_def size_t_def)
  have "qsort ?m 8 (0, 0) ?c [(1, 7), (0, 5), (1, 6)] = Inr [(0, 5), (1, 7), (1, 6)]"
    unfolding qsort_msort [OF e] by (simp add: msort.simps)
  from qsort_stable [of ?c ?m "[(1, 7), (0, 5), (1, 6)]" 8 "(0, 0)" _ "(1, 0)", OF _ _ e this]
  show ?thesis by simp
qed

end
