(* ===== verification/Dirent.thy ===== *)
theory Dirent
  imports Qsort
begin

text \<open>
  Reading a directory: \<open>readdir\<close> (\<^verbatim>\<open>glibc-2.27/sysdeps/posix/readdir.c\<close>) and the
  \<open>scandir\<close> of this repository's C library, whose selection function takes the two
  extra arguments \<open>start\<close> and \<open>end\<close> (\<^verbatim>\<open>glibc-2.27/dirent/scandir.c\<close>, \<^verbatim>\<open>scandir-tail.c\<close>,
  \<^verbatim>\<open>scandir-cancel.c\<close>), with \<open>alphasort\<close> (\<^verbatim>\<open>alphasort.c\<close>) in the C locale.
  A directory stream is its unread buffer and the replies of \<open>getdents\<close> still to
  come.  The selection function may change the state \<open>'st\<close> of the program and may
  fault.  The lemmas give the result: the selected entries, sorted by name.
\<close>

section \<open>Entries and streams\<close>

record dirent =
  d_ino :: nat
  d_type :: nat
  d_name :: "char list"

abbreviation (input) DT_DIR :: nat where "DT_DIR \<equiv> 4"

abbreviation (input) DT_REG :: nat where "DT_REG \<equiv> 8"

definition entname :: "dirent \<Rightarrow> string" where
  "entname d = takeWhile (\<lambda>c. c \<noteq> NUL) (d_name d)"

abbreviation (input) ENOENT :: int where "ENOENT \<equiv> 2"

abbreviation (input) ENOMEM :: int where "ENOMEM \<equiv> 12"

text \<open>A reply of \<open>getdents\<close>: an error number, or the entries read, none at the end.\<close>

record DIR =
  unread_ents :: "dirent list"
  replies :: "(int + dirent list) list"

definition dir_size :: "DIR \<Rightarrow> nat" where
  "dir_size dp = length (unread_ents dp) + sum_list (map (case_sum (\<lambda>_. 1) (\<lambda>es. Suc (length es))) (replies dp))"

section \<open>readdir\<close>

function readdir :: "DIR \<Rightarrow> int \<Rightarrow> dirent option \<times> int \<times> DIR" where
  "readdir dirp saved_errno =
     (case unread_ents dirp of
        d # ds \<Rightarrow>
          let dirp' = dirp\<lparr>unread_ents := ds\<rparr>
          in if d_ino d = 0 then readdir dirp' saved_errno else (Some d, saved_errno, dirp')
      | [] \<Rightarrow>
          (case replies dirp of
             [] \<Rightarrow> (None, saved_errno, dirp)
           | Inl e # rs \<Rightarrow> (None, if e = ENOENT then saved_errno else e, dirp\<lparr>replies := rs\<rparr>)
           | Inr [] # rs \<Rightarrow> (None, saved_errno, dirp\<lparr>replies := rs\<rparr>)
           | Inr (e # es) # rs \<Rightarrow> readdir \<lparr>unread_ents = e # es, replies = rs\<rparr> saved_errno))"
  by pat_completeness auto
termination
  by (relation "measure (\<lambda>(d, e). dir_size d)") (auto simp: dir_size_def)

declare readdir.simps [simp del]

lemma readdir_shorter: "readdir dp e = (Some d, e', dp') \<Longrightarrow> dir_size dp' < dir_size dp"
proof (induction dp e rule: readdir.induct)
  case (1 dp e)
  show ?case
  proof (cases "unread_ents dp")
    case (Cons x ds)
    with "1.prems" "1.IH"(2) [OF Cons refl] show ?thesis
      by (subst (asm) readdir.simps) (auto simp: dir_size_def Let_def split: if_splits)
  next
    case Nil
    show ?thesis
    proof (cases "replies dp")
      case (Cons r rs)
      with "1.prems" "1.IH"(1) [OF Nil Cons] Nil show ?thesis
        by (subst (asm) readdir.simps) (auto simp: dir_size_def split: sum.splits list.splits)
    qed (use "1.prems" Nil in \<open>subst (asm) readdir.simps, simp\<close>)
  qed
qed

section \<open>scandir\<close>

text \<open>
  The reading loop.  \<open>alloc k\<close> tells whether the \<open>k\<close>-th allocation succeeds; the
  result is \<open>errno\<close> after the loop and the entries collected.  \<open>errno\<close> is zero
  whenever \<open>readdir\<close> is called.
\<close>

function scan_loop ::
  "(nat \<Rightarrow> bool) \<Rightarrow> (dirent \<Rightarrow> 'st \<Rightarrow> bool cres \<times> 'st) \<Rightarrow> DIR \<Rightarrow> dirent list \<Rightarrow> nat \<Rightarrow> nat \<Rightarrow> 'st \<Rightarrow>
   (int \<times> dirent list) cres \<times> 'st" where
  "scan_loop alloc select dp v vsize k st =
     (case readdir dp 0 of
        (None, errno, dp') \<Rightarrow> (Inr (errno, v), st)
      | (Some d, errno, dp') \<Rightarrow>
          (case select d st of
             (Inl f, st') \<Rightarrow> (Inl f, st')
           | (Inr selected, st') \<Rightarrow>
               if \<not> selected then scan_loop alloc select dp' v vsize k st'
               else
                 let full = (length v = vsize);
                     vsize' = (if \<not> full then vsize else if vsize = 0 then 10 else vsize * 2);
                     k' = (if full then Suc k else k)
                 in if full \<and> \<not> alloc k then (Inr (ENOMEM, v), st')
                    else if \<not> alloc k' then (Inr (ENOMEM, v), st')
                    else scan_loop alloc select dp' (v @ [d]) vsize' (Suc k') st'))"
  by pat_completeness auto
termination
  by (relation "measure (\<lambda>(alloc, select, dp, v, vsize, k, st). dir_size dp)")
    (auto intro!: readdir_shorter [OF sym])

declare scan_loop.simps [simp del]

definition alphasort :: "dirent \<Rightarrow> dirent \<Rightarrow> int" where
  "alphasort a b = lexcmp (entname a) (entname b)"

text \<open>
  \<open>None\<close> is the result \<open>-1\<close>; \<open>Some v\<close> the array of the entries, whose length is the
  result.  \<open>dp\<close> is the result of \<open>opendir\<close>, \<open>cmp\<close> may be a null pointer.
\<close>

definition scandir_tail ::
  "memory \<Rightarrow> (nat \<Rightarrow> bool) \<Rightarrow> (dirent \<Rightarrow> 'st \<Rightarrow> bool cres \<times> 'st) \<Rightarrow> (dirent \<Rightarrow> dirent \<Rightarrow> int) option \<Rightarrow>
   DIR option \<Rightarrow> 'st \<Rightarrow> dirent list option cres \<times> 'st" where
  "scandir_tail mem alloc select cmp dp st =
     (case dp of None \<Rightarrow> (Inr None, st)
      | Some d \<Rightarrow>
          (case scan_loop alloc select d [] 0 0 st of
             (Inl f, st') \<Rightarrow> (Inl f, st')
           | (Inr (errno, v), st') \<Rightarrow>
               if errno = 0 then
                 (case cmp of None \<Rightarrow> (Inr (Some v), st')
                  | Some c \<Rightarrow>
                      (bindR (qsort mem 8 \<lparr>d_ino = 0, d_type = 0, d_name = []\<rparr> c v) (\<lambda>v. Inr (Some v)), st'))
               else (Inr None, st')))"

definition scandir ::
  "memory \<Rightarrow> (nat \<Rightarrow> bool) \<Rightarrow> (dirent \<Rightarrow> 'st \<Rightarrow> bool cres \<times> 'st) \<Rightarrow> (dirent \<Rightarrow> dirent \<Rightarrow> int) option \<Rightarrow>
   DIR option \<Rightarrow> 'st \<Rightarrow> dirent list option cres \<times> 'st" where
  "scandir mem alloc select cmp dp st = scandir_tail mem alloc select cmp dp st"

section \<open>What the stream delivers\<close>

definition live :: "dirent \<Rightarrow> bool" where
  "live d \<longleftrightarrow> d_ino d \<noteq> 0"

text \<open>The entries read up to the end or the first error, and \<open>errno\<close> then.\<close>

fun listing :: "(int + dirent list) list \<Rightarrow> dirent list \<times> int" where
  "listing [] = ([], 0)"
| "listing (Inl e # rs) = ([], if e = ENOENT then 0 else e)"
| "listing (Inr [] # rs) = ([], 0)"
| "listing (Inr (e # es) # rs) = (case listing rs of (ds, err) \<Rightarrow> (filter live (e # es) @ ds, err))"

definition dir_listing :: "DIR \<Rightarrow> dirent list \<times> int" where
  "dir_listing dp = (case listing (replies dp) of (ds, err) \<Rightarrow> (filter live (unread_ents dp) @ ds, err))"

lemma readdir_listing:
  "case readdir dp 0 of
     (None, e, dp') \<Rightarrow> dir_listing dp = ([], e)
   | (Some d, e, dp') \<Rightarrow> live d \<and> dir_listing dp = (d # fst (dir_listing dp'), snd (dir_listing dp'))"
proof (induction dp "0 :: int" rule: readdir.induct)
  case (1 dp)
  show ?case
  proof (cases "unread_ents dp")
    case (Cons x ds)
    with "1"(2) [OF Cons refl] show ?thesis
      by (subst readdir.simps) (auto simp: dir_listing_def live_def split: prod.splits option.splits)
  next
    case Nil
    show ?thesis
    proof (cases "replies dp")
      case (Cons r rs)
      with "1"(1) [OF Nil Cons] Nil show ?thesis
        by (subst readdir.simps)
          (auto simp: dir_listing_def split: prod.splits option.splits sum.splits list.splits)
    qed (use Nil in \<open>subst readdir.simps, simp add: dir_listing_def\<close>)
  qed
qed

lemma readdir_end: "dir_listing dp = ([], e) \<Longrightarrow> \<exists>dp'. readdir dp 0 = (None, e, dp')"
  using readdir_listing [of dp] by (auto split: prod.splits option.splits)

lemma readdir_next:
  "dir_listing dp = (d # ds, e) \<Longrightarrow> \<exists>e' dp'. readdir dp 0 = (Some d, e', dp') \<and> dir_listing dp' = (ds, e)"
  using readdir_listing [of dp] by (auto split: prod.splits option.splits)

section \<open>The selected entries\<close>

text \<open>The state after the selection function has seen the entries in order.\<close>

definition select_state :: "(dirent \<Rightarrow> 'st \<Rightarrow> bool cres \<times> 'st) \<Rightarrow> dirent list \<Rightarrow> 'st \<Rightarrow> 'st" where
  "select_state select ds st = fold (\<lambda>d st. snd (select d st)) ds st"

lemma scan_loop_selects:
  assumes "dir_listing dp = (ds, e)" "\<And>k. alloc k"
    and "\<And>d st. d \<in> set ds \<Longrightarrow> fst (select d st) = Inr (P d)"
  shows "scan_loop alloc select dp v vsize k st = (Inr (e, v @ filter P ds), select_state select ds st)"
  using assms(1,3)
proof (induction ds arbitrary: dp v vsize k st)
  case Nil
  from readdir_end [OF Nil(1)] show ?case by (subst scan_loop.simps) (auto simp: select_state_def)
next
  case (Cons d ds)
  obtain e' dp' where r: "readdir dp 0 = (Some d, e', dp')" "dir_listing dp' = (ds, e)"
    using readdir_next [OF Cons.prems(1)] by blast
  obtain st' where s: "select d st = (Inr (P d), st')" using Cons.prems(2) [of d st] by (cases "select d st") auto
  note IH = Cons.IH [OF r(2) Cons.prems(2)]
  have "scan_loop alloc select dp v vsize k st =
      (if P d then scan_loop alloc select dp' (v @ [d])
         (if length v \<noteq> vsize then vsize else if vsize = 0 then 10 else vsize * 2)
         (Suc (if length v = vsize then Suc k else k)) st'
       else scan_loop alloc select dp' v vsize k st')"
    using assms(2) by (subst scan_loop.simps) (simp add: r(1) s Let_def)
  also have "\<dots> = (Inr (e, v @ filter P (d # ds)), select_state select (d # ds) st)"
    by (simp add: IH s select_state_def)
  finally show ?case .
qed

lemma scan_loop_fault:
  assumes "dir_listing dp = (xs @ d # ds, e)" "\<And>k. alloc k"
    and "\<And>x st. x \<in> set xs \<Longrightarrow> fst (select x st) = Inr (P x)" and "\<And>st. fst (select d st) = Inl f"
  shows "fst (scan_loop alloc select dp v vsize k st) = Inl f"
  using assms(1,3)
proof (induction xs arbitrary: dp v vsize k st)
  case Nil
  then obtain e' dp' where "readdir dp 0 = (Some d, e', dp')" using readdir_next [of dp d ds e] by auto
  with assms(4) [of st] show ?case by (subst scan_loop.simps) (auto split: prod.splits)
next
  case (Cons x xs)
  obtain e' dp' where r: "readdir dp 0 = (Some x, e', dp')" "dir_listing dp' = (xs @ d # ds, e)"
    using readdir_next [of dp x "xs @ d # ds" e] Cons.prems(1) by auto
  obtain st' where s: "select x st = (Inr (P x), st')" using Cons.prems(2) [of x st] by (cases "select x st") auto
  note IH = Cons.IH [OF r(2) Cons.prems(2)]
  show ?case using assms(2) by (subst scan_loop.simps) (simp add: r(1) s Let_def IH)
qed

text \<open>The selection function on all entries in turn, stopping at a fault.\<close>

fun select_all :: "(dirent \<Rightarrow> 'st \<Rightarrow> bool cres \<times> 'st) \<Rightarrow> dirent list \<Rightarrow> 'st \<Rightarrow> dirent list cres \<times> 'st" where
  "select_all select [] st = (Inr [], st)"
| "select_all select (d # ds) st =
     (case select d st of (Inl f, st') \<Rightarrow> (Inl f, st')
      | (Inr b, st') \<Rightarrow>
          (case select_all select ds st' of (Inl f, st'') \<Rightarrow> (Inl f, st'')
           | (Inr xs, st'') \<Rightarrow> (Inr (if b then d # xs else xs), st'')))"

lemma scan_loop_all:
  assumes "dir_listing dp = (ds, e)" "\<And>k. alloc k"
  shows "scan_loop alloc select dp v vsize k st =
    (case select_all select ds st of (Inl f, st') \<Rightarrow> (Inl f, st') | (Inr xs, st') \<Rightarrow> (Inr (e, v @ xs), st'))"
  using assms(1)
proof (induction ds arbitrary: dp v vsize k st)
  case Nil
  from readdir_end [OF Nil(1)] show ?case by (subst scan_loop.simps) auto
next
  case (Cons d ds)
  obtain e' dp' where r: "readdir dp 0 = (Some d, e', dp')" "dir_listing dp' = (ds, e)"
    using readdir_next [OF Cons.prems] by blast
  obtain b st' where s: "select d st = (b, st')" by (cases "select d st")
  note IH = Cons.IH [OF r(2)]
  show ?case
  proof (cases b)
    case (Inl f)
    then show ?thesis by (subst scan_loop.simps) (simp add: r(1) s)
  next
    case (Inr c)
    then have "scan_loop alloc select dp v vsize k st =
      (if c then scan_loop alloc select dp' (v @ [d])
         (if length v \<noteq> vsize then vsize else if vsize = 0 then 10 else vsize * 2)
         (Suc (if length v = vsize then Suc k else k)) st'
       else scan_loop alloc select dp' v vsize k st')"
      using assms(2) by (subst scan_loop.simps) (simp add: r(1) s Let_def)
    also have "\<dots> = (case select_all select (d # ds) st of (Inl f, st') \<Rightarrow> (Inl f, st') | (Inr xs, st') \<Rightarrow> (Inr (e, v @ xs), st'))"
      by (simp add: IH s Inr split: prod.splits sum.splits)
    finally show ?thesis .
  qed
qed

interpretation alpha: comparator alphasort
proof unfold_locales
  show "alphasort x y < 0 \<longleftrightarrow> alphasort y x > 0" for x y
    using lexcmp_antisym [of "entname x" "entname y"] by (simp add: alphasort_def)
  show "alphasort x y \<le> 0 \<Longrightarrow> alphasort y z \<le> 0 \<Longrightarrow> alphasort x z \<le> 0" for x y z
    unfolding alphasort_def by (rule lexcmp_trans_le) (auto simp: entname_def)
qed

lemma alphasort_0_iff: "alphasort x y = 0 \<longleftrightarrow> entname x = entname y"
  by (simp add: alphasort_def lexcmp_0_iff entname_def)

lemma select_all_length: "select_all select ds st = (Inr xs, st') \<Longrightarrow> length xs \<le> length ds"
  by (induction ds arbitrary: st xs) (fastforce split: prod.splits sum.splits if_splits)+

text \<open>\<open>scandir\<close> with a selection function whose answers depend on the state.\<close>

lemma scandir_all:
  assumes l: "dir_listing dp = (ds, e)" and a: "\<And>k. alloc k" and n: "length ds < 2 ^ 64"
    and s: "select_all select ds st = (r, st')"
  shows "case r of Inl f \<Rightarrow> scandir mem alloc select (Some alphasort) (Some dp) st = (Inl f, st')
    | Inr xs \<Rightarrow> if e = 0 then \<exists>ys. scandir mem alloc select (Some alphasort) (Some dp) st = (Inr (Some ys), st') \<and>
          mset ys = mset xs \<and> sorted_by alphasort ys
        else scandir mem alloc select (Some alphasort) (Some dp) st = (Inr None, st')"
proof (cases r)
  case (Inl f)
  then show ?thesis using scan_loop_all [OF l a, where select = select and st = st and v = "[]"] s by (simp add: scandir_def scandir_tail_def)
next
  case (Inr xs)
  then have "length xs < 2 ^ 64" using n select_all_length [of select ds st xs st'] s by simp
  from srt.sorts [OF alpha.comparator_axioms this, of mem 8 "\<lparr>d_ino = 0, d_type = 0, d_name = []\<rparr>"]
  obtain ys where "qsort mem 8 \<lparr>d_ino = 0, d_type = 0, d_name = []\<rparr> alphasort xs = Inr ys"
    "mset ys = mset xs" "sorted_by alphasort ys" by blast
  then show ?thesis using scan_loop_all [OF l a, where select = select and st = st and v = "[]"] s Inr by (auto simp: scandir_def scandir_tail_def)
qed

lemma scandir_selects:
  assumes l: "dir_listing dp = (ds, 0)" and a: "\<And>k. alloc k"
    and s: "\<And>d st. d \<in> set ds \<Longrightarrow> fst (select d st) = Inr (P d)" and n: "length ds < 2 ^ 64"
  shows "\<exists>ys. scandir mem alloc select (Some alphasort) (Some dp) st = (Inr (Some ys), select_state select ds st) \<and>
    mset ys = mset (filter P ds) \<and> sorted_by alphasort ys"
proof -
  have "length (filter P ds) < 2 ^ 64" using n length_filter_le [of P ds] by linarith
  from srt.sorts [OF alpha.comparator_axioms this, of mem 8 "\<lparr>d_ino = 0, d_type = 0, d_name = []\<rparr>"]
  obtain ys where "qsort mem 8 \<lparr>d_ino = 0, d_type = 0, d_name = []\<rparr> alphasort (filter P ds) = Inr ys"
    "mset ys = mset (filter P ds)" "sorted_by alphasort ys" by blast
  with scan_loop_selects [OF l a s] show ?thesis by (simp add: scandir_def scandir_tail_def)
qed

text \<open>
  C10. \<open>scandir\<close> on a readable directory, with \<open>alphasort\<close> and a selection function that
  answers \<open>P\<close>: the result holds exactly the live entries \<open>P\<close> accepts, each as often as
  the directory delivers it, ordered by name as \<open>strcmp\<close> orders; entries of deleted
  files never appear.
\<close>

theorem scandir_correct:
  assumes "dir_listing dp = (ds, 0)" "\<forall>k. alloc k"
    and "\<forall>d \<in> set ds. \<forall>st. fst (select d st) = Inr (P d)" and "length ds < 2 ^ 64"
  shows "\<exists>ys. scandir mem alloc select (Some alphasort) (Some dp) st = (Inr (Some ys), select_state select ds st) \<and>
    mset ys = mset (filter P ds) \<and> sorted_wrt (\<lambda>a b. lexcmp (entname a) (entname b) \<le> 0) ys"
  using scandir_selects [of dp ds alloc select P mem st] assms by (simp add: sorted_by_def alphasort_def)

abbreviation plain_file :: "nat \<Rightarrow> string \<Rightarrow> dirent" where
  "plain_file ino name \<equiv> \<lparr>d_ino = ino, d_type = DT_REG, d_name = lit name\<rparr>"

theorem scandir_correct_witness:
  "\<exists>ys. fst (scandir \<lparr>phys_pages = 9, pagesize = 4096, malloc_ok = True\<rparr> (\<lambda>_. True) (\<lambda>d st. (Inr True, st))
      (Some alphasort) (Some \<lparr>unread_ents = [plain_file 3 ''b''],
        replies = [Inr [plain_file 0 ''x'', plain_file 7 ''a''], Inl ENOENT]\<rparr>) ()) = Inr (Some ys) \<and>
    mset ys = {#plain_file 3 ''b'', plain_file 7 ''a''#} \<and>
    sorted_wrt (\<lambda>a b. lexcmp (entname a) (entname b) \<le> 0) ys"
proof -
  have "dir_listing \<lparr>unread_ents = [plain_file 3 ''b''], replies = [Inr [plain_file 0 ''x'', plain_file 7 ''a''], Inl ENOENT]\<rparr> =
      ([plain_file 3 ''b'', plain_file 7 ''a''], 0)"
    by (simp add: dir_listing_def live_def)
  from scandir_correct [OF this, of "\<lambda>_. True" "\<lambda>d st. (Inr True, st)" "\<lambda>_. True"
      "\<lparr>phys_pages = 9, pagesize = 4096, malloc_ok = True\<rparr>" "()"] show ?thesis by auto
qed

end
