(* ===== verification/Numbers.thy ===== *)
theory Numbers
  imports CString
begin

text \<open>
  Integers as text in the bundled C library: the integer conversions of
  \<^verbatim>\<open>printf\<close> (\<^verbatim>\<open>glibc-2.27/stdio-common/vfprintf.c\<close>, \<^verbatim>\<open>_itoa.c\<close>) and \<open>strtol\<close>, \<open>strtoul\<close>,
  \<open>atoi\<close> (\<^verbatim>\<open>glibc-2.27/stdlib/strtol_l.c\<close>, \<^verbatim>\<open>atoi.c\<close>), in the C locale, without digit
  grouping.  \<^verbatim>\<open>long\<close> has 64 and \<^verbatim>\<open>int\<close> 32 bits.  The lemmas give the value \<open>strtol\<close>
  returns on every numeral, saturation included, and that reading undoes
  printing.
\<close>

unbundle bit_operations_syntax

section \<open>Printing\<close>

definition itoa_lower_digits :: string where
  "itoa_lower_digits = ''0123456789abcdefghijklmnopqrstuvwxyz''"

definition itoa_upper_digits :: string where
  "itoa_upper_digits = ''0123456789ABCDEFGHIJKLMNOPQRSTUVWXYZ''"

text \<open>
  \<open>_itoa_word\<close> writes backwards from \<open>buflim\<close>; \<open>buf\<close> is what is written already.  Its
  callers pass a base from 2 to 36; for a smaller one the source does not stop.
\<close>

function itoa_word :: "nat \<Rightarrow> string \<Rightarrow> nat \<Rightarrow> bool \<Rightarrow> string" where
  "itoa_word value buf base upper_case =
     (let digits = (if upper_case then itoa_upper_digits else itoa_lower_digits);
          buf' = digits ! (value mod base) # buf
      in if value div base \<noteq> 0 \<and> 2 \<le> base then itoa_word (value div base) buf' base upper_case else buf')"
  by pat_completeness auto
termination
  by (relation "measure (\<lambda>(v, b, base, u). v)") (auto simp: div_eq_0_iff)

declare itoa_word.simps [simp del]

record printf_spec =
  p_left :: bool
  p_alt :: bool
  p_showsign :: bool
  p_space :: bool
  p_pad :: char
  p_width :: int
  p_prec :: int
  p_base :: nat
  p_spec :: char

text \<open>The part of \<^verbatim>\<open>vfprintf\<close> from the label \<^verbatim>\<open>number\<close> to the end of the conversion.\<close>

definition format_number :: "printf_spec \<Rightarrow> bool \<Rightarrow> nat \<Rightarrow> string" where
  "format_number p is_negative word =
     (let prec0 = (if p_prec p < 0 then 1 else p_prec p);
          pd = (if p_prec p < 0 then p_pad p else CHR '' '');
          str0 = (if prec0 = 0 \<and> word = 0
                  then (if p_base p = 8 \<and> p_alt p then ''0'' else [])
                  else itoa_word word [] (p_base p) (p_spec p = CHR ''X''));
          str = (if prec0 \<le> int (length str0) \<and> word \<noteq> 0 \<and> p_alt p \<and> p_base p = 8
                 then CHR ''0'' # str0 else str0);
          prec1 = max 0 (prec0 - int (length str));
          hex = (word \<noteq> 0 \<and> p_alt p \<and> p_base p = 16);
          mark = (if hex then [CHR ''0'', p_spec p] else []);
          sign = (if is_negative then ''-'' else if p_showsign p then ''+'' else if p_space p then '' '' else [])
      in if \<not> p_left p then
           let width1 = p_width p - (int (length str) + prec1) - (if hex then 2 else 0)
                          - (if is_negative \<or> p_showsign p \<or> p_space p then 1 else 0);
               blanks = (if pd = CHR '' '' then replicate (nat width1) CHR '' '' else []);
               width2 = (if pd = CHR '' '' then 0 else width1) + prec1
           in blanks @ sign @ mark @ replicate (nat width2) CHR ''0'' @ str
         else
           let width1 = p_width p - int (length sign) - (if hex then 2 else 0) - (int (length str) + prec1)
           in sign @ mark @ replicate (nat prec1) CHR ''0'' @ str @ replicate (nat width1) CHR '' '')"

text \<open>The conversions the program uses: \<^verbatim>\<open>%d\<close> and \<^verbatim>\<open>%03d\<close>.\<close>

definition plain_d :: printf_spec where
  "plain_d = \<lparr>p_left = False, p_alt = False, p_showsign = False, p_space = False, p_pad = CHR '' '',
     p_width = 0, p_prec = -1, p_base = 10, p_spec = CHR ''d''\<rparr>"

definition sprintf_int :: "printf_spec \<Rightarrow> int \<Rightarrow> string" where
  "sprintf_int p n = format_number p (n < 0) (nat \<bar>n\<bar>)"

definition sprintf_d :: "int \<Rightarrow> string" where
  "sprintf_d n = sprintf_int plain_d n"

definition sprintf_03d :: "int \<Rightarrow> string" where
  "sprintf_03d n = sprintf_int (plain_d\<lparr>p_pad := CHR ''0'', p_width := 3\<rparr>) n"

section \<open>Reading\<close>

datatype errno = EINVAL | ERANGE

definition isspace :: "char \<Rightarrow> bool" where
  "isspace c \<longleftrightarrow> c = CHR '' '' \<or> (9 \<le> uchar c \<and> uchar c \<le> 13)"

definition isdigit :: "char \<Rightarrow> bool" where
  "isdigit c \<longleftrightarrow> uchar CHR ''0'' \<le> uchar c \<and> uchar c \<le> uchar CHR ''9''"

definition isalpha :: "char \<Rightarrow> bool" where
  "isalpha c \<longleftrightarrow> (uchar CHR ''A'' \<le> uchar c \<and> uchar c \<le> uchar CHR ''Z'') \<or>
     (uchar CHR ''a'' \<le> uchar c \<and> uchar c \<le> uchar CHR ''z'')"

definition toupper :: "char \<Rightarrow> char" where
  "toupper c = (if uchar CHR ''a'' \<le> uchar c \<and> uchar c \<le> uchar CHR ''z'' then char_of (uchar c - 32) else c)"

definition ULONG_MAX :: nat where "ULONG_MAX = 2 ^ 64 - 1"

text \<open>The value of a character as a digit, \<open>None\<close> where the loop breaks on it.\<close>

definition digit_of :: "char \<Rightarrow> nat option" where
  "digit_of c =
     (if isdigit c then Some (nat (uchar c - uchar CHR ''0''))
      else if isalpha c then Some (nat (uchar (toupper c) - uchar CHR ''A'' + 10))
      else None)"

text \<open>
  The conversion loop, on the text from \<open>s\<close> on: the accumulated value, the
  overflow flag and the number of characters read.
\<close>

fun strtol_loop :: "nat \<Rightarrow> char list \<Rightarrow> 64 word \<Rightarrow> bool \<Rightarrow> nat \<Rightarrow> (64 word \<times> bool \<times> nat) cres" where
  "strtol_loop base [] i overflow n = Inl OutOfBounds"
| "strtol_loop base (c # s) i overflow n =
     (if c = NUL then Inr (i, overflow, n)
      else case digit_of c of
        None \<Rightarrow> Inr (i, overflow, n)
      | Some d \<Rightarrow>
          if d \<ge> base then Inr (i, overflow, n)
          else
            let cutoff = word_of_nat (ULONG_MAX div base); cutlim = ULONG_MAX mod base
            in if i > cutoff \<or> (i = cutoff \<and> d > cutlim)
               then strtol_loop base s i True (Suc n)
               else strtol_loop base s (i * word_of_nat base + word_of_nat d) overflow (Suc n))"

fun skip_space :: "char list \<Rightarrow> nat cres" where
  "skip_space [] = Inl OutOfBounds"
| "skip_space (c # s) = (if isspace c then bindR (skip_space s) (\<lambda>n. Inr (Suc n)) else Inr 0)"

record strtol_result =
  s_value :: "64 word"
  s_endptr :: nat
  s_errno :: "errno option"

definition noconv :: "char list \<Rightarrow> nat \<Rightarrow> strtol_result" where
  "noconv nptr save =
     \<lparr>s_value = 0,
      s_endptr = (if save \<ge> 2 \<and> toupper (nptr ! (save - 1)) = CHR ''X'' \<and> nptr ! (save - 2) = CHR ''0''
                then save - 1 else 0),
      s_errno = None\<rparr>"

text \<open>
  \<open>__strtol_l_internal\<close> with \<open>group\<close> zero.  \<open>uns\<close> is the compile-time choice between
  \<open>strtoul\<close> and \<open>strtol\<close>; \<open>endptr\<close> is an offset from \<open>nptr\<close>.
\<close>

definition strtol_internal :: "bool \<Rightarrow> char list \<Rightarrow> int \<Rightarrow> strtol_result cres" where
  "strtol_internal uns nptr base =
     (if base < 0 \<or> base = 1 \<or> base > 36 then Inr \<lparr>s_value = 0, s_endptr = 0, s_errno = Some EINVAL\<rparr>
      else
        bindR (skip_space nptr) (\<lambda>s0.
        if nptr ! s0 = NUL then Inr (noconv nptr 0)
        else
          let negative = (nptr ! s0 = CHR ''-'');
              s1 = (if nptr ! s0 = CHR ''-'' \<or> nptr ! s0 = CHR ''+'' then s0 + 1 else s0)
          in bindR (getR nptr (int s1)) (\<lambda>c1.
             bindR (if c1 = CHR ''0''
                    then bindR (if base = 0 \<or> base = 16 then getR nptr (int s1 + 1) else Inr NUL) (\<lambda>c2.
                         if (base = 0 \<or> base = 16) \<and> toupper c2 = CHR ''X'' then Inr (s1 + 2, 16)
                         else Inr (s1, if base = 0 then 8 else base))
                    else Inr (s1, if base = 0 then 10 else base)) (\<lambda>(s2, base').
             bindR (strtol_loop (nat base') (drop s2 nptr) 0 False 0) (\<lambda>(i, overflow, n).
             if n = 0 then Inr (noconv nptr s2)
             else
               let overflow' = (overflow \<or>
                     (\<not> uns \<and> i > (if negative then 2 ^ 63 else 2 ^ 63 - 1)))
               in Inr \<lparr>s_value =
                        (if overflow' then (if uns then -1 else if negative then 2 ^ 63 else 2 ^ 63 - 1)
                         else if negative then - i else i),
                       s_endptr = s2 + n,
                       s_errno = (if overflow' then Some ERANGE else None)\<rparr>)))))"

definition strtol :: "char list \<Rightarrow> int \<Rightarrow> strtol_result cres" where
  "strtol nptr base = strtol_internal False nptr base"

definition strtoul :: "char list \<Rightarrow> int \<Rightarrow> strtol_result cres" where
  "strtoul nptr base = strtol_internal True nptr base"

definition atoi :: "char list \<Rightarrow> int cres" where
  "atoi nptr = bindR (strtol nptr 10) (\<lambda>r. Inr (sint (ucast (s_value r) :: 32 word)))"

section \<open>The loop computes the numeral's value or reports overflow\<close>

fun numval :: "nat \<Rightarrow> nat \<Rightarrow> string \<Rightarrow> nat" where
  "numval b a [] = a"
| "numval b a (c # cs) = numval b (a * b + the (digit_of c)) cs"

definition is_digit_in :: "nat \<Rightarrow> char \<Rightarrow> bool" where
  "is_digit_in b c \<longleftrightarrow> (case digit_of c of None \<Rightarrow> False | Some d \<Rightarrow> d < b)"

lemma digit_of_NUL [simp]: "digit_of NUL = None"
  by code_simp

lemma not_digit_NUL [simp]: "\<not> is_digit_in b NUL"
  by (simp add: is_digit_in_def)

lemma numval_append: "numval b a (xs @ ys) = numval b (numval b a xs) ys"
  by (induction xs arbitrary: a) simp_all

lemma cut_exact:
  fixes v d b M :: nat
  assumes "d < b"
  shows "(v > M div b \<or> (v = M div b \<and> d > M mod b)) \<longleftrightarrow> v * b + d > M"
proof -
  define q r where "q = M div b" and "r = M mod b"
  have M: "M = q * b + r" and r: "r < b" using assms by (simp_all add: q_def r_def)
  consider "v < q" | "v = q" | "v > q" by linarith
  then show ?thesis
    unfolding q_def [symmetric] r_def [symmetric]
  proof cases
    case 1
    then have "v * b + b \<le> q * b" using mult_le_mono1 [of "Suc v" q b] by simp
    with 1 assms M show "(v > q \<or> v = q \<and> d > r) \<longleftrightarrow> v * b + d > M" by auto
  next
    case 2
    with M show "(v > q \<or> v = q \<and> d > r) \<longleftrightarrow> v * b + d > M" by auto
  next
    case 3
    then have "q * b + b \<le> v * b" using mult_le_mono1 [of "Suc q" v b] by simp
    with 3 r M show "(v > q \<or> v = q \<and> d > r) \<longleftrightarrow> v * b + d > M" by auto
  qed
qed

definition tracks :: "nat \<Rightarrow> 64 word \<Rightarrow> bool \<Rightarrow> bool" where
  "tracks v i overflow \<longleftrightarrow> (overflow \<longleftrightarrow> v > ULONG_MAX) \<and> (\<not> overflow \<longrightarrow> unat i = v)"

lemma unat_word_of_nat64: "n \<le> ULONG_MAX \<Longrightarrow> unat (word_of_nat n :: 64 word) = n"
  by (simp add: unat_of_nat ULONG_MAX_def)

lemma tracks_step:
  assumes t: "tracks v i ov" and b: "2 \<le> b" "b \<le> 36" and d: "d < b"
  shows "if i > word_of_nat (ULONG_MAX div b) \<or> (i = word_of_nat (ULONG_MAX div b) \<and> d > ULONG_MAX mod b)
         then tracks (v * b + d) i True
         else tracks (v * b + d) (i * word_of_nat b + word_of_nat d) ov"
proof (cases ov)
  case True
  with t have "v > ULONG_MAX" by (simp add: tracks_def)
  moreover have "v \<le> v * b" using b by simp
  ultimately have "v * b + d > ULONG_MAX" by linarith
  with True show ?thesis by (simp add: tracks_def)
next
  case False
  with t have v: "unat i = v" "v \<le> ULONG_MAX" by (auto simp: tracks_def)
  have q: "unat (word_of_nat (ULONG_MAX div b) :: 64 word) = ULONG_MAX div b"
    by (rule unat_word_of_nat64) simp
  have c: "(i > word_of_nat (ULONG_MAX div b) \<or> (i = word_of_nat (ULONG_MAX div b) \<and> d > ULONG_MAX mod b))
      \<longleftrightarrow> v * b + d > ULONG_MAX"
    unfolding cut_exact [OF d, symmetric] word_less_nat_alt word_unat_eq_iff q v(1) by simp
  have "unat (i * word_of_nat b + word_of_nat d) = v * b + d" if "v * b + d \<le> ULONG_MAX"
  proof -
    have "i * word_of_nat b + word_of_nat d = (word_of_nat (v * b + d) :: 64 word)"
      by (simp flip: v(1))
    with that show ?thesis by (simp only: unat_word_of_nat64)
  qed
  with c False show ?thesis by (auto simp: tracks_def)
qed

lemma strtol_loop_spec:
  assumes "2 \<le> b" "b \<le> 36" "\<forall>c \<in> set ds. is_digit_in b c" "\<not> is_digit_in b e" "tracks v i ov"
  shows "\<exists>i' ov'. strtol_loop b (ds @ e # r) i ov n = Inr (i', ov', n + length ds) \<and> tracks (numval b v ds) i' ov'"
  using assms(3,5)
proof (induction ds arbitrary: v i ov n)
  case Nil
  with assms(4) show ?case by (auto simp: is_digit_in_def split: option.splits)
next
  case (Cons c ds)
  then obtain d where d: "digit_of c = Some d" "d < b" by (auto simp: is_digit_in_def split: option.splits)
  then have "c \<noteq> NUL" by auto
  with d Cons.IH [of "v * b + d" i True "Suc n"]
    Cons.IH [of "v * b + d" "i * word_of_nat b + word_of_nat d" ov "Suc n"]
    Cons.prems tracks_step [OF Cons.prems(2) assms(1,2) d(2)]
  show ?case by (auto simp: Let_def split: if_splits)
qed

section \<open>Decimal numerals\<close>

lemma digit10_isdigit: "is_digit_in 10 c \<longleftrightarrow> isdigit c"
proof -
  have "uchar (toupper c) \<ge> uchar CHR ''A''" if "isalpha c"
  proof (cases "uchar CHR ''a'' \<le> uchar c \<and> uchar c \<le> uchar CHR ''z''")
    case True
    then have "uchar (toupper c) = uchar c - 32"
      by (simp add: toupper_def uchar_def take_bit_eq_mod)
    with True show ?thesis by (simp add: uchar_def)
  next
    case False
    with that show ?thesis by (auto simp: toupper_def isalpha_def)
  qed
  then show ?thesis
    by (auto simp: is_digit_in_def digit_of_def isdigit_def uchar_def split: if_splits)
qed

lemma isdigit_not_special:
  "isdigit c \<Longrightarrow> c \<noteq> NUL \<and> \<not> isspace c \<and> c \<noteq> CHR ''-'' \<and> c \<noteq> CHR ''+''"
  by (auto simp: isdigit_def isspace_def uchar_def)

lemma skip_space_append:
  "\<forall>c \<in> set ws. isspace c \<Longrightarrow> \<not> isspace e \<Longrightarrow> skip_space (ws @ e # r) = Inr (length ws)"
  by (induction ws) auto

text \<open>A decimal numeral as \<open>strtol\<close> accepts it: blanks, an optional sign, digits.\<close>

definition signed_text :: "string \<Rightarrow> string \<Rightarrow> bool" where
  "signed_text sg ds \<longleftrightarrow> sg \<in> {[], ''-'', ''+''} \<and> ds \<noteq> [] \<and> (\<forall>c \<in> set ds. isdigit c)"

definition numeral_value :: "string \<Rightarrow> string \<Rightarrow> int" where
  "numeral_value sg ds = (if sg = ''-'' then - int (numval 10 0 ds) else int (numval 10 0 ds))"

definition clamp64 :: "int \<Rightarrow> int" where
  "clamp64 x = max (- (2 ^ 63)) (min (2 ^ 63 - 1) x)"

lemma tracks_signed:
  assumes "tracks v i ov"
  shows "(ov \<or> i > (if neg then 2 ^ 63 else 2 ^ 63 - 1)) \<longleftrightarrow> v > (if neg then 2 ^ 63 else 2 ^ 63 - 1)"
    and "\<not> (ov \<or> i > (if neg then 2 ^ 63 else 2 ^ 63 - 1)) \<Longrightarrow> word_of_nat v = i"
  using assms by (auto simp: tracks_def ULONG_MAX_def word_less_nat_alt)

text \<open>What is stored for a tracked value, as \<open>strtol\<close> computes it.\<close>

lemma signed_result:
  assumes t: "tracks v i ov" and x: "x = (if neg then - int v else int v)"
    and o: "o' \<longleftrightarrow> (ov \<or> i > (if neg then 2 ^ 63 else 2 ^ 63 - 1))"
  shows "(if o' then (if neg then 2 ^ 63 else 2 ^ 63 - 1) else if neg then - i else i) =
           word_of_int (clamp64 x)" (is ?V)
    and "clamp64 x = x \<longleftrightarrow> \<not> o'" (is ?E)
proof -
  have o': "o' \<longleftrightarrow> v > (if neg then 2 ^ 63 else 2 ^ 63 - 1)"
    using o tracks_signed(1) [OF t, of neg] by simp
  have i: "\<not> o' \<Longrightarrow> word_of_nat v = i"
    using o tracks_signed(2) [OF t, of neg] by simp
  show ?E using o' by (cases neg) (auto simp: x clamp64_def)
  show ?V
  proof (cases o')
    case True
    then have "clamp64 x = (if neg then - (2 ^ 63) else 2 ^ 63 - 1)"
      using o' by (cases neg) (auto simp: x clamp64_def)
    with True show ?thesis by simp
  next
    case False
    then have "clamp64 x = x" using \<open>?E\<close> by simp
    with False i show ?thesis by (simp add: x)
  qed
qed

lemma strtol_numeral:
  assumes ws: "\<forall>c \<in> set ws. isspace c" and sd: "signed_text sg ds" and e: "\<not> isdigit e"
  shows "strtol (ws @ sg @ ds @ e # r) 10 =
    Inr \<lparr>s_value = word_of_int (clamp64 (numeral_value sg ds)),
         s_endptr = length ws + length sg + length ds,
         s_errno = (if clamp64 (numeral_value sg ds) = numeral_value sg ds then None else Some ERANGE)\<rparr>"
proof -
  define B where "B = ws @ sg @ ds @ e # r"
  define neg where "neg \<longleftrightarrow> sg = ''-''"
  obtain d ds' where ds: "ds = d # ds'" using sd by (cases ds) (auto simp: signed_text_def)
  have dd: "isdigit d" using sd by (simp add: signed_text_def ds)
  have "\<exists>x y. sg @ ds @ e # r = x # y \<and> \<not> isspace x \<and> x \<noteq> NUL \<and> (x = CHR ''-'' \<longleftrightarrow> neg) \<and>
      (x = CHR ''-'' \<or> x = CHR ''+'' \<longleftrightarrow> sg \<noteq> [])"
    using sd isdigit_not_special [OF dd] by (auto simp: signed_text_def ds neg_def isspace_def uchar_def)
  then obtain x y where x: "sg @ ds @ e # r = x # y" "\<not> isspace x" "x \<noteq> NUL" "x = CHR ''-'' \<longleftrightarrow> neg"
    "x = CHR ''-'' \<or> x = CHR ''+'' \<longleftrightarrow> sg \<noteq> []" by blast
  have s0: "skip_space B = Inr (length ws)" "B ! length ws = x"
    using skip_space_append [OF ws x(2)] by (simp_all add: B_def x(1))
  define s1 where "s1 = length ws + length sg"
  have s1: "(if x = CHR ''-'' \<or> x = CHR ''+'' then length ws + 1 else length ws) = s1"
    using sd unfolding x(5) s1_def signed_text_def by auto
  have "B ! s1 = d" "s1 < length B" and dr: "drop s1 B = ds @ e # r"
    by (simp_all add: B_def s1_def ds nth_append)
  then have g: "getR B (int s1) = Inr d" by simp
  have "\<forall>c \<in> set ds. is_digit_in 10 c" "\<not> is_digit_in 10 e" using sd e by (simp_all add: signed_text_def digit10_isdigit)
  then obtain i ov where l: "strtol_loop 10 (ds @ e # r) 0 False 0 = Inr (i, ov, length ds)"
    and t: "tracks (numval 10 0 ds) i ov"
    using strtol_loop_spec [of 10 ds e 0 0 False r 0] by (auto simp: tracks_def)
  have n0: "length ds \<noteq> 0" by (simp add: ds)
  define o' where "o' \<longleftrightarrow> (ov \<or> i > (if neg then 2 ^ 63 else 2 ^ 63 - 1))"
  have "strtol B 10 = Inr
      \<lparr>s_value = (if o' then (if neg then 2 ^ 63 else 2 ^ 63 - 1) else if neg then - i else i),
       s_endptr = s1 + length ds, s_errno = (if o' then Some ERANGE else None)\<rparr>"
    unfolding strtol_def strtol_internal_def s0(1) bindR_simps s0(2) s1 g Let_def
    using x(3,4) n0 by (simp add: l dr o'_def del: power_numeral)
  then show ?thesis
    using signed_result [OF t _ o'_def, of "numeral_value sg ds"]
    by (simp add: numeral_value_def neg_def s1_def B_def)
qed

section \<open>Reading undoes printing\<close>

abbreviation decimal :: "nat \<Rightarrow> string" where
  "decimal v \<equiv> itoa_word v [] 10 False"

lemma itoa_word_step:
  "2 \<le> b \<Longrightarrow> itoa_word v buf b u =
     (let buf' = (if u then itoa_upper_digits else itoa_lower_digits) ! (v mod b) # buf
      in if v < b then buf' else itoa_word (v div b) buf' b u)"
  by (subst itoa_word.simps) (auto simp: Let_def div_eq_0_iff)

lemma itoa_word_acc: "2 \<le> b \<Longrightarrow> itoa_word v (xs @ ys) b u = itoa_word v xs b u @ ys"
proof (induction v arbitrary: xs rule: less_induct)
  case (less v)
  then show ?case
    using less.IH [of "v div b" "(if u then itoa_upper_digits else itoa_lower_digits) ! (v mod b) # xs"]
    by (subst (1 2) itoa_word_step) (auto simp: Let_def)
qed

lemma decimal_rec:
  "decimal v = (if v < 10 then [] else decimal (v div 10)) @ [itoa_lower_digits ! (v mod 10)]"
  using itoa_word_acc [of 10 "v div 10" "[]" "[itoa_lower_digits ! (v mod 10)]" False]
  by (subst itoa_word_step) (auto simp: Let_def)

lemma lower_digit:
  assumes "k < 10"
  shows "digit_of (itoa_lower_digits ! k) = Some k" "isdigit (itoa_lower_digits ! k)"
proof -
  have "\<forall>k \<in> set [0..<10]. digit_of (itoa_lower_digits ! k) = Some k \<and> isdigit (itoa_lower_digits ! k)"
    by code_simp
  with assms show "digit_of (itoa_lower_digits ! k) = Some k" "isdigit (itoa_lower_digits ! k)"
    by simp_all
qed

lemma decimal_digits: "c \<in> set (decimal v) \<Longrightarrow> isdigit c"
proof (induction v rule: less_induct)
  case (less v)
  from less.prems have "c = itoa_lower_digits ! (v mod 10) \<or> (\<not> v < 10 \<and> c \<in> set (decimal (v div 10)))"
    by (subst (asm) decimal_rec) (auto split: if_splits)
  then show ?case using less.IH [of "v div 10"] lower_digit(2) [of "v mod 10"] by auto
qed

lemma decimal_nonempty [simp]: "decimal v \<noteq> []"
  by (subst decimal_rec) simp

lemma decimal_value: "numval 10 0 (decimal v) = v"
proof (induction v rule: less_induct)
  case (less v)
  then show ?case
    using lower_digit(1) [of "v mod 10"] less.IH [of "v div 10"]
    by (subst decimal_rec) (auto simp: numval_append)
qed

lemma decimal_inject [simp]: "decimal v = decimal w \<longleftrightarrow> v = w"
  using decimal_value by metis

lemma decimal_length: "v < 10 ^ n \<Longrightarrow> 0 < n \<Longrightarrow> length (decimal v) \<le> n"
proof (induction n arbitrary: v)
  case (Suc n)
  then show ?case
  proof (cases "v < 10")
    case False
    then have "0 < n" using Suc.prems by (cases n) auto
    moreover have "v div 10 < 10 ^ n" using Suc.prems(1) by (simp add: less_mult_imp_div_less mult.commute)
    ultimately have "length (decimal (v div 10)) \<le> n" by (rule Suc.IH [rotated])
    then show ?thesis by (subst decimal_rec) simp
  qed (subst decimal_rec, simp)
qed simp

lemma sprintf_d_eq: "sprintf_d n = (if n < 0 then ''-'' else []) @ decimal (nat \<bar>n\<bar>)"
proof -
  have "1 \<le> length (decimal (nat \<bar>n\<bar>))" by (simp add: Suc_le_eq)
  then have "max 0 (1 - int (length (decimal (nat \<bar>n\<bar>)))) = 0" by simp
  then show ?thesis
    by (simp add: sprintf_d_def sprintf_int_def format_number_def plain_d_def Let_def)
qed

lemma sprintf_03d_eq:
  "0 \<le> n \<Longrightarrow> sprintf_03d n = replicate (3 - length (decimal (nat n))) CHR ''0'' @ decimal (nat n)"
proof -
  assume "0 \<le> n"
  moreover have "1 \<le> length (decimal (nat n))" by (simp add: Suc_le_eq)
  then have "max 0 (1 - int (length (decimal (nat n)))) = 0" by simp
  ultimately show ?thesis
    by (simp add: sprintf_03d_def sprintf_int_def format_number_def plain_d_def Let_def nat_diff_distrib)
qed

lemma sprintf_d_chars: "c \<in> set (sprintf_d n) \<Longrightarrow> isdigit c \<or> c = CHR ''-''"
  by (auto simp: sprintf_d_eq dest: decimal_digits split: if_splits)

lemma sint_cast_clamp:
  "- (2 ^ 31) \<le> x \<Longrightarrow> x < 2 ^ 31 \<Longrightarrow> sint (ucast (word_of_int (clamp64 x) :: 64 word) :: 32 word) = x"
proof -
  assume x: "- (2 ^ 31) \<le> x" "x < 2 ^ 31"
  then have "clamp64 x = x" by (simp add: clamp64_def)
  then have "(ucast (word_of_int (clamp64 x) :: 64 word) :: 32 word) = word_of_int x"
    by (simp add: unsigned_of_int word_of_int_eq_iff)
  with x show ?thesis by (simp add: sint_sbintrunc' signed_take_bit_int_eq_self)
qed

text \<open>\<open>atoi\<close> of a numeral an \<^verbatim>\<open>int\<close> can hold, whatever follows it in the buffer.\<close>

lemma atoi_numeral:
  assumes ws: "\<forall>c \<in> set ws. isspace c" and sd: "signed_text sg ds" and e: "\<not> isdigit e"
    and v: "- (2 ^ 31) \<le> numeral_value sg ds" "numeral_value sg ds < 2 ^ 31"
  shows "atoi (ws @ sg @ ds @ e # r) = Inr (numeral_value sg ds)"
  using strtol_numeral [OF ws sd e, of r] sint_cast_clamp [OF v] by (simp add: atoi_def)

lemma signed_text_decimal: "signed_text (if n < 0 then ''-'' else []) (decimal v)"
  by (auto simp: signed_text_def dest: decimal_digits)

lemma atoi_printed:
  assumes "- (2 ^ 31) \<le> x" "x < 2 ^ 31" "\<not> isdigit e"
  shows "atoi (sprintf_d x @ e # r) = Inr x"
  using atoi_numeral [of "[]", OF _ signed_text_decimal [of x "nat \<bar>x\<bar>"] assms(3), of r] assms(1,2)
  by (auto simp: sprintf_d_eq numeral_value_def decimal_value split: if_splits)

text \<open>On an array that holds digits only, \<open>atoi\<close> reads on behind the array.\<close>

lemma strtol_loop_unterminated: "\<forall>c \<in> set ds. is_digit_in b c \<Longrightarrow> strtol_loop b ds i ov n = Inl OutOfBounds"
proof (induction ds arbitrary: i ov n)
  case (Cons c ds)
  then obtain d where "digit_of c = Some d" "d < b" by (auto simp: is_digit_in_def split: option.splits)
  moreover from this have "c \<noteq> NUL" by auto
  ultimately show ?case using Cons by (auto simp: Let_def)
qed simp

lemma atoi_unterminated:
  assumes "ds \<noteq> []" "\<forall>c \<in> set ds. isdigit c"
  shows "atoi ds = Inl OutOfBounds"
proof -
  obtain d ds' where ds: "ds = d # ds'" using assms(1) by (cases ds) auto
  have d: "\<not> isspace d" "d \<noteq> NUL" "d \<noteq> CHR ''-''" "d \<noteq> CHR ''+''"
    using assms(2) isdigit_not_special [of d] by (auto simp: ds isspace_def uchar_def isdigit_def)
  have l: "strtol_loop 10 ds 0 False 0 = Inl OutOfBounds"
    using assms(2) by (intro strtol_loop_unterminated) (simp add: digit10_isdigit)
  have h: "skip_space ds = Inr 0" "ds ! 0 = d" "getR ds 0 = Inr d" using d by (simp_all add: ds getR_def)
  have "strtol ds 10 = Inl OutOfBounds"
    unfolding strtol_def strtol_internal_def h(1,2) bindR_simps using d by (simp add: h(2,3) l Let_def)
  then show ?thesis by (simp add: atoi_def)
qed

text \<open>
  C22. For every value of an \<^verbatim>\<open>int\<close>, printing it with \<^verbatim>\<open>%d\<close> into a buffer and reading
  the buffer with \<open>atoi\<close> gives the value back, whatever non-digit ends the text and
  whatever the buffer holds behind it.
\<close>

theorem atoi_sprintf_d:
  assumes "- (2 ^ 31) \<le> x" "x < 2 ^ 31" "\<not> isdigit e"
  shows "atoi (sprintf_d x @ e # r) = Inr x"
  using assms by (rule atoi_printed)

theorem atoi_sprintf_d_witness:
  "atoi (''-2147483648'' @ NUL # ''7'') = Inr (-2147483648)"
proof -
  have e: "sprintf_d (-2147483648) = ''-2147483648''"
    by (simp add: sprintf_d_eq itoa_word_step itoa_lower_digits_def)
  have "atoi (sprintf_d (-2147483648) @ NUL # ''7'') = Inr (-2147483648)"
    by (rule atoi_sprintf_d) (simp_all add: isdigit_def uchar_def)
  then show ?thesis unfolding e .
qed

end
