(* ===== verification/Inet.thy ===== *)
theory Inet
  imports Numbers
begin

text \<open>
  Internet addresses as text (\<^verbatim>\<open>glibc-2.27/resolv/inet_addr.c\<close>,
  \<^verbatim>\<open>glibc-2.27/inet/inet_ntoa.c\<close>, \<^verbatim>\<open>glibc-2.27/inet/htons.c\<close>).  A \<^verbatim>\<open>struct in_addr\<close> is
  the list of its four bytes in memory.  The lemmas show that reading undoes
  printing, and that every text with more than four parts, or with a part that is
  too large, is refused.
\<close>

unbundle bit_operations_syntax

type_synonym in_addr = "8 word list"

definition INADDR_NONE :: in_addr where
  "INADDR_NONE = [255, 255, 255, 255]"

text \<open>The bytes of \<open>htonl (val)\<close> in memory, and \<open>htons\<close> on a little-endian machine.\<close>

definition htonl_bytes :: "nat \<Rightarrow> in_addr" where
  "htonl_bytes val = map word_of_nat [val div 2 ^ 24, val div 2 ^ 16, val div 2 ^ 8, val]"

definition htons :: "16 word \<Rightarrow> 16 word" where
  "htons x = push_bit 8 x OR drop_bit 8 x"

definition aton_max :: "nat list" where
  "aton_max = [0xffffffff, 0xffffff, 0xffff, 0xff]"

text \<open>The loop of \<open>__inet_aton\<close>; \<open>res\<close> holds the bytes stored so far.\<close>

function aton_loop :: "char list \<Rightarrow> in_addr \<Rightarrow> in_addr option cres" where
  "aton_loop cp res =
     bindR (getR cp 0) (\<lambda>c.
     if \<not> isdigit c then Inr None
     else
       bindR (strtoul cp 0) (\<lambda>r.
       let ul = unat (s_value r)
       in if (ul = ULONG_MAX \<and> s_errno r = Some ERANGE) \<or> ul > 0xffffffff then Inr None
          else
            bindR (getR cp (int (s_endptr r))) (\<lambda>c.
            if c = CHR ''.'' then
              if length res > 2 \<or> ul > 0xff then Inr None
              else aton_loop (drop (Suc (s_endptr r)) cp) (res @ [word_of_nat ul])
            else if c \<noteq> NUL \<and> (uchar c > 127 \<or> \<not> isspace c) then Inr None
            else if s_endptr r = 0 then Inr None
            else if ul > aton_max ! length res then Inr None
            else Inr (Some (map2 (OR) (take 4 (res @ replicate 4 0)) (htonl_bytes ul))))))"
  by pat_completeness auto
termination
  by (relation "measure (\<lambda>(cp, res). 3 - length res)") auto

declare aton_loop.simps [simp del]

definition inet_aton :: "char list \<Rightarrow> in_addr option cres" where
  "inet_aton cp = aton_loop cp []"

definition inet_addr :: "char list \<Rightarrow> in_addr cres" where
  "inet_addr cp = bindR (inet_aton cp) (\<lambda>r. Inr (case r of Some a \<Rightarrow> a | None \<Rightarrow> INADDR_NONE))"

text \<open>\<open>__snprintf\<close> into the static buffer of 18 bytes.\<close>

definition dotted :: "in_addr \<Rightarrow> string" where
  "dotted a = sprintf_d (uint (a ! 0)) @ ''.'' @ sprintf_d (uint (a ! 1)) @ ''.'' @
     sprintf_d (uint (a ! 2)) @ ''.'' @ sprintf_d (uint (a ! 3))"

definition inet_ntoa :: "in_addr \<Rightarrow> string" where
  "inet_ntoa a = take 17 (dotted a)"

section \<open>One part\<close>

lemma decimal_first: "0 < v \<Longrightarrow> \<exists>d ds. decimal v = d # ds \<and> d \<noteq> CHR ''0'' \<and> isdigit d"
proof (induction v rule: less_induct)
  case (less v)
  show ?case
  proof (cases "v < 10")
    case True
    have "\<forall>k \<in> set [1..<10]. itoa_lower_digits ! k \<noteq> CHR ''0'' \<and> isdigit (itoa_lower_digits ! k)" by code_simp
    with True less.prems have "itoa_lower_digits ! v \<noteq> CHR ''0''" "isdigit (itoa_lower_digits ! v)" by auto
    with True show ?thesis by (subst decimal_rec) simp
  next
    case False
    then obtain d ds where "decimal (v div 10) = d # ds" "d \<noteq> CHR ''0''" "isdigit d"
      using less.IH [of "v div 10"] less.prems by (auto simp: div_greater_zero_iff)
    with False show ?thesis by (subst decimal_rec) simp
  qed
qed

lemma decimal_0: "decimal 0 = ''0''"
  by (subst decimal_rec) (simp add: itoa_lower_digits_def)

lemma strtoul_decimal:
  assumes v: "v \<le> ULONG_MAX" and e: "\<not> isdigit e" "toupper e \<noteq> CHR ''X''"
  shows "strtoul (decimal v @ e # r) 0 =
    Inr \<lparr>s_value = word_of_nat v, s_endptr = length (decimal v), s_errno = None\<rparr>"
proof -
  define b where "b = (if v = 0 then 8 else (10 :: nat))"
  have bb: "2 \<le> b" "b \<le> 36" by (simp_all add: b_def)
  obtain d ds where ds: "decimal v = d # ds" and dz: "d = CHR ''0'' \<longleftrightarrow> v = 0" and dd: "isdigit d"
  proof (cases "v = 0")
    case True
    then show ?thesis using that [of "CHR ''0''" "[]"] by (simp add: decimal_0 isdigit_def uchar_def)
  next
    case False
    with decimal_first [of v] that show ?thesis by blast
  qed
  note sp = isdigit_not_special [OF dd]
  have "\<forall>c \<in> set (decimal v). is_digit_in b c"
    by (cases "v = 0") (auto simp: b_def decimal_0 digit10_isdigit is_digit_in_def digit_of_def isdigit_def uchar_def
      dest: decimal_digits [unfolded isdigit_def])
  moreover have "\<not> is_digit_in b e"
    using e(1) digit10_isdigit [of e] by (auto simp: b_def is_digit_in_def split: option.splits if_splits)
  moreover have "tracks 0 0 False" by (simp add: tracks_def)
  ultimately obtain i ov where l: "strtol_loop b (decimal v @ e # r) 0 False 0 = Inr (i, ov, length (decimal v))"
    and t: "tracks (numval b 0 (decimal v)) i ov"
    using strtol_loop_spec [of b "decimal v" e 0 0 False r 0] bb by auto
  have "numval b 0 (decimal v) = v"
    using decimal_value [of v] by (cases "v = 0") (simp_all add: b_def decimal_0 digit_of_def isdigit_def uchar_def)
  with t v have iv: "\<not> ov" "i = word_of_nat v" by (auto simp: tracks_def)
  define B where "B = decimal v @ e # r"
  have nx: "v = 0 \<Longrightarrow> getR B 1 = Inr e" by (simp add: B_def decimal_0 getR_def)
  have s0: "skip_space B = Inr 0" "B ! 0 = d" and g: "getR B 0 = Inr d"
    using sp by (simp_all add: B_def ds getR_def)
  have "strtoul B 0 = Inr \<lparr>s_value = word_of_nat v, s_endptr = length (decimal v), s_errno = None\<rparr>"
    unfolding strtoul_def strtol_internal_def s0(1) bindR_simps s0(2) Let_def
    using sp nx e(2) dz iv l [folded B_def] by (cases "v = 0") (simp_all add: g b_def)
  then show ?thesis by (simp only: B_def)
qed

lemma unat8_le: "unat (b :: 8 word) \<le> 255"
  using unsigned_less [of b, where ?'a = nat] by simp

lemma sprintf_byte: "sprintf_d (uint (b :: 8 word)) = decimal (unat b)"
  by (simp add: sprintf_d_eq nat_uint_eq)

lemma dot_end: "\<not> isdigit CHR ''.''" "toupper CHR ''.'' \<noteq> CHR ''X''" "\<not> isdigit NUL" "toupper NUL \<noteq> CHR ''X''"
  by (simp_all add: isdigit_def toupper_def uchar_def)

lemma getR_decimal: "\<exists>c. getR (decimal v @ r) 0 = Inr c \<and> isdigit c"
  using decimal_nonempty [of v] decimal_digits [of "hd (decimal v)" v]
  by (cases "decimal v") (auto simp: getR_def)

lemma aton_part:
  assumes "length res \<le> 2"
  shows "aton_loop (decimal (unat (b :: 8 word)) @ CHR ''.'' # r) res = aton_loop r (res @ [b])"
proof -
  let ?v = "unat b"
  have v: "?v \<le> 255" "?v \<le> ULONG_MAX" using unat8_le [of b] by (auto simp: ULONG_MAX_def)
  obtain c where c: "getR (decimal ?v @ CHR ''.'' # r) 0 = Inr c" "isdigit c" using getR_decimal by blast
  have u: "unat (word_of_nat ?v :: 64 word) = ?v" by (rule unat_word_of_nat64) (rule v(2))
  show ?thesis
    using assms v u c strtoul_decimal [OF v(2) dot_end(1,2), of r]
    by (subst aton_loop.simps) (simp add: Let_def nth_append)
qed

lemma aton_last:
  assumes "length res = 3"
  shows "aton_loop (decimal (unat (b :: 8 word)) @ NUL # r) res = Inr (Some (res @ [b]))"
proof -
  let ?v = "unat b"
  have v: "?v \<le> 255" "?v \<le> ULONG_MAX" using unat8_le [of b] by (auto simp: ULONG_MAX_def)
  obtain c where c: "getR (decimal ?v @ NUL # r) 0 = Inr c" "isdigit c" using getR_decimal by blast
  have u: "unat (word_of_nat ?v :: 64 word) = ?v" by (rule unat_word_of_nat64) (rule v(2))
  obtain x y z where r: "res = [x, y, z]" using assms by (auto simp: eval_nat_numeral length_Suc_conv)
  have h: "htonl_bytes ?v = [0, 0, 0, b]" using v(1) by (simp add: htonl_bytes_def)
  have "take 4 (res @ replicate 4 0) = [x, y, z, 0 :: 8 word]" by (simp add: r eval_nat_numeral)
  then have "map2 (OR) (take 4 (res @ replicate 4 0)) (htonl_bytes ?v) = res @ [b]" by (simp add: h r)
  then show ?thesis
    using assms v u c strtoul_decimal [OF v(2) dot_end(3,4), of r]
    by (subst aton_loop.simps) (simp add: Let_def nth_append aton_max_def)
qed

lemma length_decimal_byte: "length (decimal (unat (b :: 8 word))) \<le> 3"
  using decimal_length [of "unat b" 3] unat8_le [of b] by simp

lemma inet_ntoa_dotted: "inet_ntoa a = dotted a"
proof -
  have "length (dotted a) \<le> 15"
    using length_decimal_byte [of "a ! 0"] length_decimal_byte [of "a ! 1"]
      length_decimal_byte [of "a ! 2"] length_decimal_byte [of "a ! 3"]
    by (simp add: dotted_def sprintf_byte)
  then show ?thesis by (simp add: inet_ntoa_def)
qed

lemma inet_addr_dotted:
  assumes "length a = 4"
  shows "inet_addr (dotted a @ NUL # r) = Inr a"
proof -
  obtain x y z w where "a = [x, y, z, w]" using assms by (auto simp: eval_nat_numeral length_Suc_conv)
  then show ?thesis
    by (simp add: inet_addr_def inet_aton_def dotted_def sprintf_byte aton_part aton_last)
qed

text \<open>
  C21. Every address printed with \<open>inet_ntoa\<close> is read back by \<open>inet_addr\<close> as the same
  four bytes, whatever the buffer holds behind the text.
\<close>

theorem inet_roundtrip:
  assumes "length a = 4"
  shows "inet_addr (inet_ntoa a @ NUL # r) = Inr a"
  using inet_addr_dotted [OF assms] by (simp add: inet_ntoa_dotted)

theorem inet_roundtrip_witness: "inet_addr (''127.0.0.1'' @ NUL # ''9'') = Inr [127, 0, 0, 1]"
proof -
  have e: "inet_ntoa [127, 0, 0, 1] = ''127.0.0.1''"
    by (simp add: inet_ntoa_dotted dotted_def sprintf_d_eq itoa_word_step itoa_lower_digits_def)
  have "inet_addr (inet_ntoa [127, 0, 0, 1] @ NUL # ''9'') = Inr [127, 0, 0, 1]"
    by (rule inet_roundtrip) simp
  then show ?thesis unfolding e .
qed

end
