(* ===== verification/CalTime.thy ===== *)
theory CalTime
  imports Numbers "HOL-Library.Signed_Division"
begin

text \<open>
  Calendar time: \<open>__offtime\<close>, which \<open>localtime\<close> uses (\<^verbatim>\<open>glibc-2.27/time/offtime.c\<close>), and
  the number conversions of \<open>strftime\<close> (\<^verbatim>\<open>glibc-2.27/time/strftime_l.c\<close>) for the
  directives of the program's two formats.  \<open>time_t\<close> is an integer; division is the
  truncating one of C.  The offset from UTC comes from the time zone data and is
  an argument.  The lemmas show that the year search ends, and that the fields
  are the unique proleptic Gregorian date and time of day.
\<close>

section \<open>The code\<close>

record tm =
  tm_sec :: int
  tm_min :: int
  tm_hour :: int
  tm_mday :: int
  tm_mon :: int
  tm_year :: int
  tm_wday :: int
  tm_yday :: int

abbreviation (input) SECS_PER_HOUR :: int where "SECS_PER_HOUR \<equiv> 3600"

abbreviation (input) SECS_PER_DAY :: int where "SECS_PER_DAY \<equiv> 86400"

definition isleap :: "int \<Rightarrow> bool" where
  "isleap year \<longleftrightarrow> year smod 4 = 0 \<and> (year smod 100 \<noteq> 0 \<or> year smod 400 = 0)"

definition DIV :: "int \<Rightarrow> int \<Rightarrow> int" where
  "DIV a b = a sdiv b - (if a smod b < 0 then 1 else 0)"

definition LEAPS_THRU_END_OF :: "int \<Rightarrow> int" where
  "LEAPS_THRU_END_OF y = DIV y 4 - DIV y 100 + DIV y 400"

definition mon_yday :: "int list list" where
  "mon_yday =
     [[0, 31, 59, 90, 120, 151, 181, 212, 243, 273, 304, 334, 365],
      [0, 31, 60, 91, 121, 152, 182, 213, 244, 274, 305, 335, 366]]"

function rem_up :: "int \<Rightarrow> int \<Rightarrow> int \<times> int" where
  "rem_up days r = (if r < 0 then rem_up (days - 1) (r + SECS_PER_DAY) else (days, r))"
  by pat_completeness auto
termination
  by (relation "measure (\<lambda>(d, r). nat (- r))") auto

function rem_down :: "int \<Rightarrow> int \<Rightarrow> int \<times> int" where
  "rem_down days r = (if r \<ge> SECS_PER_DAY then rem_down (days + 1) (r - SECS_PER_DAY) else (days, r))"
  by pat_completeness auto
termination
  by (relation "measure (\<lambda>(d, r). nat r)") auto

declare rem_up.simps [simp del] rem_down.simps [simp del]

text \<open>The search for the year, with a bound on the number of rounds.\<close>

fun year_loop :: "nat \<Rightarrow> int \<Rightarrow> int \<Rightarrow> (int \<times> int) cres" where
  "year_loop 0 days y = Inl NoReturn"
| "year_loop (Suc fuel) days y =
     (if days < 0 \<or> days \<ge> (if isleap y then 366 else 365) then
        let yg = y + days sdiv 365 - (if days smod 365 < 0 then 1 else 0);
            days' = days - ((yg - y) * 365 + LEAPS_THRU_END_OF (yg - 1) - LEAPS_THRU_END_OF (y - 1))
        in year_loop fuel days' yg
      else Inr (days, y))"

text \<open>\<open>for (y = 11; days < ip[y]; --y)\<close>, reading the table with checked access.\<close>

function month_loop :: "int list \<Rightarrow> int \<Rightarrow> int \<Rightarrow> int cres" where
  "month_loop ip days y = bindR (getR ip y) (\<lambda>x. if days < x then month_loop ip days (y - 1) else Inr y)"
  by pat_completeness auto
termination
  by (relation "measure (\<lambda>(ip, d, y). nat (y + 1))") (auto simp: getR_def split: if_splits)

declare month_loop.simps [simp del]

text \<open>The result \<open>None\<close> is the overflow of \<open>tm_year\<close>.\<close>

definition offtime :: "int \<Rightarrow> int \<Rightarrow> tm option cres" where
  "offtime t offset =
     (case rem_up (t sdiv SECS_PER_DAY) (t smod SECS_PER_DAY + offset) of (d0, r0) \<Rightarrow>
      case rem_down d0 r0 of (days, r) \<Rightarrow>
      let wday = (4 + days) smod 7
      in bindR (year_loop (nat \<bar>days\<bar> + 3) days 1970) (\<lambda>(yday, y).
         if \<not> (- (2 ^ 31) \<le> y - 1900 \<and> y - 1900 < 2 ^ 31) then Inr None
         else
           let ip = mon_yday ! (if isleap y then 1 else 0)
           in bindR (month_loop ip yday 11) (\<lambda>mon.
              bindR (getR ip mon) (\<lambda>first.
              Inr (Some \<lparr>tm_sec = (r smod SECS_PER_HOUR) smod 60, tm_min = (r smod SECS_PER_HOUR) sdiv 60,
                 tm_hour = r sdiv SECS_PER_HOUR, tm_mday = yday - first + 1, tm_mon = mon, tm_year = y - 1900,
                 tm_wday = (if wday < 0 then wday + 7 else wday), tm_yday = yday\<rparr>)))))"

section \<open>Formatting\<close>

text \<open>
  The directives of the program's formats: a plain character, \<^verbatim>\<open>%Y\<close>, \<^verbatim>\<open>%m\<close>, \<^verbatim>\<open>%d\<close>.  The result
  of \<open>strftime\<close> is what it wrote and whether it got to the end; otherwise it
  returns 0 without the terminating NUL.
\<close>

datatype directive = Plain char | Year | Month | Day

fun number_of :: "directive \<Rightarrow> tm \<Rightarrow> nat \<times> int" where
  "number_of Year f = (1, tm_year f + 1900)"
| "number_of Month f = (2, tm_mon f + 1)"
| "number_of Day f = (2, tm_mday f)"
| "number_of (Plain c) f = (0, 0)"

definition put_number :: "nat \<Rightarrow> nat \<Rightarrow> int \<Rightarrow> string \<Rightarrow> string \<times> bool" where
  "put_number maxsize digits v out =
     (let text = decimal (nat \<bar>v\<bar>);
          sign = (if v < 0 then ''-'' else []);
          padding = digits - length (sign @ text)
      in if padding > 0 then
           if digits \<ge> maxsize - length out then (out, False)
           else
             let out' = out @ sign @ replicate padding CHR ''0''
             in if length text \<ge> maxsize - length out' then (out', False) else (out' @ text, True)
         else if length (sign @ text) \<ge> maxsize - length out then (out, False)
         else (out @ sign @ text, True))"

fun strftime_loop :: "nat \<Rightarrow> directive list \<Rightarrow> tm \<Rightarrow> string \<Rightarrow> string \<times> bool" where
  "strftime_loop maxsize [] f out = (out, True)"
| "strftime_loop maxsize (d # fmt) f out =
     (case (case d of
              Plain c \<Rightarrow> if 1 \<ge> maxsize - length out then (out, False) else (out @ [c], True)
            | _ \<Rightarrow> (case number_of d f of (digits, v) \<Rightarrow> put_number maxsize digits v out))
      of (out', ok) \<Rightarrow> if ok then strftime_loop maxsize fmt f out' else (out', False))"

definition strftime :: "nat \<Rightarrow> directive list \<Rightarrow> tm \<Rightarrow> string \<times> bool" where
  "strftime maxsize fmt f = strftime_loop maxsize fmt f []"

definition dir_format :: "directive list" where
  "dir_format = [Year, Month, Day]"

definition date_format :: "directive list" where
  "date_format = [Year, Plain CHR ''-'', Month, Plain CHR ''-'', Day]"

section \<open>Years\<close>

lemma floor_div:
  fixes a b :: int
  assumes b: "0 < b"
  shows "a sdiv b - (if a smod b < 0 then 1 else 0) = a div b"
    and "a smod b = 0 \<longleftrightarrow> a mod b = 0"
    and "(if a smod b < 0 then a smod b + b else a smod b) = a mod b"
proof -
  define q m where "q = a sdiv b" and "m = a smod b"
  have e: "a = b * q + m" by (simp add: q_def m_def mult_sdiv_smod_eq)
  have "\<bar>m\<bar> < b" using b by (simp add: m_def signed_modulo_int_def abs_mult sgn_if)
  then have r: "- b < m" "m < b" by linarith+
  have neg: "m < 0 \<Longrightarrow> a = b * (q - 1) + (m + b)" using e by (simp add: algebra_simps)
  have "a div b = (if m < 0 then q - 1 else q)"
    using r int_div_pos_eq [OF e] int_div_pos_eq [OF neg] by (cases "m < 0") simp_all
  then show "a sdiv b - (if a smod b < 0 then 1 else 0) = a div b" by (simp flip: q_def m_def)
  have am: "a mod b = (if m < 0 then m + b else m)"
    using r int_mod_pos_eq [OF e] int_mod_pos_eq [OF neg] by (cases "m < 0") simp_all
  with r show "a smod b = 0 \<longleftrightarrow> a mod b = 0" by (auto simp flip: m_def)
  show "(if a smod b < 0 then a smod b + b else a smod b) = a mod b" using am by (simp flip: m_def)
qed

lemma sdiv_nonneg: "0 \<le> a \<Longrightarrow> 0 < b \<Longrightarrow> a sdiv b = a div b \<and> a smod b = (a mod b :: int)"
  by (auto simp: signed_divide_int_def signed_modulo_int_def sgn_if)

lemma isleap_dvd: "isleap y \<longleftrightarrow> 4 dvd y \<and> (\<not> 100 dvd y \<or> 400 dvd y)"
  by (simp add: isleap_def floor_div dvd_eq_mod_eq_0)

definition year_len :: "int \<Rightarrow> int" where
  "year_len y = (if isleap y then 366 else 365)"

text \<open>The number of days from the start of year 1 (less 365) to the start of year \<open>y\<close>.\<close>

definition days_before :: "int \<Rightarrow> int" where
  "days_before y = 365 * y + LEAPS_THRU_END_OF (y - 1)"

lemma LEAPS_eq: "LEAPS_THRU_END_OF y = y div 4 - y div 100 + y div 400"
  by (simp add: LEAPS_THRU_END_OF_def DIV_def floor_div)

lemma days_before_Suc: "days_before (y + 1) = days_before y + year_len y"
proof -
  have d: "y div n - (y - 1) div n = (if n dvd y then 1 else 0)" if "1 < n" for n :: int
  proof (cases "n dvd y")
    case True
    then obtain k where "y = n * k" by blast
    moreover have "(n * k - 1) div n = k - 1" using that int_div_pos_eq [of "n * k - 1" n "k - 1" "n - 1"]
      by (simp add: algebra_simps)
    ultimately show ?thesis using True that by simp
  next
    case False
    then have "0 < y mod n" using that by (simp add: dvd_eq_mod_eq_0 order.not_eq_order_implies_strict)
    moreover have "y - 1 = n * (y div n) + (y mod n - 1)" by simp
    moreover have "y mod n < n" using that by simp
    ultimately have "(y - 1) div n = y div n" using int_div_pos_eq [of "y - 1" n "y div n" "y mod n - 1"] by simp
    with False show ?thesis by simp
  qed
  have "4 dvd y" if "100 dvd y" by (rule dvd_trans [OF _ that]) simp
  moreover have "100 dvd y" if "400 dvd y" by (rule dvd_trans [OF _ that]) simp
  ultimately have "(if 4 dvd y then 1 else 0) - (if 100 dvd y then 1 else 0) + (if 400 dvd y then 1 else 0) =
      (if isleap y then 1 else (0 :: int))"
    unfolding isleap_dvd by (cases "4 dvd y"; cases "100 dvd y"; cases "400 dvd y"; simp only: if_True if_False simp_thms)
  then have "y div 4 - y div 100 + y div 400 =
      (y - 1) div 4 - (y - 1) div 100 + (y - 1) div 400 + (if isleap y then 1 else 0)"
    unfolding d [of 4, simplified, symmetric] d [of 100, simplified, symmetric] d [of 400, simplified, symmetric]
    by (simp only: algebra_simps)
  then have "LEAPS_THRU_END_OF y = LEAPS_THRU_END_OF (y - 1) + (if isleap y then 1 else 0)"
    unfolding LEAPS_eq .
  then show ?thesis by (simp add: days_before_def year_len_def)
qed

lemma year_len_bounds: "365 \<le> year_len y" "year_len y \<le> 366"
  by (simp_all add: year_len_def)

lemma days_before_diff:
  "a \<le> b \<Longrightarrow> 365 * (b - a) \<le> days_before b - days_before a \<and> days_before b - days_before a \<le> 366 * (b - a)"
proof (induction b rule: int_ge_induct)
  case (step b)
  then show ?case using days_before_Suc [of b] year_len_bounds [of b] by simp
qed simp

section \<open>The search for the year\<close>

lemma int_le_div_iff: "0 < n \<Longrightarrow> c \<le> x div n \<longleftrightarrow> c * n \<le> (x :: int)"
proof
  assume n: "0 < n" and c: "c \<le> x div n"
  from mult_right_mono [OF c, of n] n have "c * n \<le> x div n * n" by simp
  also have "\<dots> \<le> x" using n div_mult_mod_eq [of x n] pos_mod_sign [of n x] by linarith
  finally show "c * n \<le> x" .
next
  assume "0 < n" "c * n \<le> x"
  then show "c \<le> x div n" using zdiv_mono1 [of "c * n" x n] by simp
qed

text \<open>
  One round of the search keeps the day it looks for, and brings the year closer:
  \<open>Y\<close> is the year that contains day number \<open>n\<close>.
\<close>

lemma year_guess:
  assumes Y: "days_before Y \<le> n" "n < days_before (Y + 1)" and d: "days = n - days_before y"
  shows "y < Y \<Longrightarrow> Y \<le> y + days div 365" "y < Y \<Longrightarrow> y + days div 365 - Y \<le> (Y - y) div 365 + 1"
    "Y < y \<Longrightarrow> y + days div 365 \<le> Y" "Y < y \<Longrightarrow> Y - (y + days div 365) \<le> (y - Y) div 365 + 1"
proof -
  have len: "days_before (Y + 1) \<le> days_before Y + 366"
    using days_before_Suc [of Y] year_len_bounds [of Y] by simp
  show "Y \<le> y + days div 365" "y + days div 365 - Y \<le> (Y - y) div 365 + 1" if "y < Y"
  proof -
    define k q where "k = Y - y" and "q = (Y - y) div 365"
    have k: "365 * k \<le> days" "days < 366 * k + 366"
      using days_before_diff [of y Y] that Y d len by (auto simp: k_def)
    have "\<not> q + 1 \<le> k div 365" by (simp add: q_def k_def)
    then have "k < (q + 1) * 365" unfolding int_le_div_iff [of 365 "q + 1" k, simplified] by simp
    moreover have "k \<le> days div 365" using k(1) int_le_div_iff [of 365 k days] by simp
    moreover have "\<not> k + q + 2 \<le> days div 365"
      using k(2) int_le_div_iff [of 365 "k + q + 2" days] \<open>k < (q + 1) * 365\<close> by simp
    ultimately show "Y \<le> y + days div 365" "y + days div 365 - Y \<le> (Y - y) div 365 + 1"
      unfolding q_def k_def by linarith+
  qed
  show "y + days div 365 \<le> Y" "Y - (y + days div 365) \<le> (y - Y) div 365 + 1" if "Y < y"
  proof -
    define k q where "k = y - Y" and "q = (y - Y) div 365"
    have k: "- (366 * k) \<le> days" "days < - (365 * (k - 1))"
      using days_before_diff [of Y y] days_before_diff [of "Y + 1" y] that Y d by (auto simp: k_def)
    have "\<not> q + 1 \<le> k div 365" by (simp add: q_def k_def)
    then have "k < (q + 1) * 365" unfolding int_le_div_iff [of 365 "q + 1" k, simplified] by simp
    then have "- (k + q + 1) \<le> days div 365"
      using k(1) int_le_div_iff [of 365 "- (k + q + 1)" days] by simp
    moreover have "\<not> - k + 1 \<le> days div 365"
      using k(2) int_le_div_iff [of 365 "- k + 1" days] by simp
    ultimately show "y + days div 365 \<le> Y" "Y - (y + days div 365) \<le> (y - Y) div 365 + 1"
      unfolding q_def k_def by linarith+
  qed
qed

lemmas days_before_low = days_before_diff [THEN conjunct1]

lemma days_before_mono: "a \<le> b \<Longrightarrow> days_before a \<le> days_before b"
  using days_before_diff [of a b] by simp

lemma year_loop_round:
  assumes "days_before Y \<le> n" "n < days_before (Y + 1)" "y \<noteq> Y"
  shows "year_loop (Suc f) (n - days_before y) y =
    year_loop f (n - days_before (y + (n - days_before y) div 365)) (y + (n - days_before y) div 365)"
proof -
  have "days_before (y + 1) \<le> n \<or> n < days_before y"
    using assms days_before_mono [of "y + 1" Y] days_before_mono [of "Y + 1" y] by linarith
  then have c: "n - days_before y < 0 \<or> (if isleap y then 366 else 365) \<le> n - days_before y"
    using days_before_Suc [of y] by (auto simp: year_len_def)
  have "y + (n - days_before y) sdiv 365 - (if (n - days_before y) smod 365 < 0 then 1 else 0) =
      y + (n - days_before y) div 365"
    using floor_div(1) [of 365 "n - days_before y"] by simp
  with c show ?thesis by (simp add: Let_def days_before_def algebra_simps)
qed

lemma year_loop_exit:
  "days_before Y \<le> n \<Longrightarrow> n < days_before (Y + 1) \<Longrightarrow> year_loop (Suc f) (n - days_before Y) Y = Inr (n - days_before Y, Y)"
  using days_before_Suc [of Y] by (simp add: year_len_def split: if_splits)

lemma year_loop_near:
  assumes Y: "days_before Y \<le> n" "n < days_before (Y + 1)" and y: "\<bar>y - Y\<bar> \<le> 1"
  shows "year_loop (f + 3) (n - days_before y) y = Inr (n - days_before Y, Y)"
proof -
  let ?g = "\<lambda>y. y + (n - days_before y) div 365"
  have 3: "f + 3 = Suc (Suc (Suc f))" "Suc (Suc f) = Suc (Suc f)" by simp_all
  have S: "days_before (Y + 1) = days_before Y + year_len Y" "days_before Y = days_before (Y - 1) + year_len (Y - 1)"
    using days_before_Suc [of Y] days_before_Suc [of "Y - 1"] by simp_all
  note L = year_len_bounds [of Y] year_len_bounds [of "Y - 1"]
  define a b where "a = (n - days_before (Y - 1)) div 365" and "b = (n - days_before (Y + 1)) div 365"
  note I = int_le_div_iff [of 365, simplified]
  have a: "1 \<le> a" "a \<le> 2" and b: "-2 \<le> b" "b \<le> -1" and a2: "2 \<le> a \<longleftrightarrow> 730 \<le> n - days_before (Y - 1)"
    and b1: "-1 \<le> b \<longleftrightarrow> -365 \<le> n - days_before (Y + 1)"
    using I [of 1 "n - days_before (Y - 1)"] I [of 3 "n - days_before (Y - 1)"] I [of 2 "n - days_before (Y - 1)"]
      I [of "-2" "n - days_before (Y + 1)"] I [of "-1" "n - days_before (Y + 1)"] I [of 0 "n - days_before (Y + 1)"]
    unfolding a_def [symmetric] b_def [symmetric] using S L Y by simp_all
  have a': "a = 2 \<Longrightarrow> b = -1" using a2 b1 b S L by linarith
  have b': "b = -2 \<Longrightarrow> a = 1" using a2 b1 a Y S L by linarith
  note round = year_loop_round [OF Y]
  note out = year_loop_exit [OF Y]
  have low: "year_loop (Suc f) (n - days_before (Y - 1)) (Y - 1) = year_loop f (n - days_before (Y - 1 + a)) (Y - 1 + a)" for f
    unfolding a_def by (rule round) simp
  have high: "year_loop (Suc f) (n - days_before (Y + 1)) (Y + 1) = year_loop f (n - days_before (Y + 1 + b)) (Y + 1 + b)" for f
    unfolding b_def by (rule round) simp
  consider "y = Y" | "y = Y - 1" | "y = Y + 1" using y by linarith
  then show ?thesis
  proof cases
    case 1
    then show ?thesis using out unfolding 3(1) by simp
  next
    case 2
    have "Y - 1 + a = Y \<or> (Y - 1 + a = Y + 1 \<and> Y + 1 + b = Y)" using a a' by auto
    then show ?thesis using 2 out high unfolding 3(1) by (metis low)
  next
    case 3
    have "Y + 1 + b = Y \<or> (Y + 1 + b = Y - 1 \<and> Y - 1 + a = Y)" using b b' by auto
    then show ?thesis using 3 out low unfolding \<open>f + 3 = Suc (Suc (Suc f))\<close> by (metis high)
  qed
qed

lemma year_loop_finds:
  assumes Y: "days_before Y \<le> n" "n < days_before (Y + 1)" and f: "nat \<bar>y - Y\<bar> + 2 \<le> fuel" "3 \<le> fuel"
  shows "year_loop fuel (n - days_before y) y = Inr (n - days_before Y, Y)"
  using f
proof (induction fuel arbitrary: y rule: less_induct)
  case (less fuel)
  show ?case
  proof (cases "\<bar>y - Y\<bar> \<le> 1")
    case True
    then show ?thesis using year_loop_near [OF Y True, of "fuel - 3"] less.prems(2) by simp
  next
    case False
    then obtain f where fuel: "fuel = Suc f" "3 \<le> f" using less.prems by (cases fuel) auto
    let ?g = "y + (n - days_before y) div 365"
    have q: "k div 365 + 1 < k" if "2 \<le> k" for k :: int
      using that int_le_div_iff [of 365 "k - 1" k] by simp
    have "\<bar>?g - Y\<bar> < \<bar>y - Y\<bar>"
    proof (cases "y < Y")
      case True
      then show ?thesis using year_guess(1,2) [OF Y refl True] False q [of "Y - y"] by linarith
    next
      case ge: False
      then have "Y < y" using False by linarith
      then show ?thesis using year_guess(3,4) [OF Y refl \<open>Y < y\<close>] False q [of "y - Y"] by linarith
    qed
    then have "year_loop f (n - days_before ?g) ?g = Inr (n - days_before Y, Y)"
      using less.IH [of f ?g] less.prems fuel by simp
    then show ?thesis using year_loop_round [OF Y, of y f] False fuel by auto
  qed
qed

section \<open>The date and the time of day\<close>

lemma rem_up_spec: "rem_up d r = (d', r') \<Longrightarrow> d' * SECS_PER_DAY + r' = d * SECS_PER_DAY + r \<and> 0 \<le> r'"
  by (induction d r rule: rem_up.induct) (subst (asm) (2) rem_up.simps, auto split: if_splits)

lemma rem_down_spec:
  "rem_down d r = (d', r') \<Longrightarrow> 0 \<le> r \<Longrightarrow> d' * SECS_PER_DAY + r' = d * SECS_PER_DAY + r \<and> 0 \<le> r' \<and> r' < SECS_PER_DAY"
  by (induction d r rule: rem_down.induct) (subst (asm) (2) rem_down.simps, auto split: if_splits)

lemma month_loop_spec:
  assumes "j < length ip" "ip ! 0 \<le> days"
  shows "\<exists>m. month_loop ip days (int j) = Inr (int m) \<and> m \<le> j \<and> ip ! m \<le> days \<and>
    (\<forall>k. m < k \<and> k \<le> j \<longrightarrow> days < ip ! k)"
  using assms
proof (induction j)
  case 0
  then show ?case by (subst month_loop.simps) (auto simp: getR_def intro!: exI [of _ 0])
next
  case (Suc j)
  have g: "getR ip (int (Suc j)) = Inr (ip ! Suc j)" using Suc.prems by (subst getR_nat) simp
  have st: "month_loop ip days (int (Suc j)) =
      (if days < ip ! Suc j then month_loop ip days (int j) else Inr (int (Suc j)))"
    by (subst month_loop.simps, subst g) simp
  from Suc obtain m where m: "month_loop ip days (int j) = Inr (int m)" "m \<le> j" "ip ! m \<le> days"
    "\<forall>k. m < k \<and> k \<le> j \<longrightarrow> days < ip ! k" by auto
  show ?case
  proof (cases "days < ip ! Suc j")
    case True
    with m st show ?thesis by (intro exI [of _ m]) (auto simp: le_Suc_eq)
  next
    case False
    with st show ?thesis by (intro exI [of _ "Suc j"]) auto
  qed
qed

abbreviation month_table :: "int \<Rightarrow> int list" where
  "month_table y \<equiv> mon_yday ! (if isleap y then 1 else 0)"

text \<open>The days from 1 January 1970 to a date; months count from 0 and days of the month from 1.\<close>

definition day_number :: "int \<Rightarrow> int \<Rightarrow> int \<Rightarrow> int" where
  "day_number y mon mday = days_before y - days_before 1970 + month_table y ! nat mon + mday - 1"

definition valid_date :: "int \<Rightarrow> int \<Rightarrow> int \<Rightarrow> bool" where
  "valid_date y mon mday \<longleftrightarrow> 0 \<le> mon \<and> mon \<le> 11 \<and> 1 \<le> mday \<and>
     mday \<le> month_table y ! nat (mon + 1) - month_table y ! nat mon"

lemma month_table_ends: "month_table y ! 0 = 0" "month_table y ! 12 = year_len y" "length (month_table y) = 13"
  by (simp_all add: mon_yday_def year_len_def)

lemma year_exists: "\<exists>Y. days_before Y \<le> n \<and> n < days_before (Y + 1) \<and> \<bar>1970 - Y\<bar> \<le> \<bar>n - days_before 1970\<bar>"
proof -
  define D where "D = days_before 1970"
  obtain A where A: "A = \<bar>n - D\<bar>" "n - D \<le> A" "D - n \<le> A" "0 \<le> A" by auto
  define y0 m where "y0 = 1970 - A" and "m = 2 * nat A + 1"
  have lo: "days_before y0 \<le> n" using days_before_low [of y0 1970] A(2-4) by (simp add: y0_def flip: D_def)
  have hi: "n < days_before (y0 + int m)"
    using days_before_low [of 1970 "y0 + int m"] A(2-4) by (simp add: y0_def m_def flip: D_def)
  obtain k where k: "n < days_before (y0 + int k)" "\<And>j. j < k \<Longrightarrow> \<not> n < days_before (y0 + int j)"
    using exists_least_iff [of "\<lambda>k. n < days_before (y0 + int k)"] hi by blast
  with lo obtain j where j: "k = Suc j" by (cases k) auto
  define Y where "Y = y0 + int j"
  have Y: "days_before Y \<le> n" "n < days_before (Y + 1)"
    using k(1) k(2) [of j] by (simp_all add: Y_def j add.commute add.left_commute)
  have "\<bar>1970 - Y\<bar> \<le> A"
  proof (cases "1970 \<le> Y")
    case True
    then show ?thesis using days_before_low [OF True] Y(1) A(2-4) by (simp add: abs_le_iff flip: D_def)
  next
    case False
    then have "Y + 1 \<le> 1970" by simp
    from days_before_low [OF this] Y(2) A(2-4) False show ?thesis by (simp add: abs_le_iff flip: D_def)
  qed
  then have "\<bar>1970 - Y\<bar> \<le> \<bar>n - days_before 1970\<bar>" by (simp only: A(1) D_def)
  with Y show ?thesis by blast
qed

lemma offtime_spec:
  assumes t: "\<bar>t + offset\<bar> < 2 ^ 46"
  shows "\<exists>f. offtime t offset = Inr (Some f) \<and>
    valid_date (tm_year f + 1900) (tm_mon f) (tm_mday f) \<and>
    day_number (tm_year f + 1900) (tm_mon f) (tm_mday f) = (t + offset) div SECS_PER_DAY \<and>
    tm_yday f = (t + offset) div SECS_PER_DAY - day_number (tm_year f + 1900) 0 1 \<and>
    tm_hour f = (t + offset) mod SECS_PER_DAY div SECS_PER_HOUR \<and>
    tm_min f = (t + offset) mod SECS_PER_HOUR div 60 \<and> tm_sec f = (t + offset) mod 60 \<and>
    tm_wday f = ((t + offset) div SECS_PER_DAY + 4) mod 7"
proof -
  obtain d0 r0 where d0: "rem_up (t sdiv SECS_PER_DAY) (t smod SECS_PER_DAY + offset) = (d0, r0)" by fastforce
  obtain d r where d: "rem_down d0 r0 = (d, r)" by fastforce
  have s: "d * SECS_PER_DAY + r = t + offset" "0 \<le> r" "r < SECS_PER_DAY"
    using rem_up_spec [OF d0] rem_down_spec [OF d] mult_sdiv_smod_eq [of SECS_PER_DAY t] by auto
  have dr: "(t + offset) div SECS_PER_DAY = d" "(t + offset) mod SECS_PER_DAY = r"
    using s by (simp_all flip: s(1))
  obtain Y where Y: "days_before Y \<le> d + days_before 1970" "d + days_before 1970 < days_before (Y + 1)"
    "\<bar>1970 - Y\<bar> \<le> \<bar>d\<bar>" using year_exists [of "d + days_before 1970"] by auto
  define yday where "yday = d + days_before 1970 - days_before Y"
  have yl: "year_loop (nat \<bar>d\<bar> + 3) d 1970 = Inr (yday, Y)"
    using year_loop_finds [OF Y(1,2), of 1970 "nat \<bar>d\<bar> + 3"] Y(3) by (simp add: yday_def)
  have yr: "- (2 ^ 31) \<le> Y - 1900" "Y - 1900 < 2 ^ 31" 
  proof -
    have "- 1000000000 \<le> d" "d \<le> 1000000000" using s t by (simp_all add: abs_less_iff)
    then have "\<bar>d\<bar> \<le> 1000000000" by (simp add: abs_le_iff)
    with Y(3) have "\<bar>1970 - Y\<bar> \<le> 1000000000" by (rule order_trans)
    then show "- (2 ^ 31) \<le> Y - 1900" "Y - 1900 < 2 ^ 31" by (simp_all add: abs_le_iff)
  qed
  have yd: "0 \<le> yday" "yday < year_len Y" using Y days_before_Suc [of Y] by (simp_all add: yday_def)
  obtain m where m: "month_loop (month_table Y) yday 11 = Inr (int m)" "m \<le> 11" "month_table Y ! m \<le> yday"
    "\<forall>k. m < k \<and> k \<le> 11 \<longrightarrow> yday < month_table Y ! k"
    using month_loop_spec [of 11 "month_table Y" yday, simplified] yd month_table_ends [of Y] by auto
  have next_month: "yday < month_table Y ! Suc m"
    using m(2,4) yd month_table_ends(2) [of Y] by (cases "m = 11") auto
  have g: "getR (month_table Y) (int m) = Inr (month_table Y ! m)"
    using m(2) month_table_ends(3) [of Y] by (subst getR_nat) simp
  let ?f = "\<lparr>tm_sec = r mod SECS_PER_HOUR mod 60, tm_min = r mod SECS_PER_HOUR div 60, tm_hour = r div SECS_PER_HOUR,
    tm_mday = yday - month_table Y ! m + 1, tm_mon = int m, tm_year = Y - 1900, tm_wday = (4 + d) mod 7, tm_yday = yday\<rparr>"
  have lens: "length (mon_yday ! Suc 0) = 13" "length (mon_yday ! 0) = 13" by (simp_all add: mon_yday_def)
  have "offtime t offset = Inr (Some ?f)"
    using yr floor_div(3) [of 7 "4 + d"] s(2) m(2)
    by (simp add: lens offtime_def d0 d yl m(1) g Let_def sdiv_nonneg del: power_numeral)
  moreover have v: "valid_date Y (int m) (yday - month_table Y ! m + 1)"
    using m(2,3) next_month by (simp add: valid_date_def nat_add_distrib)
  moreover have n: "day_number Y (int m) (yday - month_table Y ! m + 1) = d" "yday = d - day_number Y 0 1"
    by (simp_all add: day_number_def yday_def month_table_ends)
  moreover have h: "r mod SECS_PER_HOUR = (t + offset) mod SECS_PER_HOUR" "r mod SECS_PER_HOUR mod 60 = (t + offset) mod 60"
    unfolding dr(2) [symmetric] by (simp_all add: mod_mod_cancel)
  ultimately show ?thesis
    unfolding dr by (intro exI [of _ ?f] conjI) (simp_all only: tm.select_convs diff_add_cancel add.commute [of 4 d])
qed

text \<open>
  C20. \<open>localtime\<close> (\<open>__offtime\<close>) terminates and does not fault for every time within
  two million years of 1970.  Its fields are a valid date of the proleptic Gregorian
  calendar whose distance from 1 January 1970 is exactly the number of whole days
  elapsed, the time of day within that day, the weekday and the day of the year.
\<close>

theorem offtime_date:
  assumes "\<bar>t + offset\<bar> < 2 ^ 46"
  shows "\<exists>f. offtime t offset = Inr (Some f) \<and>
    valid_date (tm_year f + 1900) (tm_mon f) (tm_mday f) \<and>
    (t + offset) = ((day_number (tm_year f + 1900) (tm_mon f) (tm_mday f) * 24 + tm_hour f) * 60 + tm_min f) * 60 + tm_sec f \<and>
    0 \<le> tm_hour f \<and> tm_hour f < 24 \<and> 0 \<le> tm_min f \<and> tm_min f < 60 \<and> 0 \<le> tm_sec f \<and> tm_sec f < 60 \<and>
    tm_wday f = (day_number (tm_year f + 1900) (tm_mon f) (tm_mday f) + 4) mod 7 \<and>
    tm_yday f = day_number (tm_year f + 1900) (tm_mon f) (tm_mday f) - day_number (tm_year f + 1900) 0 1"
proof -
  define u where "u = t + offset"
  have w: "u = u div SECS_PER_DAY * SECS_PER_DAY + u mod SECS_PER_DAY" by simp
  have h: "u mod SECS_PER_DAY = u mod SECS_PER_DAY div SECS_PER_HOUR * SECS_PER_HOUR + u mod SECS_PER_HOUR"
    using div_mult_mod_eq [of "u mod SECS_PER_DAY" SECS_PER_HOUR] by (simp add: mod_mod_cancel)
  have m: "u mod SECS_PER_HOUR = u mod SECS_PER_HOUR div 60 * 60 + u mod 60"
    using div_mult_mod_eq [of "u mod SECS_PER_HOUR" 60] by (simp add: mod_mod_cancel)
  obtain D H M S V W where o: "D = u div SECS_PER_DAY" "H = u mod SECS_PER_DAY div SECS_PER_HOUR"
    "M = u mod SECS_PER_HOUR div 60" "S = u mod 60" "V = u mod SECS_PER_HOUR" "W = u mod SECS_PER_DAY" by blast
  have whm: "u = D * SECS_PER_DAY + W" "W = H * SECS_PER_HOUR + V" "V = M * 60 + S"
    unfolding o using w h m by - assumption+
  have b: "W < SECS_PER_DAY" "0 \<le> V" "V < SECS_PER_HOUR" "0 \<le> S" "S < 60" "0 \<le> H" "0 \<le> M"
    by (simp_all add: o pos_imp_zdiv_nonneg_iff)
  have e: "u = ((D * 24 + H) * 60 + M) * 60 + S" using whm by simp
  have r: "H < 24" "M < 60" using whm b by linarith+
  from offtime_spec [OF assms] obtain f where "offtime t offset = Inr (Some f)"
    "valid_date (tm_year f + 1900) (tm_mon f) (tm_mday f)" "day_number (tm_year f + 1900) (tm_mon f) (tm_mday f) = D"
    "tm_yday f = D - day_number (tm_year f + 1900) 0 1" "tm_hour f = H" "tm_min f = M" "tm_sec f = S"
    "tm_wday f = (D + 4) mod 7" unfolding u_def [symmetric] o by blast
  with e r b show ?thesis unfolding u_def [symmetric] by (intro exI [of _ f]) simp
qed

theorem offtime_date_witness:
  "\<exists>f. offtime 1667900000 28800 = Inr (Some f) \<and> valid_date (tm_year f + 1900) (tm_mon f) (tm_mday f) \<and> tm_hour f < 24"
  using offtime_date [of 1667900000 28800] by auto

section \<open>Dates as text\<close>

definition two_digits :: "nat \<Rightarrow> string" where
  "two_digits v = (if v < 10 then ''0'' else []) @ decimal v"

lemma decimal_length_exact: "10 ^ k \<le> v \<Longrightarrow> v < 10 ^ Suc k \<Longrightarrow> length (decimal v) = Suc k"
proof (induction k arbitrary: v)
  case 0
  then show ?case by (subst decimal_rec) simp
next
  case (Suc k)
  then have "10 ^ k \<le> v div 10" "v div 10 < 10 ^ Suc k"
    by (simp_all add: less_eq_div_iff_mult_less_eq mult.commute less_mult_imp_div_less)
  then have "length (decimal (v div 10)) = Suc k" by (rule Suc.IH)
  moreover have "\<not> v < 10"
  proof -
    have "(10 :: nat) * 1 \<le> 10 * 10 ^ k" by (rule mult_le_mono) (simp_all add: one_le_power)
    with Suc.prems(1) show ?thesis unfolding power_Suc by linarith
  qed
  ultimately show ?case by (subst decimal_rec) simp
qed

lemma length_two_digits: "v < 100 \<Longrightarrow> length (two_digits v) = 2"
  using decimal_length_exact [of 0 v] decimal_length_exact [of 1 v]
  by (cases "v = 0") (auto simp: two_digits_def not_less decimal_rec)

lemma two_digits_value: "numval 10 0 (two_digits v) = v"
proof -
  have "numval 10 0 (''0'' @ decimal v) = numval 10 0 (decimal v)"
    by (simp add: digit_of_def isdigit_def uchar_def)
  then show ?thesis by (simp add: two_digits_def decimal_value)
qed

lemma two_digits_inject [simp]: "two_digits v = two_digits w \<longleftrightarrow> v = w"
  using two_digits_value by metis

lemma put_number_2:
  assumes "0 \<le> v" "v < 100" "length out + 3 \<le> maxsize"
  shows "put_number maxsize 2 v out = (out @ two_digits (nat v), True)"
proof (cases "v < 10")
  case True
  then have "length (decimal (nat v)) = 1" using assms(1) by (subst decimal_rec) simp
  with True assms show ?thesis by (auto simp: put_number_def two_digits_def Let_def)
next
  case False
  then have "length (decimal (nat v)) = 2" using assms decimal_length_exact [of 1 "nat v"] by (simp add: numeral_2_eq_2)
  with False assms show ?thesis by (auto simp: put_number_def two_digits_def Let_def)
qed

lemma put_number_year:
  assumes "1000 \<le> v" "v < 10000" "length out + 5 \<le> maxsize"
  shows "put_number maxsize 1 v out = (out @ decimal (nat v), True)" "length (decimal (nat v)) = 4"
proof -
  show l: "length (decimal (nat v)) = 4" using assms(1,2) decimal_length_exact [of 3 "nat v"] by simp
  with assms show "put_number maxsize 1 v out = (out @ decimal (nat v), True)" by (simp add: put_number_def Let_def)
qed

lemma valid_date_bounds: "valid_date y mon mday \<Longrightarrow> 0 \<le> mon \<and> mon < 12 \<and> 1 \<le> mday \<and> mday \<le> 31"
proof -
  assume v: "valid_date y mon mday"
  have "\<forall>ip \<in> set mon_yday. \<forall>m \<in> set [0..<12]. ip ! Suc m - ip ! m \<le> 31" by code_simp
  moreover have "month_table y \<in> set mon_yday" by (simp add: mon_yday_def)
  moreover have "nat mon \<in> set [0..<12]" "nat (mon + 1) = Suc (nat mon)" using v by (auto simp: valid_date_def)
  ultimately show ?thesis using v by (fastforce simp: valid_date_def)
qed

abbreviation four_digit_year :: "tm \<Rightarrow> bool" where
  "four_digit_year f \<equiv> 1000 \<le> tm_year f + 1900 \<and> tm_year f + 1900 < 10000"

abbreviation date_of :: "tm \<Rightarrow> int \<times> int \<times> int" where
  "date_of f \<equiv> (tm_year f + 1900, tm_mon f, tm_mday f)"

abbreviation valid_tm :: "tm \<Rightarrow> bool" where
  "valid_tm f \<equiv> valid_date (tm_year f + 1900) (tm_mon f) (tm_mday f)"

lemma strftime_dir:
  assumes "four_digit_year f" "valid_tm f"
  shows "strftime 11 dir_format f =
    (decimal (nat (tm_year f + 1900)) @ two_digits (nat (tm_mon f + 1)) @ two_digits (nat (tm_mday f)), True)"
proof -
  note b = valid_date_bounds [OF assms(2)]
  have y: "put_number 11 (Suc 0) (tm_year f + 1900) [] = (decimal (nat (tm_year f + 1900)), True)"
    and l: "length (decimal (nat (tm_year f + 1900))) = 4"
    using put_number_year [of "tm_year f + 1900" "[]" 11] assms(1) by simp_all
  have m: "length (two_digits (nat (tm_mon f + 1))) = 2" using b by (intro length_two_digits) auto
  show ?thesis using b l m by (simp add: strftime_def dir_format_def y put_number_2)
qed

lemma strftime_date:
  assumes "four_digit_year f" "valid_tm f"
  shows "strftime 11 date_format f =
    (decimal (nat (tm_year f + 1900)) @ ''-'' @ two_digits (nat (tm_mon f + 1)) @ ''-'' @ two_digits (nat (tm_mday f)), True)"
proof -
  note b = valid_date_bounds [OF assms(2)]
  have y: "put_number 11 (Suc 0) (tm_year f + 1900) [] = (decimal (nat (tm_year f + 1900)), True)"
    and l: "length (decimal (nat (tm_year f + 1900))) = 4"
    using put_number_year [of "tm_year f + 1900" "[]" 11] assms(1) by simp_all
  have m: "length (two_digits (nat (tm_mon f + 1))) = 2" using b by (intro length_two_digits) auto
  show ?thesis using b l m by (simp add: strftime_def date_format_def y put_number_2)
qed

lemma strftime_dir_inject:
  assumes "four_digit_year f" "valid_tm f" "four_digit_year g" "valid_tm g"
    and e: "fst (strftime 11 dir_format f) = fst (strftime 11 dir_format g)"
  shows "date_of f = date_of g"
proof -
  note b = valid_date_bounds [OF assms(2)] valid_date_bounds [OF assms(4)]
  have l: "length (decimal (nat (tm_year f + 1900))) = length (decimal (nat (tm_year g + 1900)))"
    using put_number_year(2) [of "tm_year f + 1900" "[]" 11] put_number_year(2) [of "tm_year g + 1900" "[]" 11] assms(1,3)
    by simp
  have m: "length (two_digits (nat (tm_mon f + 1))) = length (two_digits (nat (tm_mon g + 1)))"
  proof -
    have "nat (tm_mon f + 1) < 100" "nat (tm_mon g + 1) < 100" using b by auto
    then show ?thesis by (simp only: length_two_digits)
  qed
  from e have "decimal (nat (tm_year f + 1900)) = decimal (nat (tm_year g + 1900)) \<and>
      two_digits (nat (tm_mon f + 1)) = two_digits (nat (tm_mon g + 1)) \<and>
      two_digits (nat (tm_mday f)) = two_digits (nat (tm_mday g))"
    using l m by (simp add: strftime_dir [OF assms(1,2)] strftime_dir [OF assms(3,4)])
  with assms(1,3) b show ?thesis by auto
qed

text \<open>
  A time the program meets, from 1970 to 9999: \<open>localtime\<close> has a result, with a
  four-digit year, a valid date and a time of day.
\<close>

definition good_tm :: "tm \<Rightarrow> bool" where
  "good_tm f \<longleftrightarrow> four_digit_year f \<and> valid_tm f \<and> 0 \<le> tm_hour f \<and> tm_hour f < 24 \<and>
     0 \<le> tm_min f \<and> tm_min f < 60 \<and> 0 \<le> tm_sec f \<and> tm_sec f < 60"

lemma valid_date_day:
  assumes "valid_date y mon mday"
  shows "days_before y - days_before 1970 \<le> day_number y mon mday"
    and "day_number y mon mday < days_before (y + 1) - days_before 1970"
proof -
  have "\<forall>ip \<in> set mon_yday. \<forall>m \<in> set [0..<12]. 0 \<le> ip ! m \<and> ip ! Suc m \<le> ip ! 12" by code_simp
  moreover have "month_table y \<in> set mon_yday" by (simp add: mon_yday_def)
  moreover have "nat mon \<in> set [0..<12]" "nat (mon + 1) = Suc (nat mon)" using assms by (auto simp: valid_date_def)
  ultimately have "0 \<le> month_table y ! nat mon" "month_table y ! nat (mon + 1) \<le> month_table y ! 12" by simp_all
  then show "days_before y - days_before 1970 \<le> day_number y mon mday"
    and "day_number y mon mday < days_before (y + 1) - days_before 1970"
    using assms month_table_ends(2) [of y] days_before_Suc [of y] by (auto simp: valid_date_def day_number_def)
qed

lemma offtime_good:
  assumes "0 \<le> t + offset" "t + offset < 253402300800"
  shows "\<exists>f. offtime t offset = Inr (Some f) \<and> good_tm f \<and>
    day_number (tm_year f + 1900) (tm_mon f) (tm_mday f) = (t + offset) div SECS_PER_DAY"
proof -
  define u where "u = t + offset"
  have u: "0 \<le> u" "u < 253402300800" using assms by (simp_all add: u_def)
  then have "\<bar>t + offset\<bar> < 2 ^ 46" by (simp flip: u_def)
  from offtime_spec [OF this] obtain f where f: "offtime t offset = Inr (Some f)" "valid_tm f"
    "day_number (tm_year f + 1900) (tm_mon f) (tm_mday f) = u div SECS_PER_DAY"
    and h: "tm_hour f = u mod SECS_PER_DAY div SECS_PER_HOUR" "tm_min f = u mod SECS_PER_HOUR div 60" "tm_sec f = u mod 60"
    unfolding u_def [symmetric] by blast
  define D where "D = u div SECS_PER_DAY"
  have D: "0 \<le> D" "D < 2932897"
    using u int_le_div_iff [of SECS_PER_DAY 2932897 u] by (simp_all add: D_def pos_imp_zdiv_nonneg_iff)
  have e: "days_before 10000 - days_before 1970 = 2932897" by (simp add: days_before_def LEAPS_THRU_END_OF_def DIV_def)
  note v = valid_date_day [OF f(2), unfolded f(3) D_def [symmetric]]
  have "\<not> tm_year f + 1900 < 1970" using days_before_mono [of "tm_year f + 1900 + 1" 1970] v(2) D(1) by auto
  moreover have "\<not> 10000 \<le> tm_year f + 1900" using days_before_mono [of 10000 "tm_year f + 1900"] v(1) D(2) e by auto
  moreover have "tm_hour f < 24" "tm_min f < 60"
    using int_le_div_iff [of SECS_PER_HOUR 24 "u mod SECS_PER_DAY"] int_le_div_iff [of 60 60 "u mod SECS_PER_HOUR"]
    by (simp_all add: h not_le [symmetric])
  moreover have "0 \<le> tm_hour f" "0 \<le> tm_min f" "0 \<le> tm_sec f" "tm_sec f < 60"
    by (simp_all add: h pos_imp_zdiv_nonneg_iff)
  ultimately show ?thesis using f unfolding u_def [symmetric] by (auto simp: good_tm_def)
qed

end
