(* ===== verification/Stdio.thy ===== *)
theory Stdio
  imports CString
begin

text \<open>
  Buffered line input of the bundled C library: \<open>fgets\<close> and \<open>_IO_getline_info\<close>
  (\<^verbatim>\<open>glibc-2.27/libio/iofgets.c\<close>, \<^verbatim>\<open>iogetline.c\<close>) on a stream that reads a regular
  file through a buffer of \<open>bufsiz\<close> bytes.  The text still to be read is
  \<open>unread\<close>: what is left in the buffer, then what is left in the file.  The main
  result is that the line returned does not depend on where the buffer
  boundaries fall.  Read errors are not modelled: a stream delivers the bytes
  of its file and then end of file.
\<close>

record IO_FILE =
  contents :: "char list"
  kpos :: nat
  rbuf :: "char list"
  bufsiz :: nat

definition unread :: "IO_FILE \<Rightarrow> char list" where
  "unread fp = rbuf fp @ drop (kpos fp) (contents fp)"

definition fopen_r :: "nat \<Rightarrow> char list \<Rightarrow> IO_FILE" where
  "fopen_r bs text = \<lparr>contents = text, kpos = 0, rbuf = [], bufsiz = bs\<rparr>"

text \<open>\<open>fseek(file, 0, SEEK_SET)\<close> drops the buffer and moves to the start.\<close>

definition fseek_start :: "IO_FILE \<Rightarrow> IO_FILE" where
  "fseek_start fp = fp\<lparr>kpos := 0, rbuf := []\<rparr>"

text \<open>\<open>__uflow\<close> on an empty buffer: refill it from the file and take one character.\<close>

definition uflow :: "IO_FILE \<Rightarrow> char option \<times> IO_FILE" where
  "uflow fp =
     (let chunk = take (bufsiz fp) (drop (kpos fp) (contents fp))
      in case chunk of [] \<Rightarrow> (None, fp)
         | c # cs \<Rightarrow> (Some c, fp\<lparr>rbuf := cs, kpos := kpos fp + length chunk\<rparr>))"

fun memchr :: "'a list \<Rightarrow> 'a \<Rightarrow> nat \<Rightarrow> nat option" where
  "memchr [] c n = None"
| "memchr (x # xs) c 0 = None"
| "memchr (x # xs) c (Suc n) = (if x = c then Some 0 else map_option Suc (memchr xs c n))"

function IO_getline_info ::
    "IO_FILE \<Rightarrow> char list \<Rightarrow> nat \<Rightarrow> char \<Rightarrow> int \<Rightarrow> char list \<times> IO_FILE" where
  "IO_getline_info fp buf n delim extract_delim =
     (if n = 0 then (buf, fp)
      else if rbuf fp = [] then
        (case uflow fp of
           (None, fp') \<Rightarrow> (buf, fp')
         | (Some c, fp') \<Rightarrow>
             if c = delim then
               if extract_delim > 0 then (buf @ [c], fp')
               else if extract_delim < 0 then (buf, fp'\<lparr>rbuf := c # rbuf fp'\<rparr>)
               else (buf, fp')
             else IO_getline_info fp' (buf @ [c]) (n - 1) delim extract_delim)
      else
        (let len = min (length (rbuf fp)) n
         in case memchr (rbuf fp) delim len of
              Some k \<Rightarrow>
                (let t = (if extract_delim \<ge> 0 then k + 1 else k);
                     len = (if extract_delim > 0 then k + 1 else k)
                 in (buf @ take len (rbuf fp), fp\<lparr>rbuf := drop t (rbuf fp)\<rparr>))
            | None \<Rightarrow>
                IO_getline_info (fp\<lparr>rbuf := drop len (rbuf fp)\<rparr>) (buf @ take len (rbuf fp))
                  (n - len) delim extract_delim))"
  by pat_completeness auto
termination
  by (relation "measure (\<lambda>(fp, buf, n, d, e). n)") (auto simp: min_def)

declare IO_getline_info.simps [simp del]

definition fgets :: "int \<Rightarrow> IO_FILE \<Rightarrow> char list option \<times> IO_FILE" where
  "fgets n fp =
     (if n \<le> 0 then (None, fp)
      else if n = 1 then (Some [], fp)
      else case IO_getline_info fp [] (nat (n - 1)) NL 1 of
        (l, fp') \<Rightarrow> if length l = 0 then (None, fp') else (Some l, fp'))"

section \<open>The line a stream delivers\<close>

text \<open>The first line of a text, with its newline if it has one.\<close>

fun first_line :: "char list \<Rightarrow> char list" where
  "first_line [] = []"
| "first_line (c # cs) = (if c = NL then [c] else c # first_line cs)"

lemma first_line_Nil_iff [simp]: "first_line t = [] \<longleftrightarrow> t = []"
  by (cases t) auto

lemma first_line_prefix: "take (length (first_line t)) t = first_line t"
  by (induction t) auto

lemma first_line_append_newline:
  "NL \<notin> set l \<Longrightarrow> first_line (l @ NL # r) = l @ [NL]"
  by (induction l) auto

lemma first_line_no_newline: "NL \<notin> set l \<Longrightarrow> first_line l = l"
  by (induction l) auto

lemma first_line_append: "NL \<notin> set l \<Longrightarrow> first_line (l @ r) = l @ first_line r"
  by (induction l) auto

lemma memchr_None_iff: "memchr xs c n = None \<longleftrightarrow> c \<notin> set (take n xs)"
  by (induction xs c n rule: memchr.induct) auto

lemma memchr_Some_iff:
  "memchr xs c n = Some k \<longleftrightarrow> k < n \<and> k < length xs \<and> xs ! k = c \<and> c \<notin> set (take k xs)"
proof (induction xs c n arbitrary: k rule: memchr.induct)
  case (3 x xs c n)
  then show ?case by (cases k) auto
qed auto

lemma uflow_None: "uflow fp = (None, fp') \<Longrightarrow> 0 < bufsiz fp \<Longrightarrow> rbuf fp = [] \<Longrightarrow> unread fp = [] \<and> fp' = fp"
  by (auto simp: uflow_def unread_def Let_def split: list.splits)

lemma uflow_Some:
  assumes "uflow fp = (Some c, fp')" and "rbuf fp = []"
  shows "unread fp = c # unread fp' \<and> contents fp' = contents fp \<and> bufsiz fp' = bufsiz fp"
proof -
  let ?r = "drop (kpos fp) (contents fp)"
  from assms(1) obtain cs where ch: "take (bufsiz fp) ?r = c # cs"
    and fp': "fp' = fp\<lparr>rbuf := cs, kpos := kpos fp + Suc (length cs)\<rparr>"
    by (auto simp: uflow_def Let_def split: list.splits)
  from ch have "length (take (bufsiz fp) ?r) = Suc (length cs)" by simp
  then have "drop (bufsiz fp) ?r = drop (Suc (length cs)) ?r"
    by (cases "bufsiz fp \<le> length ?r") auto
  then have "?r = c # cs @ drop (Suc (length cs)) ?r"
    using ch append_take_drop_id [of "bufsiz fp" ?r] by simp
  then show ?thesis using assms(2) by (simp add: fp' unread_def add.commute)
qed

text \<open>One pass of the reading loop, by the state of the buffer.\<close>

lemma getline_done: "IO_getline_info fp buf 0 d e = (buf, fp)"
  by (simp add: IO_getline_info.simps)

lemma getline_eof:
  "n \<noteq> 0 \<Longrightarrow> rbuf fp = [] \<Longrightarrow> uflow fp = (None, fp1) \<Longrightarrow> IO_getline_info fp buf n d e = (buf, fp1)"
  by (subst IO_getline_info.simps) simp

lemma getline_refill:
  "n \<noteq> 0 \<Longrightarrow> rbuf fp = [] \<Longrightarrow> uflow fp = (Some c, fp1) \<Longrightarrow>
   IO_getline_info fp buf n d 1 =
     (if c = d then (buf @ [c], fp1) else IO_getline_info fp1 (buf @ [c]) (n - 1) d 1)"
  by (subst IO_getline_info.simps) simp

lemma getline_found:
  "n \<noteq> 0 \<Longrightarrow> rbuf fp \<noteq> [] \<Longrightarrow> memchr (rbuf fp) d (min (length (rbuf fp)) n) = Some k \<Longrightarrow>
   IO_getline_info fp buf n d 1 = (buf @ take (Suc k) (rbuf fp), fp\<lparr>rbuf := drop (Suc k) (rbuf fp)\<rparr>)"
  by (subst IO_getline_info.simps) (simp add: Let_def)

lemma getline_more:
  "n \<noteq> 0 \<Longrightarrow> rbuf fp \<noteq> [] \<Longrightarrow> len = min (length (rbuf fp)) n \<Longrightarrow> memchr (rbuf fp) d len = None \<Longrightarrow>
   IO_getline_info fp buf n d e =
     IO_getline_info (fp\<lparr>rbuf := drop len (rbuf fp)\<rparr>) (buf @ take len (rbuf fp)) (n - len) d e"
  by (subst IO_getline_info.simps) (simp add: Let_def)

text \<open>
  Reading with the delimiter extracted, as \<open>fgets\<close> does: the result is the first
  line of the unread text, cut at \<open>n\<close> characters, however the text is split
  between buffer and file.
\<close>

definition line_step :: "IO_FILE \<Rightarrow> char list \<Rightarrow> nat \<Rightarrow> char list \<times> IO_FILE \<Rightarrow> bool" where
  "line_step fp buf n r \<longleftrightarrow>
     fst r = buf @ take n (first_line (unread fp)) \<and>
     unread (snd r) = drop (length (take n (first_line (unread fp)))) (unread fp) \<and>
     contents (snd r) = contents fp \<and> bufsiz (snd r) = bufsiz fp"

lemma line_step_refill:
  assumes "unread fp = c # unread fp1" "contents fp1 = contents fp" "bufsiz fp1 = bufsiz fp"
    and "c \<noteq> NL" and "n \<noteq> 0" and "line_step fp1 (buf @ [c]) (n - 1) r"
  shows "line_step fp buf n r"
  using assms by (cases n) (auto simp: line_step_def)

lemma line_step_more:
  assumes nl: "NL \<notin> set (take len (rbuf fp))" and le: "len \<le> n" "len \<le> length (rbuf fp)"
    and r: "line_step (fp\<lparr>rbuf := drop len (rbuf fp)\<rparr>) (buf @ take len (rbuf fp)) (n - len) r"
  shows "line_step fp buf n r"
proof -
  define A where "A = take len (rbuf fp)"
  define T where "T = drop len (rbuf fp) @ drop (kpos fp) (contents fp)"
  have lA: "length A = len" using le by (simp add: A_def)
  have u: "unread fp = A @ T"
    by (simp add: unread_def A_def T_def flip: append_assoc)
  have u1: "unread (fp\<lparr>rbuf := drop len (rbuf fp)\<rparr>) = T"
    by (simp add: unread_def T_def)
  have "first_line (unread fp) = A @ first_line T"
    unfolding u A_def by (rule first_line_append [OF nl])
  then have t: "take n (first_line (unread fp)) = A @ take (n - len) (first_line T)"
    using le by (simp add: lA)
  from r show ?thesis
    unfolding line_step_def u1 t A_def [symmetric] by (simp add: u lA)
qed

lemma line_step_found:
  assumes k: "k < n" "k < length (rbuf fp)" "rbuf fp ! k = NL" "NL \<notin> set (take k (rbuf fp))"
  shows "line_step fp buf n (buf @ take (Suc k) (rbuf fp), fp\<lparr>rbuf := drop (Suc k) (rbuf fp)\<rparr>)"
proof -
  have t: "take (Suc k) (rbuf fp) = take k (rbuf fp) @ [NL]"
    using k by (simp add: take_Suc_conv_app_nth)
  have "rbuf fp = take k (rbuf fp) @ NL # drop (Suc k) (rbuf fp)"
    using k id_take_nth_drop [of k "rbuf fp"] by simp
  then have "unread fp = take k (rbuf fp) @ NL # (drop (Suc k) (rbuf fp) @ drop (kpos fp) (contents fp))"
    unfolding unread_def by (metis append.assoc append_Cons)
  moreover from this have "first_line (unread fp) = take k (rbuf fp) @ [NL]"
    using k by (simp add: first_line_append_newline)
  ultimately show ?thesis
    using k unfolding line_step_def t by (simp add: unread_def)
qed

lemma IO_getline_info_spec:
  "0 < bufsiz fp \<Longrightarrow> d = NL \<Longrightarrow> e = 1 \<Longrightarrow> line_step fp buf n (IO_getline_info fp buf n d e)"
proof (induction fp buf n d e rule: IO_getline_info.induct)
  case (1 fp buf n d e)
  note d = \<open>d = NL\<close> and e = \<open>e = 1\<close> and bs = \<open>0 < bufsiz fp\<close>
  define len where "len = min (length (rbuf fp)) n"
  consider (stop) "n = 0"
    | (eof) fp1 where "n \<noteq> 0" "rbuf fp = []" "uflow fp = (None, fp1)"
    | (char) c fp1 where "n \<noteq> 0" "rbuf fp = []" "uflow fp = (Some c, fp1)"
    | (found) k where "n \<noteq> 0" "rbuf fp \<noteq> []" "memchr (rbuf fp) NL len = Some k"
    | (more) "n \<noteq> 0" "rbuf fp \<noteq> []" "memchr (rbuf fp) NL len = None"
    by (metis option.exhaust prod.exhaust)
  then show ?case
  proof cases
    case stop
    then show ?thesis by (simp add: getline_done line_step_def)
  next
    case eof
    with bs have "unread fp = []" "fp1 = fp" by (auto dest: uflow_None)
    then show ?thesis using getline_eof [OF eof] by (simp add: line_step_def)
  next
    case char
    from uflow_Some [OF char(3,2)]
    have u: "unread fp = c # unread fp1" "contents fp1 = contents fp" "bufsiz fp1 = bufsiz fp"
      by auto
    show ?thesis
    proof (cases "c = NL")
      case True
      then show ?thesis using getline_refill [OF char] u char(1)
        by (cases n) (simp_all add: d e line_step_def)
    next
      case False
      then have "line_step fp1 (buf @ [c]) (n - 1) (IO_getline_info fp1 (buf @ [c]) (n - 1) d e)"
        using 1 char u(3) by simp
      then show ?thesis using getline_refill [OF char] line_step_refill [OF u False char(1)] False
        by (simp add: d e)
    qed
  next
    case found
    then have "k < n" "k < length (rbuf fp)" "rbuf fp ! k = NL" "NL \<notin> set (take k (rbuf fp))"
      by (simp_all add: memchr_Some_iff len_def)
    then show ?thesis using getline_found [OF found [unfolded len_def]] line_step_found
      by (simp add: d e)
  next
    case more
    then have "line_step (fp\<lparr>rbuf := drop len (rbuf fp)\<rparr>) (buf @ take len (rbuf fp)) (n - len)
        (IO_getline_info (fp\<lparr>rbuf := drop len (rbuf fp)\<rparr>) (buf @ take len (rbuf fp)) (n - len) d e)"
      using 1 by (simp add: len_def)
    moreover have "NL \<notin> set (take len (rbuf fp))"
      using more by (simp add: memchr_None_iff)
    ultimately show ?thesis
      using getline_more [OF more(1,2) len_def more(3)] line_step_more [of len fp n]
      by (simp add: d e len_def)
  qed
qed

text \<open>Nothing is lost or duplicated: the characters returned are those consumed.\<close>

lemma IO_getline_info_conserve:
  "e = 1 \<Longrightarrow> IO_getline_info fp buf n d e = (l, fp') \<Longrightarrow> buf @ unread fp = l @ unread fp'"
proof (induction fp buf n d e arbitrary: l fp' rule: IO_getline_info.induct)
  case (1 fp buf n d e)
  define len where "len = min (length (rbuf fp)) n"
  consider (stop) "n = 0"
    | (eof) fp1 where "n \<noteq> 0" "rbuf fp = []" "uflow fp = (None, fp1)"
    | (char) c fp1 where "n \<noteq> 0" "rbuf fp = []" "uflow fp = (Some c, fp1)"
    | (found) k where "n \<noteq> 0" "rbuf fp \<noteq> []" "memchr (rbuf fp) d len = Some k"
    | (more) "n \<noteq> 0" "rbuf fp \<noteq> []" "memchr (rbuf fp) d len = None"
    by (metis option.exhaust prod.exhaust)
  then show ?case
  proof cases
    case stop
    with 1 show ?thesis by (simp add: getline_done)
  next
    case eof
    then have "fp1 = fp" by (auto simp: uflow_def Let_def split: list.splits)
    with 1(4) getline_eof [OF eof] show ?thesis by simp
  next
    case char
    from uflow_Some [OF char(3,2)] have "unread fp = c # unread fp1" by simp
    moreover have "(buf @ [c]) @ unread fp1 = l @ unread fp'" if "c \<noteq> d"
      using 1(1) [OF char(1,2) char(3) [symmetric] refl that 1(3)] getline_refill [OF char] 1(3,4) that
      by simp
    ultimately show ?thesis using getline_refill [OF char] 1(3,4) by (cases "c = d") auto
  next
    case found
    then show ?thesis
      using getline_found [OF found [unfolded len_def], of buf] 1(3,4)
      by (auto simp: unread_def)
  next
    case more
    then show ?thesis
      using 1(2) [OF more(1,2) len_def] getline_more [OF more(1,2) len_def more(3), of buf e] 1(3,4)
      by (fastforce simp: unread_def)
  qed
qed

lemma fgets_shorter:
  "fgets n fp = (Some l, fp') \<Longrightarrow> n \<noteq> 1 \<Longrightarrow> length (unread fp') < length (unread fp)"
proof -
  assume "fgets n fp = (Some l, fp')" and "n \<noteq> 1"
  then have g: "IO_getline_info fp [] (nat (n - 1)) NL 1 = (l, fp')" and "l \<noteq> []"
    by (auto simp: fgets_def split: if_splits prod.splits)
  from IO_getline_info_conserve [OF refl g] have "unread fp = l @ unread fp'" by simp
  with \<open>l \<noteq> []\<close> show ?thesis by simp
qed

lemma fgets_spec:
  assumes "0 < bufsiz fp" and "1 < n" and "fgets n fp = (r, fp')"
  shows "r = (if unread fp = [] then None else Some (take (nat (n - 1)) (first_line (unread fp))))"
    and "unread fp' = drop (length (take (nat (n - 1)) (first_line (unread fp)))) (unread fp)"
    and "contents fp' = contents fp" and "bufsiz fp' = bufsiz fp"
proof -
  obtain l fp1 where g: "IO_getline_info fp [] (nat (n - 1)) NL 1 = (l, fp1)"
    by (cases "IO_getline_info fp [] (nat (n - 1)) NL 1")
  have "line_step fp [] (nat (n - 1)) (l, fp1)"
    using IO_getline_info_spec [OF assms(1) refl refl, of "[]" "nat (n - 1)"] by (simp add: g)
  note s = this [unfolded line_step_def, simplified]
  have "fp' = fp1" and "r = (if l = [] then None else Some l)"
    using assms(2,3) g by (auto simp: fgets_def split: if_splits)
  with s assms(2) show
    "r = (if unread fp = [] then None else Some (take (nat (n - 1)) (first_line (unread fp))))"
    "unread fp' = drop (length (take (nat (n - 1)) (first_line (unread fp)))) (unread fp)"
    "contents fp' = contents fp" "bufsiz fp' = bufsiz fp"
    by auto
qed

end
