(* ===== verification/ConfigFile.thy ===== *)
theory ConfigFile
  imports Stdio
begin

text \<open>
  The configuration reader, \<^verbatim>\<open>src/ConfigFile.c\<close>.  A configuration file is read
  twice line by line (once to count the valid lines, once to copy them), and
  each copied line is cut at its first \<open>=\<close> into the fixed arrays \<^verbatim>\<open>key[64]\<close> and
  \<^verbatim>\<open>val[128]\<close> of a \<open>ConfigInfo\<close>.  The specification is \<open>entries\<close>, the list of pairs
  that a text describes; \<open>parse\<close> after \<open>load\<close> computes it, and \<open>getInfo_ConfigFile\<close> is
  \<open>map_of\<close> on it, for every text whose keys and values fit the arrays.
\<close>

definition BUFFERSIZE :: int where "BUFFERSIZE = 1024"

record ConfigInfo =
  key :: "char list"
  val :: "char list"

section \<open>The operations\<close>

definition isValid_ConfigFile :: "char list \<Rightarrow> bool cres" where
  "isValid_ConfigFile buf =
     (case buf of [] \<Rightarrow> Inl OutOfBounds
      | c # _ \<Rightarrow>
          if c = CHR ''#'' \<or> c = NL then Inr False
          else bindR (strchr buf CHR ''='') (\<lambda>p. Inr (p \<noteq> None)))"

function getLines_loop :: "IO_FILE \<Rightarrow> nat \<Rightarrow> (nat \<times> IO_FILE) cres" where
  "getLines_loop file lines =
     (case fgets BUFFERSIZE file of
        (None, file') \<Rightarrow> Inr (lines, file')
      | (Some l, file') \<Rightarrow>
          bindR (isValid_ConfigFile (l @ [NUL])) (\<lambda>ok.
            if \<not> ok then getLines_loop file' lines else getLines_loop file' (lines + 1)))"
  by pat_completeness auto
termination
  by (relation "measure (\<lambda>(f, n). length (unread f))") (auto simp: BUFFERSIZE_def intro!: fgets_shorter [OF sym])

definition getLines_ConfigFile :: "IO_FILE \<Rightarrow> (nat \<times> IO_FILE) cres" where
  "getLines_ConfigFile file =
     bindR (getLines_loop file 0) (\<lambda>(lines, file'). Inr (lines, fseek_start file'))"

text \<open>
  The second pass.  \<open>temp\<close> is the array of \<open>lines\<close> pointers, \<open>None\<close> where the pointer
  is not yet assigned.
\<close>

function loadFile_loop ::
    "IO_FILE \<Rightarrow> char list option list \<Rightarrow> nat \<Rightarrow> char list option list cres" where
  "loadFile_loop file temp index =
     (case fgets BUFFERSIZE file of
        (None, file') \<Rightarrow> Inr temp
      | (Some l, file') \<Rightarrow>
          bindR (isValid_ConfigFile (l @ [NUL])) (\<lambda>ok.
            if \<not> ok then loadFile_loop file' temp index
            else bindR (strlen (l @ [NUL])) (\<lambda>n.
                 bindR (strcpy (replicate (n + 1) NUL) 0 (l @ [NUL])) (\<lambda>s.
                 if index < length temp then loadFile_loop file' (temp[index := Some s]) (index + 1)
                 else Inl OutOfBounds))))"
  by pat_completeness auto
termination
  by (relation "measure (\<lambda>(f, t, n). length (unread f))") (auto simp: BUFFERSIZE_def intro!: fgets_shorter [OF sym])

declare getLines_loop.simps [simp del] loadFile_loop.simps [simp del]

definition EXIT_FAIL_CODE :: int where "EXIT_FAIL_CODE = -1"

definition loadFile_ConfigFile :: "IO_FILE option \<Rightarrow> (char list option list \<times> nat) cres" where
  "loadFile_ConfigFile fopened =
     (case fopened of
        None \<Rightarrow> Inl (Exit EXIT_FAIL_CODE)
      | Some file \<Rightarrow>
          bindR (getLines_ConfigFile file) (\<lambda>(lines, file').
          bindR (loadFile_loop file' (replicate lines None) 0) (\<lambda>temp.
          Inr (temp, lines))))"

definition parseLine :: "char list option \<Rightarrow> ConfigInfo cres" where
  "parseLine line =
     (case line of None \<Rightarrow> Inl Uninit
      | Some s \<Rightarrow>
          bindR (strchr s CHR ''='') (\<lambda>pos.
          case pos of None \<Rightarrow> Inl NullDeref
          | Some p \<Rightarrow>
              bindR (strncpy (replicate 64 NUL) 0 s p) (\<lambda>k.
              bindR (strlen s) (\<lambda>n.
              if n = 0 then Inl OutOfBounds
              else
                let flag = (if s ! (n - 1) = NL then 1 else 0)
                in bindR (strlen (drop (p + 1) s)) (\<lambda>m.
                   if m < flag then Inl OutOfBounds
                   else bindR (strncpy (replicate 128 NUL) 0 (drop (p + 1) s) (m - flag)) (\<lambda>v.
                        Inr \<lparr>key = k, val = v\<rparr>))))))"

definition parseFile_ConfigFile ::
    "char list option list \<Rightarrow> nat \<Rightarrow> (ConfigInfo list \<times> char list option list) cres" where
  "parseFile_ConfigFile fileData lines =
     (if lines \<le> length fileData
      then bindR (mapR parseLine (take lines fileData)) (\<lambda>myinfo.
           Inr (myinfo, replicate lines None @ drop lines fileData))
      else Inl OutOfBounds)"

fun getInfo_ConfigFile :: "char list \<Rightarrow> ConfigInfo list \<Rightarrow> char list option cres" where
  "getInfo_ConfigFile k [] = Inr None"
| "getInfo_ConfigFile k (i # info) =
     bindR (strcmp k (key i)) (\<lambda>r.
       if r = 0 then Inr (Some (val i)) else getInfo_ConfigFile k info)"

text \<open>The sequence every client of the component runs: load, then parse.\<close>

definition readConfig :: "IO_FILE option \<Rightarrow> ConfigInfo list cres" where
  "readConfig fopened =
     bindR (loadFile_ConfigFile fopened) (\<lambda>(fileData, lines).
     bindR (parseFile_ConfigFile fileData lines) (\<lambda>(info, _). Inr info))"

section \<open>Specification: the entries a text describes\<close>

text \<open>The pieces \<open>fgets\<close> cuts a text into: lines, and long lines every 1023 characters.\<close>

function pieces :: "char list \<Rightarrow> char list list" where
  "pieces t = (if t = [] then []
     else take 1023 (first_line t) # pieces (drop (length (take 1023 (first_line t))) t))"
  by pat_completeness auto
termination
  by (relation "measure length") (auto simp: neq_Nil_conv)

declare pieces.simps [simp del]

definition textOf :: "char list \<Rightarrow> string" where
  "textOf l = takeWhile (\<lambda>c. c \<noteq> NUL) l"

definition validLine :: "string \<Rightarrow> bool" where
  "validLine s \<longleftrightarrow> s \<noteq> [] \<and> hd s \<noteq> CHR ''#'' \<and> hd s \<noteq> NL \<and> CHR ''='' \<in> set s"

definition chomp :: "string \<Rightarrow> string" where
  "chomp v = (if v \<noteq> [] \<and> last v = NL then butlast v else v)"

definition splitEq :: "string \<Rightarrow> string \<times> string" where
  "splitEq s = (takeWhile (\<lambda>c. c \<noteq> CHR ''='') s, chomp (tl (dropWhile (\<lambda>c. c \<noteq> CHR ''='') s)))"

definition validLines :: "char list \<Rightarrow> string list" where
  "validLines t = filter validLine (map textOf (pieces t))"

definition entries :: "char list \<Rightarrow> (string \<times> string) list" where
  "entries t = map splitEq (validLines t)"

definition fits :: "string \<times> string \<Rightarrow> bool" where
  "fits kv \<longleftrightarrow> length (fst kv) < 64 \<and> length (snd kv) < 128"

section \<open>Reading the lines\<close>

lemma textOf_cstr: "cstr (l @ [NUL]) = Inr (textOf l)"
proof (cases "NUL \<in> set l")
  case True
  then show ?thesis by (simp add: cstr_def textOf_def takeWhile_append1)
next
  case False
  then show ?thesis by (simp add: textOf_def takeWhile_neq_id)
qed

lemma isValid_textOf: "isValid_ConfigFile (l @ [NUL]) = Inr (validLine (textOf l))"
proof -
  obtain r where b: "l @ [NUL] = textOf l @ NUL # r" and n: "NUL \<notin> set (textOf l)"
    using textOf_cstr by (rule cstr_InrE)
  have "strchr (l @ [NUL]) CHR ''='' = Inr (if CHR ''='' \<in> set (textOf l)
      then Some (length (takeWhile (\<lambda>c. c \<noteq> CHR ''='') (textOf l))) else None)"
    unfolding b using n by (rule strchr_Some_iff) simp
  moreover have "l @ [NUL] = hd (textOf l @ [NUL]) # tl (l @ [NUL])"
    unfolding b by (cases "textOf l") auto
  ultimately show ?thesis
    unfolding isValid_ConfigFile_def by (cases "textOf l") (auto simp: validLine_def split: list.splits)
qed

lemma fgets_pieces:
  assumes "0 < bufsiz f" and "fgets BUFFERSIZE f = (r, f')"
  shows "pieces (unread f) = (case r of None \<Rightarrow> [] | Some l \<Rightarrow> l # pieces (unread f'))"
    and "bufsiz f' = bufsiz f" and "contents f' = contents f"
  using fgets_spec [OF assms(1) _ assms(2)] by (auto simp: BUFFERSIZE_def pieces.simps [of "unread f"])

lemma getLines_loop_spec:
  "0 < bufsiz f \<Longrightarrow> \<exists>f'. getLines_loop f n =
     Inr (n + length (filter validLine (map textOf (pieces (unread f)))), f') \<and>
     bufsiz f' = bufsiz f \<and> contents f' = contents f"
proof (induction f n rule: getLines_loop.induct)
  case (1 f n)
  obtain r f' where g: "fgets BUFFERSIZE f = (r, f')" by (cases "fgets BUFFERSIZE f")
  note p = fgets_pieces [OF \<open>0 < bufsiz f\<close> g]
  show ?case
  proof (cases r)
    case None
    with g p show ?thesis by (simp add: getLines_loop.simps [of f n])
  next
    case (Some l)
    with 1 g p show ?thesis
      by (cases "validLine (textOf l)") (auto simp: getLines_loop.simps [of f n] isValid_textOf)
  qed
qed

lemma getLines_ConfigFile_spec:
  assumes "0 < bufsiz f" and "unread f = contents f"
  shows "getLines_ConfigFile f = Inr (length (validLines (contents f)), f') \<Longrightarrow> unread f' = contents f"
    and "\<exists>f'. getLines_ConfigFile f = Inr (length (validLines (contents f)), f') \<and>
          bufsiz f' = bufsiz f \<and> unread f' = contents f"
proof -
  obtain f1 where "getLines_loop f 0 = Inr (length (validLines (contents f)), f1)"
    and "bufsiz f1 = bufsiz f" "contents f1 = contents f"
    using getLines_loop_spec [OF assms(1), of 0] assms(2) by (auto simp: validLines_def)
  then show "\<exists>f'. getLines_ConfigFile f = Inr (length (validLines (contents f)), f') \<and>
          bufsiz f' = bufsiz f \<and> unread f' = contents f"
    "getLines_ConfigFile f = Inr (length (validLines (contents f)), f') \<Longrightarrow> unread f' = contents f"
    by (auto simp: getLines_ConfigFile_def fseek_start_def unread_def)
qed

text \<open>The copy of a line is the line's text, terminated.\<close>

lemma copy_line:
  "strlen (l @ [NUL]) = Inr (length (textOf l))"
  "strcpy (replicate (length (textOf l) + 1) NUL) 0 (l @ [NUL]) = Inr (lit (textOf l))"
  by (simp_all add: strlen_cstr textOf_cstr strcpy_eq [OF textOf_cstr] lit_def)

lemma loadFile_loop_spec:
  "0 < bufsiz f \<Longrightarrow> ls = filter validLine (map textOf (pieces (unread f))) \<Longrightarrow>
   length temp = index + length ls \<Longrightarrow>
   loadFile_loop f temp index = Inr (take index temp @ map (\<lambda>s. Some (lit s)) ls)"
proof (induction f temp index arbitrary: ls rule: loadFile_loop.induct)
  case (1 f temp index)
  obtain r f' where g: "fgets BUFFERSIZE f = (r, f')" by (cases "fgets BUFFERSIZE f")
  note p = fgets_pieces [OF \<open>0 < bufsiz f\<close> g]
  show ?case
  proof (cases r)
    case None
    with g p 1 show ?thesis by (simp add: loadFile_loop.simps [of f temp index])
  next
    case (Some l)
    show ?thesis
    proof (cases "validLine (textOf l)")
      case True
      with 1(4,5) p(1) Some have ls: "ls = textOf l # filter validLine (map textOf (pieces (unread f')))"
        and i: "index < length temp" by simp_all
      have "loadFile_loop f' (temp[index := Some (lit (textOf l))]) (index + 1) =
          Inr (take (index + 1) (temp[index := Some (lit (textOf l))]) @
               map (\<lambda>s. Some (lit s)) (filter validLine (map textOf (pieces (unread f')))))"
        using i p(2) 1(3,5) ls
        by (intro 1(2) [OF g [symmetric] Some isValid_textOf _ copy_line i _ refl]) (simp_all add: True)
      then show ?thesis
        using g Some True i ls
        by (simp add: loadFile_loop.simps [of f temp index] isValid_textOf copy_line copy_line(2) [simplified]
              take_Suc_conv_app_nth)
    next
      case False
      with 1 g p Some show ?thesis
        by (simp add: loadFile_loop.simps [of f temp index] isValid_textOf)
    qed
  qed
qed

lemma loadFile_ConfigFile_spec:
  assumes "0 < bs"
  shows "loadFile_ConfigFile (Some (fopen_r bs t)) =
    Inr (map (\<lambda>s. Some (lit s)) (validLines t), length (validLines t))"
proof -
  let ?f = "fopen_r bs t"
  have f: "0 < bufsiz ?f" "unread ?f = contents ?f" "contents ?f = t"
    using assms by (simp_all add: fopen_r_def unread_def)
  then obtain f' where g: "getLines_ConfigFile ?f = Inr (length (validLines t), f')"
    and f': "bufsiz f' = bufsiz ?f" "unread f' = t"
    using getLines_ConfigFile_spec(2) [of ?f] by auto
  have "loadFile_loop f' (replicate (length (validLines t)) None) 0 =
      Inr (take 0 (replicate (length (validLines t)) None) @ map (\<lambda>s. Some (lit s)) (validLines t))"
    by (rule loadFile_loop_spec) (use f f' in \<open>auto simp: validLines_def\<close>)
  then show ?thesis by (simp add: loadFile_ConfigFile_def g)
qed

section \<open>Cutting the lines\<close>

definition pad :: "nat \<Rightarrow> string \<Rightarrow> char list" where
  "pad n s = s @ replicate (n - length s) NUL"

lemma cstr_pad [simp]: "NUL \<notin> set s \<Longrightarrow> length s < n \<Longrightarrow> cstr (pad n s) = Inr s"
  by (simp add: pad_def)

lemma length_pad [simp]: "length s \<le> n \<Longrightarrow> length (pad n s) = n"
  by (simp add: pad_def)

text \<open>
  The exact effect of one line: the key and the value, zero padded, when they
  have at most 64 and 128 characters, and a write outside the array otherwise.
\<close>

lemma strncpy_pad:
  "cstr src = Inr s \<Longrightarrow> n \<le> length s \<Longrightarrow>
   strncpy (replicate N NUL) 0 src n = (if n \<le> N then Inr (pad N (take n s)) else Inl OutOfBounds)"
  by (auto simp: strncpy_prefix pad_def)

lemma parseLine_eq:
  assumes v: "validLine s" and n: "NUL \<notin> set s" and kv: "splitEq s = (k, w)"
  shows "parseLine (Some (lit s)) =
    (if length k \<le> 64 \<and> length w \<le> 128 then Inr \<lparr>key = pad 64 k, val = pad 128 w\<rparr> else Inl OutOfBounds)"
proof -
  define r where "r = tl (dropWhile (\<lambda>c. c \<noteq> CHR ''='') s)"
  have s: "s = k @ CHR ''='' # r" and k: "CHR ''='' \<notin> set k" and w: "w = chomp r"
    using v kv split_at_first [of "CHR ''=''" s] by (auto simp: validLine_def splitEq_def r_def)
  have c: "cstr (lit s) = Inr s" and cr: "cstr (r @ [NUL]) = Inr r" using n by (auto simp: s)
  define flag where "flag = (if lit s ! (length s - 1) = NL then 1 else 0 :: nat)"
  have ne: "s \<noteq> []" by (simp add: s)
  then have "lit s ! (length s - 1) = last s"
    by (simp add: lit_def nth_append last_conv_nth)
  then have fl: "flag = (if r \<noteq> [] \<and> last r = NL then 1 else 0)"
    by (simp add: flag_def s)
  then have lw: "length w = length r - flag" "take (length r - flag) r = w" "flag \<le> length r"
    by (auto simp: w chomp_def butlast_conv_take Suc_le_eq)
  have "strchr (lit s) CHR ''='' = Inr (Some (length k))"
    using k n by (simp add: lit_def s)
  moreover have "strlen (lit s) = Inr (length s)" by (simp add: strlen_cstr c)
  moreover have "strncpy (replicate 64 NUL) 0 (lit s) (length k) =
      (if length k \<le> 64 then Inr (pad 64 k) else Inl OutOfBounds)"
    using strncpy_pad [OF c, of "length k" 64] by (simp add: s)
  moreover have "drop (Suc (length k)) (lit s) = r @ [NUL]" by (simp add: lit_def s)
  moreover have "strlen (r @ [NUL]) = Inr (length r)" by (simp add: strlen_cstr cr)
  moreover have "strncpy (replicate 128 NUL) 0 (r @ [NUL]) (length r - flag) =
      (if length w \<le> 128 then Inr (pad 128 w) else Inl OutOfBounds)"
    using strncpy_pad [OF cr, of "length r - flag" 128] lw by simp
  ultimately show ?thesis
    using lw(3) ne unfolding parseLine_def
    by (cases "lit s ! (length s - 1) = NL") (auto simp: Let_def flag_def)
qed

lemma validLines_no_nul: "s \<in> set (validLines t) \<Longrightarrow> validLine s \<and> NUL \<notin> set s"
  by (auto simp: validLines_def textOf_def)

lemma splitEq_no_nul: "NUL \<notin> set s \<Longrightarrow> NUL \<notin> set (fst (splitEq s)) \<and> NUL \<notin> set (snd (splitEq s))"
  by (auto simp: splitEq_def chomp_def dest: set_takeWhileD set_dropWhileD in_set_butlastD list.set_sel(2)
      split: if_splits) (metis list.sel(2) list.set_sel(2) set_dropWhileD in_set_butlastD)+

definition packed :: "string \<times> string \<Rightarrow> ConfigInfo" where
  "packed kv = \<lparr>key = pad 64 (fst kv), val = pad 128 (snd kv)\<rparr>"

lemma readConfig_eq:
  assumes "0 < bs" and "\<forall>kv \<in> set (entries t). fits kv"
  shows "readConfig (Some (fopen_r bs t)) = Inr (map packed (entries t))"
proof -
  have "parseLine (Some (lit s)) = Inr (packed (splitEq s))" if "s \<in> set (validLines t)" for s
  proof -
    from that assms(2) have "fits (splitEq s)" by (auto simp: entries_def)
    with parseLine_eq [of s "fst (splitEq s)" "snd (splitEq s)"] validLines_no_nul [OF that]
    show ?thesis by (simp add: fits_def packed_def)
  qed
  then have "mapR parseLine (map (\<lambda>s. Some (lit s)) (validLines t)) = Inr (map packed (entries t))"
    by (simp add: entries_def mapR_map mapR_Inr_map comp_def)
  then show ?thesis
    using assms(1) by (simp add: readConfig_def loadFile_ConfigFile_spec parseFile_ConfigFile_def)
qed

section \<open>Looking values up\<close>

text \<open>
  The clients of the reader always use the returned pointer at once, by \<open>strcpy\<close>
  or \<open>atoi\<close>; a missing key is a null pointer and a null pointer is not checked for.
\<close>

definition cfgStr :: "ConfigInfo list \<Rightarrow> string \<Rightarrow> string cres" where
  "cfgStr info k =
     bindR (getInfo_ConfigFile (lit k) info) (\<lambda>r.
       case r of None \<Rightarrow> Inl NullDeref | Some b \<Rightarrow> cstr b)"

definition cfgInv :: "ConfigInfo list \<Rightarrow> bool" where
  "cfgInv info \<longleftrightarrow>
     (\<forall>i \<in> set info. length (key i) = 64 \<and> NUL \<in> set (key i) \<and> length (val i) = 128 \<and> NUL \<in> set (val i))"

definition cfgAbs :: "ConfigInfo list \<Rightarrow> (string \<times> string) list" where
  "cfgAbs info = map (\<lambda>i. (textOf (key i), textOf (val i))) info"

lemma cstr_textOf: "NUL \<in> set b \<Longrightarrow> cstr b = Inr (textOf b)"
  by (simp add: cstr_def textOf_def)

lemma textOf_short: "NUL \<in> set b \<Longrightarrow> length (textOf b) < length b"
  by (rule cstr_length) (rule cstr_textOf)

lemma textOf_no_nul [simp]: "NUL \<notin> set (textOf b)"
  by (simp add: textOf_def)

lemma getInfo_map_of:
  assumes "cfgInv info" and "NUL \<notin> set k" and "length k < 64"
  shows "getInfo_ConfigFile (lit k) info =
    Inr (map_option val (find (\<lambda>i. textOf (key i) = k) info))"
  using assms(1)
proof (induction info)
  case (Cons i info)
  then have "length (key i) = 64" and n: "NUL \<in> set (key i)" by (auto simp: cfgInv_def)
  with assms obtain r where r: "strcmp (lit k) (key i) = Inr r" and "r = 0 \<longleftrightarrow> cstr (key i) = Inr k"
    using strcmp_in_bounds [of k "key i" "[]"] strcmp_0_iff [of k "key i" "[]"]
    by (cases "strcmp (lit k) (key i)") (auto simp: lit_def)
  with Cons cstr_textOf [OF n] show ?case by (auto simp: cfgInv_def)
qed simp

lemma cfgStr_map_of:
  assumes "cfgInv info" and "NUL \<notin> set k" and "length k < 64"
  shows "cfgStr info k = (case map_of (cfgAbs info) k of None \<Rightarrow> Inl NullDeref | Some v \<Rightarrow> Inr v)"
proof -
  have "map_of (cfgAbs info) k = map_option (\<lambda>i. textOf (val i)) (find (\<lambda>i. textOf (key i) = k) info)"
    by (induction info) (auto simp: cfgAbs_def)
  moreover have "NUL \<in> set (val i)" if "find (\<lambda>i. textOf (key i) = k) info = Some i" for i
    using that assms(1) by (auto simp: cfgInv_def find_Some_iff)
  ultimately show ?thesis
    using getInfo_map_of [OF assms]
    by (cases "find (\<lambda>i. textOf (key i) = k) info") (auto simp: cfgStr_def cstr_textOf)
qed

text \<open>What a client of a configuration relies on.\<close>

locale kvstore =
  fixes get :: "'s \<Rightarrow> string \<Rightarrow> string cres"
    and alist :: "'s \<Rightarrow> (string \<times> string) list"
    and inv :: "'s \<Rightarrow> bool"
  assumes get_law: "inv s \<Longrightarrow> NUL \<notin> set k \<Longrightarrow> length k < 64 \<Longrightarrow>
      get s k = (case map_of (alist s) k of None \<Rightarrow> Inl NullDeref | Some v \<Rightarrow> Inr v)"
    and value_law: "inv s \<Longrightarrow> (k, v) \<in> set (alist s) \<Longrightarrow> NUL \<notin> set v \<and> length v < 128"
begin

lemma get_missing:
  "inv s \<Longrightarrow> NUL \<notin> set k \<Longrightarrow> length k < 64 \<Longrightarrow> k \<notin> fst ` set (alist s) \<Longrightarrow> get s k = Inl NullDeref"
  using get_law [of s k] by (auto simp: map_of_eq_None_iff [symmetric] split: option.splits)

lemma get_first:
  "inv s \<Longrightarrow> NUL \<notin> set k \<Longrightarrow> length k < 64 \<Longrightarrow> alist s = xs @ (k, v) # ys \<Longrightarrow> k \<notin> fst ` set xs \<Longrightarrow>
   get s k = Inr v"
  using get_law [of s k] by (auto simp: map_add_def map_of_eq_None_iff [symmetric] split: option.splits)

lemma get_short:
  assumes "inv s" "NUL \<notin> set k" "length k < 64" "get s k = Inr v"
  shows "NUL \<notin> set v \<and> length v < 128"
proof -
  from assms get_law [of s k] have "map_of (alist s) k = Some v" by (auto split: option.splits)
  then show ?thesis using value_law [OF assms(1)] by (auto dest: map_of_SomeD)
qed

lemma get_cases:
  assumes "inv s" "NUL \<notin> set k" "length k < 64"
  obtains (missing) "get s k = Inl NullDeref" | (found) v where "get s k = Inr v" "length v < 128" "NUL \<notin> set v"
  using get_law [OF assms] get_short [OF assms] by (cases "map_of (alist s) k") auto

end

interpretation cfg: kvstore cfgStr cfgAbs cfgInv
proof
  show "cfgInv s \<Longrightarrow> NUL \<notin> set k \<Longrightarrow> length k < 64 \<Longrightarrow>
      cfgStr s k = (case map_of (cfgAbs s) k of None \<Rightarrow> Inl NullDeref | Some v \<Rightarrow> Inr v)" for s k
    by (rule cfgStr_map_of)
  show "cfgInv s \<Longrightarrow> (k, v) \<in> set (cfgAbs s) \<Longrightarrow> NUL \<notin> set v \<and> length v < 128" for s k v
    by (auto simp: cfgInv_def cfgAbs_def) (metis textOf_short)
qed

lemma cfgInv_packed: "\<forall>kv \<in> set es. fits kv \<Longrightarrow> cfgInv (map packed es)"
  by (auto simp: cfgInv_def packed_def fits_def pad_def)

lemma textOf_pad [simp]: "NUL \<notin> set s \<Longrightarrow> length s < n \<Longrightarrow> textOf (pad n s) = s"
  using cstr_pad [of s n] by (auto simp: cstr_def textOf_def split: if_splits)

lemma cfgAbs_packed:
  "\<forall>kv \<in> set es. fits kv \<and> NUL \<notin> set (fst kv) \<and> NUL \<notin> set (snd kv) \<Longrightarrow> cfgAbs (map packed es) = es"
  by (induction es) (auto simp: cfgAbs_def packed_def fits_def)

lemma find_packed:
  "\<forall>kv \<in> set es. fits kv \<and> NUL \<notin> set (fst kv) \<Longrightarrow>
   find (\<lambda>i. textOf (key i) = k) (map packed es) = map_option (\<lambda>v. packed (k, v)) (map_of es k)"
  by (induction es) (auto simp: packed_def fits_def)

lemma entries_no_nul: "kv \<in> set (entries t) \<Longrightarrow> NUL \<notin> set (fst kv) \<and> NUL \<notin> set (snd kv)"
  using splitEq_no_nul validLines_no_nul by (fastforce simp: entries_def)

section \<open>Properties\<close>

text \<open>
  C13.  Reading a configuration text and looking a key up gives the value of the
  first entry of the text with that key, and a null pointer when there is none,
  for every text whose keys have fewer than 64 and values fewer than 128
  characters, wherever the stream's buffer boundaries fall.
\<close>

theorem config_lookup:
  assumes "0 < bs" and "\<forall>kv \<in> set (entries t). fits kv" and "NUL \<notin> set k" and "length k < 64"
  shows "bindR (readConfig (Some (fopen_r bs t))) (getInfo_ConfigFile (lit k)) =
    Inr (map_option (pad 128) (map_of (entries t) k))"
proof -
  let ?i = "map packed (entries t)"
  have "find (\<lambda>i. textOf (key i) = k) ?i = map_option (\<lambda>v. packed (k, v)) (map_of (entries t) k)"
    using assms(2) entries_no_nul by (intro find_packed) blast
  with getInfo_map_of [OF cfgInv_packed assms(3,4)] assms show ?thesis
    by (simp add: readConfig_eq option.map_comp comp_def packed_def)
qed

theorem config_lookup_witness:
  "bindR (readConfig (Some (fopen_r 8 (''# peers'' @ NL # ''client-num=2'' @ NL # ''client1-port=9999'' @ [NL]))))
     (getInfo_ConfigFile (lit ''client1-port'')) = Inr (Some (pad 128 ''9999''))"
proof -
  let ?t = "''# peers'' @ NL # ''client-num=2'' @ NL # ''client1-port=9999'' @ [NL]"
  have e: "entries ?t = [(''client-num'', ''2''), (''client1-port'', ''9999'')]" by code_simp
  show ?thesis using config_lookup [of 8 ?t "''client1-port''", unfolded e] by (simp add: fits_def)
qed

text \<open>
  C37.  The arrays are not guarded: one entry with a key of more than 64 or a
  value of more than 128 characters makes the reader write outside the
  \<open>ConfigInfo\<close> array, whatever the rest of the file holds.
\<close>

theorem config_overflow:
  assumes "0 < bs" and "\<exists>kv \<in> set (entries t). 64 < length (fst kv) \<or> 128 < length (snd kv)"
  shows "readConfig (Some (fopen_r bs t)) = Inl OutOfBounds"
proof -
  let ?ok = "\<lambda>s. length (fst (splitEq s)) \<le> 64 \<and> length (snd (splitEq s)) \<le> 128"
  have "parseLine (Some (lit s)) = (if ?ok s then Inr (packed (splitEq s)) else Inl OutOfBounds)"
    if "s \<in> set (validLines t)" for s
    using parseLine_eq [of s "fst (splitEq s)" "snd (splitEq s)"] validLines_no_nul [OF that]
    by (simp add: packed_def)
  moreover have "\<exists>s \<in> set (validLines t). \<not> ?ok s"
    using assms(2) by (auto simp: entries_def not_le)
  ultimately have "mapR (\<lambda>s. parseLine (Some (lit s))) (validLines t) = Inl OutOfBounds"
    by (rule mapR_fault)
  then show ?thesis
    using assms(1)
    by (simp add: readConfig_def loadFile_ConfigFile_spec parseFile_ConfigFile_def mapR_map)
qed

theorem config_overflow_witness:
  "readConfig (Some (fopen_r 4096 (replicate 65 CHR ''k'' @ ''=v'' @ [NL]))) = Inl OutOfBounds"
proof -
  let ?t = "replicate 65 CHR ''k'' @ ''=v'' @ [NL]"
  have "entries ?t = [(replicate 65 CHR ''k'', ''v'')]" by code_simp
  then show ?thesis using config_overflow [of 4096 ?t] by simp
qed

text \<open>Writing entries down, one per line, and the lines that read back unchanged.\<close>

definition printConfig :: "(string \<times> string) list \<Rightarrow> char list" where
  "printConfig es = concat (map (\<lambda>(k, v). k @ CHR ''='' # v @ [NL]) es)"

definition plainEntry :: "string \<times> string \<Rightarrow> bool" where
  "plainEntry kv \<longleftrightarrow> (case kv of (k, v) \<Rightarrow>
     CHR ''='' \<notin> set k \<and> NL \<notin> set k \<and> NUL \<notin> set k \<and> NL \<notin> set v \<and> NUL \<notin> set v \<and>
     (k = [] \<or> hd k \<noteq> CHR ''#'') \<and> length k + length v + 2 \<le> 1023)"

lemma pieces_line:
  assumes "NL \<notin> set l" and "length l < 1023"
  shows "pieces (l @ NL # r) = (l @ [NL]) # pieces r"
  using assms by (simp add: pieces.simps [of "l @ NL # r"] first_line_append_newline)

lemma plain_line:
  assumes "plainEntry (k, v)"
  shows "textOf (k @ CHR ''='' # v @ [NL]) = k @ CHR ''='' # v @ [NL]"
    and "validLine (k @ CHR ''='' # v @ [NL])" and "splitEq (k @ CHR ''='' # v @ [NL]) = (k, v)"
proof -
  have "NUL \<notin> set (k @ CHR ''='' # v @ [NL])" using assms by (simp add: plainEntry_def)
  then show "textOf (k @ CHR ''='' # v @ [NL]) = k @ CHR ''='' # v @ [NL]"
    unfolding textOf_def by (rule takeWhile_neq_id)
  show "validLine (k @ CHR ''='' # v @ [NL])"
    using assms by (cases k) (auto simp: validLine_def plainEntry_def)
  show "splitEq (k @ CHR ''='' # v @ [NL]) = (k, v)"
    using assms by (simp add: splitEq_def plainEntry_def chomp_def)
qed

lemma entries_printed: "\<forall>e \<in> set es. plainEntry e \<Longrightarrow> entries (printConfig es) = es"
proof (induction es)
  case Nil
  then show ?case by (simp add: printConfig_def entries_def validLines_def pieces.simps [of "[]"])
next
  case (Cons e es)
  obtain k v where e: "e = (k, v)" by (cases e)
  with Cons.prems have p: "plainEntry (k, v)" by simp
  have "pieces (printConfig (e # es)) = (k @ CHR ''='' # v @ [NL]) # pieces (printConfig es)"
    using pieces_line [of "k @ CHR ''='' # v" "printConfig es"] p
    by (simp add: e printConfig_def plainEntry_def)
  with plain_line [OF p] Cons e show ?case by (simp add: entries_def validLines_def)
qed

text \<open>
  C25.  Round trip: a list of plain entries that fit (no \<open>=\<close> in a key, no newline or NUL,
  no leading \<open>#\<close>, at most 1023 characters per line) written down one per line is
  read back by the program as the same list, in order and with duplicates, whatever
  the size of the file buffer.
\<close>

theorem config_roundtrip:
  assumes "0 < bs" "\<forall>e \<in> set es. plainEntry e \<and> fits e"
  shows "readConfig (Some (fopen_r bs (printConfig es))) = Inr (map packed es)"
  using readConfig_eq [OF assms(1), of "printConfig es"] entries_printed [of es] assms(2) by simp

theorem config_roundtrip_witness:
  "readConfig (Some (fopen_r 8 (printConfig [(''log-path'', ''./log''), (''log-level'', ''ALL''), (''log-path'', ''x=y'')]))) =
     Inr (map packed [(''log-path'', ''./log''), (''log-level'', ''ALL''), (''log-path'', ''x=y'')])"
  by (rule config_roundtrip) (simp_all add: plainEntry_def fits_def)

end
