(* ===== verification/Process.thy ===== *)
theory Process
  imports Dirent Inet CalTime ConfigFile
begin

text \<open>
  The process that runs the program, as the calls it makes of the operating system.
  A program is a function of the process state: it consumes the answers the
  environment gives to its calls, in order, and appends each call with its answer
  to a trace.  Nothing is assumed about the answers, so a theorem about all
  processes is a theorem about every behaviour of kernel, peers and file system,
  also while other processes change the files.  A process whose answers are used up
  is \<open>Blocked\<close>.  Writing a line to the log or to the terminal, sleeping, and reading
  memory the program must not read are events too; the last one takes the bytes it
  finds from the environment.
\<close>

section \<open>Calls and answers\<close>

text \<open>An argument of \<open>LogWrite\<close>: an integer, a string, or \<open>strerror\<close> of an error number.\<close>

datatype logarg = D int | S string | StrError int

datatype call =
    Log nat string "logarg list"
  | Printf string
  | Usleep nat
  | Sleep nat
  | Undefined fault
  | Time
  | Getcwd
  | Getenv string
  | Access string
  | Mkdir string
  | Creat string
  | Remove string
  | Fopen string string
  | Fwrite int "8 word list"
  | Fprintf int string
  | Fflush int
  | Fclose int
  | ReadFile string
  | Opendir string
  | Fork
  | Socket
  | Setsockopt int
  | Bind int in_addr "16 word"
  | Listen int nat
  | Accept int
  | Connect int in_addr "16 word"
  | Recv int nat
  | Send int "8 word list"
  | Close int
  | PthreadCreate nat

text \<open>
  An answer: the value returned, \<open>errno\<close>, bytes, text, and for \<open>opendir\<close> the stream.
\<close>

record ret =
  rv :: int
  err :: int
  dat :: "8 word list"
  str :: "char list"
  dirp :: "DIR option"

abbreviation no_ret :: ret where
  "no_ret \<equiv> \<lparr>rv = 0, err = 0, dat = [], str = [], dirp = None\<rparr>"

type_synonym event = "call \<times> ret"

text \<open>\<^verbatim>\<open>struct tcpInfo\<close>, an entry of the table of the server and its clients.\<close>

record tcpInfo =
  address :: "char list"
  acceptedAddress :: "char list"
  port :: int
  acceptfd :: int
  clientNum :: int
  flag :: int

text \<open>
  The state of the process: the answers to come, the trace, the global variables
  \<open>uuid\<close> and \<open>distributeTcpInfo\<close>, and of the machine the offset of local time from UTC,
  the memory \<open>qsort\<close> consults and whether the \<open>k\<close>-th allocation of \<open>scandir\<close> succeeds.
\<close>

record proc =
  inp :: "ret list"
  trc :: "event list"
  uuid :: "32 word"
  distributeTcpInfo :: "tcpInfo list"
  tzoff :: int
  sysmem :: memory
  allocs :: "nat \<Rightarrow> bool"

text \<open>A process at its start, on a machine whose clock runs in UTC.\<close>

definition boot :: "ret list \<Rightarrow> tcpInfo list \<Rightarrow> proc" where
  "boot answers table = \<lparr>inp = answers, trc = [], uuid = 0, distributeTcpInfo = table, tzoff = 0,
     sysmem = \<lparr>phys_pages = 1000000, pagesize = 4096, malloc_ok = True\<rparr>, allocs = (\<lambda>_. True)\<rparr>"

lemma boot_simps [simp]:
  "inp (boot as t) = as" "trc (boot as t) = []" "uuid (boot as t) = 0" "distributeTcpInfo (boot as t) = t"
  "tzoff (boot as t) = 0" "allocs (boot as t) = (\<lambda>_. True)"
  by (simp_all add: boot_def)

type_synonym 'a prog = "proc \<Rightarrow> 'a cres \<times> proc"

definition retM :: "'a \<Rightarrow> 'a prog" where
  "retM x p = (Inr x, p)"

definition failM :: "fault \<Rightarrow> 'a prog" where
  "failM e p = (Inl e, p)"

definition liftM :: "'a cres \<Rightarrow> 'a prog" where
  "liftM r p = (r, p)"

definition bindM :: "'a prog \<Rightarrow> ('a \<Rightarrow> 'b prog) \<Rightarrow> 'b prog" where
  "bindM m f p = (case m p of (Inl e, p') \<Rightarrow> (Inl e, p') | (Inr x, p') \<Rightarrow> f x p')"

definition seqM :: "unit prog \<Rightarrow> 'b prog \<Rightarrow> 'b prog" where
  "seqM m n = bindM m (\<lambda>_. n)"

definition getM :: "(proc \<Rightarrow> 'a) \<Rightarrow> 'a prog" where
  "getM f p = (Inr (f p), p)"

definition modM :: "(proc \<Rightarrow> proc) \<Rightarrow> unit prog" where
  "modM g p = (Inr (), g p)"

definition ask :: "call \<Rightarrow> ret prog" where
  "ask c p =
     (case inp p of [] \<Rightarrow> (Inl Blocked, p)
      | r # rs \<Rightarrow> (Inr r, p\<lparr>inp := rs, trc := trc p @ [(c, r)]\<rparr>))"

definition emit :: "call \<Rightarrow> unit prog" where
  "emit c p = (Inr (), p\<lparr>trc := trc p @ [(c, no_ret)]\<rparr>)"

text \<open>A loop over the elements of a list.\<close>

fun forM :: "'a list \<Rightarrow> ('a \<Rightarrow> unit prog) \<Rightarrow> unit prog" where
  "forM [] f = retM ()"
| "forM (x # xs) f = seqM (f x) (forM xs f)"

text \<open>
  Fuel for a loop each of whose rounds asks at least once: one more than the
  answers there are.
\<close>

definition fuelled :: "(nat \<Rightarrow> 'a prog) \<Rightarrow> 'a prog" where
  "fuelled loop p = loop (Suc (length (inp p))) p"

text \<open>The entries of the table, with checked access.\<close>

definition tcpM :: "nat \<Rightarrow> tcpInfo prog" where
  "tcpM i = bindM (getM distributeTcpInfo) (\<lambda>t. liftM (getR t (int i)))"

definition set_tcpM :: "nat \<Rightarrow> (tcpInfo \<Rightarrow> tcpInfo) \<Rightarrow> unit prog" where
  "set_tcpM i f =
     bindM (tcpM i) (\<lambda>e. modM (\<lambda>p. p\<lparr>distributeTcpInfo := (distributeTcpInfo p)[i := f e]\<rparr>))"

section \<open>Log levels and shared steps\<close>

abbreviation (input) INFO :: nat where "INFO \<equiv> 1"

abbreviation (input) DEBUG :: nat where "DEBUG \<equiv> 2"

abbreviation (input) WARN :: nat where "WARN \<equiv> 3"

abbreviation (input) ERROR :: nat where "ERROR \<equiv> 4"

definition LogWrite :: "nat \<Rightarrow> string \<Rightarrow> logarg list \<Rightarrow> unit prog" where
  "LogWrite lvl fmt args = emit (Log lvl fmt args)"

text \<open>\<open>_exit\<close> with the failure code.\<close>

definition exit_fail :: "'a prog" where
  "exit_fail = failM (Exit EXIT_FAIL_CODE)"

definition EXIT_SUCCESS_CODE :: int where "EXIT_SUCCESS_CODE = 0"

text \<open>\<open>getcwd (path, 512)\<close> into a zeroed array: unchanged when the name does not fit.\<close>

definition getcwd512 :: "char list prog" where
  "getcwd512 =
     bindM (ask Getcwd) (\<lambda>r.
     let s = textOf (str r) in retM (if length s < 512 then pad 512 s else replicate 512 NUL))"

definition CONFIGFILE :: string where "CONFIGFILE = ''/engine.conf''"

definition config_path :: "char list prog" where
  "config_path = bindM getcwd512 (\<lambda>path. liftM (strcat path (lit CONFIGFILE)))"

text \<open>The text a buffer holds, for a call that takes a string.\<close>

definition text_of :: "char list \<Rightarrow> string prog" where
  "text_of b = liftM (cstr b)"

text \<open>\<open>loadFile_ConfigFile\<close> and \<open>parseFile_ConfigFile\<close> on the file of that name.\<close>

definition load_config :: "char list \<Rightarrow> ConfigInfo list prog" where
  "load_config path =
     bindM (text_of path) (\<lambda>name.
     bindM (ask (Fopen name ''r'')) (\<lambda>r.
     liftM (readConfig (if rv r = 0 then None else Some (fopen_r 4096 (str r))))))"

text \<open>\<open>strcpy (dst, getInfo_ConfigFile (key, info, lines))\<close>: a missing key is a null pointer.\<close>

definition info_value :: "string \<Rightarrow> ConfigInfo list \<Rightarrow> char list cres" where
  "info_value k info =
     bindR (getInfo_ConfigFile (lit k) info) (\<lambda>v. case v of None \<Rightarrow> Inl NullDeref | Some b \<Rightarrow> Inr b)"

definition localtime :: "int \<Rightarrow> tm prog" where
  "localtime t =
     bindM (getM tzoff) (\<lambda>off. bindM (liftM (offtime t off)) (\<lambda>f.
     case f of None \<Rightarrow> failM NullDeref | Some f \<Rightarrow> retM f))"

text \<open>\<open>sprintf\<close> and \<open>strftime\<close> of a text into an array; the latter without NUL when it did not fit.\<close>

definition sprintf_to :: "char list \<Rightarrow> string \<Rightarrow> char list cres" where
  "sprintf_to b s = store b 0 (lit s)"

definition strftime_to :: "char list \<Rightarrow> directive list \<Rightarrow> tm \<Rightarrow> char list cres" where
  "strftime_to b fmt f = (case strftime 11 fmt f of (out, ok) \<Rightarrow> store b 0 (if ok then lit out else out))"

section \<open>Zero-padded arrays\<close>

text \<open>
  The arrays of the program start zeroed, so each string operation takes the padding
  of one text to the padding of another or writes outside the array.
\<close>

lemma pad_Nil: "pad n [] = replicate n NUL"
  by (simp add: pad_def)

lemma pad_strcpy:
  assumes "cstr src = Inr s"
  shows "strcpy (replicate n NUL) 0 src = (if length s < n then Inr (pad n s) else Inl OutOfBounds)"
proof (cases "length s < n")
  case True
  then have "NUL # replicate (n - Suc (length s)) NUL = replicate (n - length s) NUL"
    by (simp add: Suc_diff_Suc flip: replicate_Suc)
  with True show ?thesis by (simp add: strcpy_eq [OF assms] pad_def)
qed (simp add: strcpy_eq [OF assms])

lemma pad_strcat:
  assumes "NUL \<notin> set a" "cstr src = Inr b" "length a < n"
  shows "strcat (pad n a) src = (if length a + length b < n then Inr (pad n (a @ b)) else Inl OutOfBounds)"
proof (cases "length a + length b < n")
  case True
  then have "NUL # replicate (n - Suc (length a + length b)) NUL = replicate (n - (length a + length b)) NUL"
    by (simp add: Suc_diff_Suc flip: replicate_Suc)
  with True show ?thesis using strcat_eq [OF cstr_pad [OF assms(1,3)] assms(2)] by (simp add: pad_def)
qed (use strcat_eq [OF cstr_pad [OF assms(1,3)] assms(2)] assms in simp)

lemma pad_sprintf:
  "sprintf_to (replicate n NUL) s = (if length s < n then Inr (pad n s) else Inl OutOfBounds)"
proof (cases "length s < n")
  case True
  then have "NUL # replicate (n - Suc (length s)) NUL = replicate (n - length s) NUL"
    by (simp add: Suc_diff_Suc flip: replicate_Suc)
  with True show ?thesis by (simp add: sprintf_to_def store_def lit_def pad_def)
qed (simp add: sprintf_to_def store_def lit_def)

lemma pad_strftime:
  assumes "strftime 11 fmt f = (s, True)"
  shows "strftime_to (replicate n NUL) fmt f = (if length s < n then Inr (pad n s) else Inl OutOfBounds)"
  using pad_sprintf [of n s] by (simp add: strftime_to_def assms sprintf_to_def)

section \<open>Laws of programs\<close>

named_theorems prog_simps \<open>evaluation of programs on a process\<close>

lemma prog_run [prog_simps]:
  "retM x p = (Inr x, p)" "failM e p = (Inl e, p)" "liftM r p = (r, p)" "getM f p = (Inr (f p), p)"
  "modM g p = (Inr (), g p)" "emit c p = (Inr (), p\<lparr>trc := trc p @ [(c, no_ret)]\<rparr>)"
  by (simp_all add: retM_def failM_def liftM_def getM_def modM_def emit_def)

lemma bindM_simps [simp]:
  "bindM (retM x) f = f x" "bindM (failM e) f = failM e" "bindM (liftM (Inr x)) f = f x" "bindM (liftM (Inl e)) f = failM e"
  by (auto simp: bindM_def prog_run fun_eq_iff)

lemma bindM_assoc: "bindM (bindM m f) g = bindM m (\<lambda>x. bindM (f x) g)"
  by (auto simp: bindM_def fun_eq_iff split: prod.splits sum.splits)

lemma seqM_assoc: "bindM (seqM m n) f = seqM m (bindM n f)"
  by (simp add: seqM_def bindM_assoc)

lemma bindM_run: "m p = (Inr x, p') \<Longrightarrow> bindM m f p = f x p'" "m p = (Inl e, p') \<Longrightarrow> bindM m f p = (Inl e, p')"
  by (simp_all add: bindM_def)

lemma ask_run: "inp p = r # rs \<Longrightarrow> ask c p = (Inr r, p\<lparr>inp := rs, trc := trc p @ [(c, r)]\<rparr>)"
  by (simp add: ask_def)

section \<open>What a program does, as a predicate on its trace\<close>

text \<open>
  \<open>sat m p R\<close>: started in \<open>p\<close>, the program ends with a result, a list of new events
  and a process state that satisfy \<open>R\<close>.
\<close>

definition sat :: "'a prog \<Rightarrow> proc \<Rightarrow> ('a cres \<Rightarrow> event list \<Rightarrow> proc \<Rightarrow> bool) \<Rightarrow> bool" where
  "sat m p R \<longleftrightarrow> (\<exists>es. trc (snd (m p)) = trc p @ es \<and> R (fst (m p)) es (snd (m p)))"

text \<open>The parts of the state that calls do not change.\<close>

definition globals :: "proc \<Rightarrow> 32 word \<times> tcpInfo list \<times> int \<times> memory \<times> (nat \<Rightarrow> bool)" where
  "globals p = (uuid p, distributeTcpInfo p, tzoff p, sysmem p, allocs p)"

text \<open>The answers left are a final part of those there were.\<close>

definition suffix_inp :: "proc \<Rightarrow> proc \<Rightarrow> bool" where
  "suffix_inp p p' \<longleftrightarrow> (\<exists>k. inp p' = drop k (inp p))"

lemma satI: "trc (snd (m p)) = trc p @ es \<Longrightarrow> R (fst (m p)) es (snd (m p)) \<Longrightarrow> sat m p R"
  by (auto simp: sat_def)

lemma satE:
  assumes "sat m p R"
  obtains r es p' where "m p = (r, p')" "trc p' = trc p @ es" "R r es p'"
  using assms by (cases "m p") (auto simp: sat_def)

lemma sat_mono: "sat m p R \<Longrightarrow> (\<And>r es p'. R r es p' \<Longrightarrow> Q r es p') \<Longrightarrow> sat m p Q"
  by (auto simp: sat_def)

lemma sat_ret [intro]: "R (Inr x) [] p \<Longrightarrow> sat (retM x) p R"
  by (rule satI [of _ _ "[]"]) (simp_all add: prog_run)

lemma sat_fail [intro]: "R (Inl e) [] p \<Longrightarrow> sat (failM e) p R"
  by (rule satI [of _ _ "[]"]) (simp_all add: prog_run)

lemma sat_lift: "R r [] p \<Longrightarrow> sat (liftM r) p R"
  by (rule satI [of _ _ "[]"]) (simp_all add: prog_run)

lemma sat_bind:
  assumes "sat m p (\<lambda>r es p'. case r of Inl e \<Rightarrow> R (Inl e) es p' | Inr x \<Rightarrow> sat (f x) p' (\<lambda>s fs. R s (es @ fs)))"
  shows "sat (bindM m f) p R"
proof -
  from assms obtain r es p' where m: "m p = (r, p')" "trc p' = trc p @ es"
    and c: "case r of Inl e \<Rightarrow> R (Inl e) es p' | Inr x \<Rightarrow> sat (f x) p' (\<lambda>s fs. R s (es @ fs))" by (rule satE)
  show ?thesis
  proof (cases r)
    case (Inl e)
    with m c show ?thesis by (auto simp: sat_def bindM_def)
  next
    case (Inr x)
    with c obtain s fs p'' where "f x p' = (s, p'')" "trc p'' = trc p' @ fs" "R s (es @ fs) p''"
      by (auto elim: satE)
    with m Inr show ?thesis by (auto simp: sat_def bindM_def)
  qed
qed

lemma sat_bindI:
  assumes "sat m p Q" "\<And>e es p'. Q (Inl e) es p' \<Longrightarrow> R (Inl e) es p'"
    and "\<And>x es p'. Q (Inr x) es p' \<Longrightarrow> sat (f x) p' (\<lambda>s fs. R s (es @ fs))"
  shows "sat (bindM m f) p R"
  by (rule sat_bind, rule sat_mono [OF assms(1)]) (use assms(2,3) in \<open>auto split: sum.splits\<close>)

lemma sat_ask:
  assumes "R (Inl Blocked) [] p"
    and "\<And>r p'. globals p' = globals p \<Longrightarrow> inp p = r # inp p' \<Longrightarrow> R (Inr r) [(c, r)] p'"
  shows "sat (ask c) p R"
proof (cases "inp p")
  case Nil
  with assms(1) show ?thesis by (intro satI [of _ _ "[]"]) (simp_all add: ask_def)
next
  case (Cons r rs)
  with assms(2) [of "p\<lparr>inp := rs, trc := trc p @ [(c, r)]\<rparr>" r] show ?thesis
    by (intro satI [of _ _ "[(c, r)]"]) (simp_all add: ask_def globals_def)
qed

text \<open>The rules for a call, an event or a state access followed by the rest of the program.\<close>

lemma sat_ask_bind:
  assumes "R (Inl Blocked) [] p"
    and "\<And>r p'. globals p' = globals p \<Longrightarrow> inp p = r # inp p' \<Longrightarrow> sat (f r) p' (\<lambda>s fs. R s ((c, r) # fs))"
  shows "sat (bindM (ask c) f) p R"
  by (rule sat_bind, rule sat_ask) (use assms in simp_all)

lemma sat_emit_seq:
  assumes "\<And>p'. globals p' = globals p \<Longrightarrow> inp p' = inp p \<Longrightarrow> sat n p' (\<lambda>s fs. R s ((c, no_ret) # fs))"
  shows "sat (seqM (emit c) n) p R"
  unfolding seqM_def
proof (rule sat_bind)
  let ?p = "p\<lparr>trc := trc p @ [(c, no_ret)]\<rparr>"
  have "sat n ?p (\<lambda>s fs. R s ((c, no_ret) # fs))" by (rule assms) (simp_all add: globals_def)
  then show "sat (emit c) p (\<lambda>r es p'. case r of Inl e \<Rightarrow> R (Inl e) es p'
      | Inr x \<Rightarrow> sat n p' (\<lambda>s fs. R s (es @ fs)))"
    by (intro satI [of _ _ "[(c, no_ret)]"]) (simp_all add: prog_run)
qed

lemma sat_get_bind: "sat (f (g p)) p R \<Longrightarrow> sat (bindM (getM g) f) p R"
  by (simp add: sat_def bindM_def prog_run)

lemma sat_lift_bind:
  "(\<And>e. r = Inl e \<Longrightarrow> R (Inl e) [] p) \<Longrightarrow> (\<And>x. r = Inr x \<Longrightarrow> sat (f x) p R) \<Longrightarrow> sat (bindM (liftM r) f) p R"
  by (cases r) (auto intro: sat_fail)

lemma sat_mod_seq:
  assumes "trc (g p) = trc p" "sat n (g p) R"
  shows "sat (seqM (modM g) n) p R"
  using assms by (simp add: sat_def seqM_def bindM_def prog_run)

lemma sat_if: "(b \<Longrightarrow> sat m p R) \<Longrightarrow> (\<not> b \<Longrightarrow> sat n p R) \<Longrightarrow> sat (if b then m else n) p R"
  by simp

lemma tcpM_bind:
  "i < length (distributeTcpInfo p) \<Longrightarrow> sat (f (distributeTcpInfo p ! i)) p R \<Longrightarrow> sat (bindM (tcpM i) f) p R"
  by (simp add: tcpM_def bindM_assoc sat_get_bind)

lemma sat_set_tcp_seq:
  assumes "i < length (distributeTcpInfo p)"
    and "sat n (p\<lparr>distributeTcpInfo := (distributeTcpInfo p)[i := g (distributeTcpInfo p ! i)]\<rparr>) R"
  shows "sat (seqM (set_tcpM i g) n) p R"
  using assms unfolding seqM_def set_tcpM_def bindM_assoc
  by (intro tcpM_bind) (auto simp: seqM_def [symmetric] intro: sat_mod_seq)

text \<open>Events that are not calls with an effect outside the process.\<close>

definition quiet :: "event \<Rightarrow> bool" where
  "quiet e \<longleftrightarrow> (case fst e of Log _ _ _ \<Rightarrow> True | Printf _ \<Rightarrow> True | Usleep _ \<Rightarrow> True | Sleep _ \<Rightarrow> True | _ \<Rightarrow> False)"

definition acts :: "event list \<Rightarrow> event list" where
  "acts es = filter (\<lambda>e. \<not> quiet e) es"

lemma acts_simps [simp]: "acts [] = []" "acts (es @ fs) = acts es @ acts fs"
  "acts (e # es) = (if quiet e then acts es else e # acts es)"
  by (simp_all add: acts_def)

lemma sat_log_seq:
  assumes "\<And>p'. globals p' = globals p \<Longrightarrow> inp p' = inp p \<Longrightarrow> sat n p' (\<lambda>s fs. R s ((Log l f as, no_ret) # fs))"
  shows "sat (seqM (LogWrite l f as) n) p R"
  unfolding LogWrite_def by (rule sat_emit_seq) (rule assms)

section \<open>Programs that make only certain calls\<close>

text \<open>
  \<open>only P m\<close>: every call \<open>m\<close> makes satisfies \<open>P\<close>, it leaves the table of peers and the
  machine alone, and it gives no answer back.
\<close>

definition kept :: "proc \<Rightarrow> proc \<Rightarrow> bool" where
  "kept p p' \<longleftrightarrow> distributeTcpInfo p' = distributeTcpInfo p \<and> tzoff p' = tzoff p \<and> sysmem p' = sysmem p \<and>
     allocs p' = allocs p \<and> length (inp p') \<le> length (inp p)"

lemma kept_refl [simp]: "kept p p" and kept_trans: "kept p q \<Longrightarrow> kept q r \<Longrightarrow> kept p r"
  by (auto simp: kept_def)

lemma kept_length: "kept p q \<Longrightarrow> length (inp q) \<le> length (inp p)"
  by (simp add: kept_def)

definition only :: "(call \<Rightarrow> bool) \<Rightarrow> 'a prog \<Rightarrow> bool" where
  "only P m \<longleftrightarrow> (\<forall>p. sat m p (\<lambda>r es p'. (\<forall>e \<in> set es. P (fst e)) \<and> kept p p'))"

named_theorems only_intros \<open>composition of programs that make only certain calls\<close>

lemma only_ret [only_intros]: "only P (retM x)" "only P (failM e)" "only P (liftM r)" "only P (getM f)"
  by (auto simp: only_def sat_def prog_run)

lemma only_bind [only_intros]:
  assumes "only P m" "\<And>x. only P (f x)"
  shows "only P (bindM m f)"
  unfolding only_def
proof (intro allI sat_bind)
  fix p
  have f: "sat (f x) p' (\<lambda>s fs p''. (\<forall>e \<in> set (es @ fs). P (fst e)) \<and> kept p p'')"
    if "\<forall>e \<in> set es. P (fst e)" "kept p p'" for x p' es
    using assms(2) [unfolded only_def, rule_format, of x p'] that by (auto elim!: sat_mono intro: kept_trans)
  show "sat m p (\<lambda>r es p'. case r of Inl e \<Rightarrow> (\<forall>e \<in> set es. P (fst e)) \<and> kept p p'
      | Inr x \<Rightarrow> sat (f x) p' (\<lambda>s fs p'. (\<forall>e \<in> set (es @ fs). P (fst e)) \<and> kept p p'))"
    using assms(1) [unfolded only_def, rule_format, of p]
    by (rule sat_mono) (auto intro!: f [simplified] split: sum.splits)
qed

lemma only_seq [only_intros]: "only P m \<Longrightarrow> only P n \<Longrightarrow> only P (seqM m n)"
  unfolding seqM_def by (rule only_bind)

lemma only_ask [only_intros]: "P c \<Longrightarrow> only P (ask c)"
  unfolding only_def by (intro allI sat_ask) (auto simp: globals_def kept_def)

lemma only_emit [only_intros]: "P c \<Longrightarrow> only P (emit c)"
  by (auto simp: only_def sat_def prog_run kept_def)

lemma only_log [only_intros]: "P (Log l f as) \<Longrightarrow> only P (LogWrite l f as)"
  unfolding LogWrite_def by (rule only_emit)

lemma only_uuid [only_intros]: "only P (modM (uuid_update f))"
  by (auto simp: only_def sat_def prog_run kept_def)

lemma only_if [only_intros]: "(b \<Longrightarrow> only P m) \<Longrightarrow> (\<not> b \<Longrightarrow> only P n) \<Longrightarrow> only P (if b then m else n)"
  by simp

lemma only_config [only_intros]:
  "P Getcwd \<Longrightarrow> only P getcwd512" "P Getcwd \<Longrightarrow> only P config_path" "only P (text_of b)" "only P (localtime t)"
  "(\<And>n. P (Fopen n ''r'')) \<Longrightarrow> only P (load_config path)"
  by (auto simp: getcwd512_def config_path_def text_of_def localtime_def load_config_def Let_def
      intro!: only_intros split: option.splits)

lemma only_sat: "only P m \<Longrightarrow> sat m p (\<lambda>r es p'. (\<forall>e \<in> set es. P (fst e)) \<and> kept p p')"
  by (simp add: only_def)

lemma only_mono: "only P m \<Longrightarrow> (\<And>c. P c \<Longrightarrow> Q c) \<Longrightarrow> only Q m"
  unfolding only_def by (blast intro: sat_mono)

text \<open>The same for programs that may change the table of peers.\<close>

definition calls :: "(call \<Rightarrow> bool) \<Rightarrow> 'a prog \<Rightarrow> bool" where
  "calls P m \<longleftrightarrow> (\<forall>p. sat m p (\<lambda>r es p'. (\<forall>e \<in> set es. P (fst e)) \<and> length (inp p') \<le> length (inp p)))"

named_theorems calls_intros \<open>composition of programs by the calls they make\<close>

lemma calls_sat: "calls P m \<Longrightarrow> sat m p (\<lambda>r es p'. (\<forall>e \<in> set es. P (fst e)) \<and> length (inp p') \<le> length (inp p))"
  by (simp add: calls_def)

lemma only_calls: "only P m \<Longrightarrow> calls P m"
  unfolding only_def calls_def by (blast intro: sat_mono dest: kept_length)

lemma calls_bind [calls_intros]:
  assumes "calls P m" "\<And>x. calls P (f x)"
  shows "calls P (bindM m f)"
  unfolding calls_def
proof (rule allI, rule sat_bindI [OF calls_sat [OF assms(1)]])
  fix p q :: proc and x and es :: "event list"
  assume "(\<forall>e \<in> set es. P (fst e)) \<and> length (inp q) \<le> length (inp p)"
  with calls_sat [OF assms(2), of x q]
  show "sat (f x) q (\<lambda>s fs p'. (\<forall>e \<in> set (es @ fs). P (fst e)) \<and> length (inp p') \<le> length (inp p))"
    by (auto elim!: sat_mono)
qed simp

lemma calls_seq [calls_intros]: "calls P m \<Longrightarrow> calls P n \<Longrightarrow> calls P (seqM m n)"
  unfolding seqM_def by (rule calls_bind)

lemma calls_basic [calls_intros]:
  "calls P (retM x)" "calls P (failM e)" "calls P (liftM r)" "calls P (getM f)" "P c \<Longrightarrow> calls P (ask c)"
  "P c \<Longrightarrow> calls P (emit c)" "P (Log l g as) \<Longrightarrow> calls P (LogWrite l g as)" "calls P (text_of b)"
  by (auto intro!: only_calls only_intros)

lemma calls_tcp [calls_intros]: "calls P (tcpM i)" "calls P (set_tcpM i g)"
  by (auto simp: tcpM_def set_tcpM_def calls_def sat_def bindM_def prog_run split: sum.splits)

lemma calls_if [calls_intros]: "(b \<Longrightarrow> calls P m) \<Longrightarrow> (\<not> b \<Longrightarrow> calls P n) \<Longrightarrow> calls P (if b then m else n)"
  by simp

section \<open>Reading the configuration and the clock\<close>

text \<open>A call that is answered, and the process after it.\<close>

definition called :: "call \<Rightarrow> proc \<Rightarrow> proc" where
  "called c p = p\<lparr>inp := tl (inp p), trc := trc p @ [(c, hd (inp p))]\<rparr>"

lemma ask_called: "inp p \<noteq> [] \<Longrightarrow> ask c p = (Inr (hd (inp p)), called c p)"
  by (cases "inp p") (simp_all add: ask_def called_def)

lemma called_simps [simp]:
  "inp (called c p) = tl (inp p)" "trc (called c p) = trc p @ [(c, hd (inp p))]"
  "uuid (called c p) = uuid p" "distributeTcpInfo (called c p) = distributeTcpInfo p" "tzoff (called c p) = tzoff p"
  by (simp_all add: called_def)

lemma ask_bind_run: "inp p \<noteq> [] \<Longrightarrow> bindM (ask c) f p = f (hd (inp p)) (called c p)"
  by (simp add: bindM_def ask_called)

definition emitted :: "call \<Rightarrow> proc \<Rightarrow> proc" where
  "emitted c p = p\<lparr>trc := trc p @ [(c, no_ret)]\<rparr>"

lemma emitted_simps [simp]:
  "inp (emitted c p) = inp p" "trc (emitted c p) = trc p @ [(c, no_ret)]" "distributeTcpInfo (emitted c p) = distributeTcpInfo p"
  by (simp_all add: emitted_def)

lemma step_run:
  "seqM (emit c) n p = n (emitted c p)" "seqM (LogWrite l g as) n p = n (emitted (Log l g as) p)"
  "LogWrite l g as p = (Inr (), emitted (Log l g as) p)"
  "i < length (distributeTcpInfo p) \<Longrightarrow> bindM (tcpM i) f p = f (distributeTcpInfo p ! i) p"
  "i < length (distributeTcpInfo p) \<Longrightarrow> seqM (set_tcpM i u) n p =
     n (p\<lparr>distributeTcpInfo := (distributeTcpInfo p)[i := u (distributeTcpInfo p ! i)]\<rparr>)"
  by (simp_all add: seqM_def bindM_def LogWrite_def prog_run emitted_def tcpM_def set_tcpM_def)

lemma CONFIGFILE_text [simp]: "NUL \<notin> set CONFIGFILE" "length CONFIGFILE = 12"
  by (simp_all add: CONFIGFILE_def)

lemma config_path_run:
  assumes "inp p \<noteq> []" "length (textOf (str (hd (inp p)))) < 500"
  shows "config_path p = (Inr (pad 512 (textOf (str (hd (inp p))) @ CONFIGFILE)), called Getcwd p)"
  using assms
  by (simp add: config_path_def getcwd512_def bindM_assoc Let_def bindM_def ask_called prog_run pad_strcat)

lemma text_of_run: "cstr b = Inr s \<Longrightarrow> text_of b p = (Inr s, p)"
  by (simp add: text_of_def prog_run)

lemma load_config_run:
  assumes "cstr path = Inr name" "inp p \<noteq> []" "rv (hd (inp p)) \<noteq> 0" "\<forall>kv \<in> set (entries (str (hd (inp p)))). fits kv"
  shows "load_config path p = (Inr (map packed (entries (str (hd (inp p))))), called (Fopen name ''r'') p)"
  using assms readConfig_eq [of 4096 "str (hd (inp p))"]
  by (simp add: load_config_def bindM_def text_of_run ask_called prog_run)

text \<open>When the file cannot be opened the process ends.\<close>

lemma load_config_exit:
  assumes "cstr path = Inr name" "inp p \<noteq> []" "rv (hd (inp p)) = 0"
  shows "load_config path p = (Inl (Exit EXIT_FAIL_CODE), called (Fopen name ''r'') p)"
  using assms
  by (simp add: load_config_def bindM_def text_of_run ask_called prog_run readConfig_def loadFile_ConfigFile_def)

lemma info_value_eq:
  assumes "\<forall>kv \<in> set es. fits kv \<and> NUL \<notin> set (fst kv) \<and> NUL \<notin> set (snd kv)" "NUL \<notin> set k" "length k < 64"
  shows "info_value k (map packed es) = (case map_of es k of None \<Rightarrow> Inl NullDeref | Some v \<Rightarrow> Inr (pad 128 v))"
proof -
  have "find (\<lambda>i. textOf (key i) = k) (map packed es) = map_option (\<lambda>v. packed (k, v)) (map_of es k)"
    using assms(1) by (intro find_packed) blast
  moreover have "cfgInv (map packed es)" using assms(1) by (intro cfgInv_packed) blast
  ultimately show ?thesis using assms(2,3)
    by (simp add: info_value_def getInfo_map_of packed_def split: option.splits)
qed

text \<open>The same for the entries of a text, and the bounds of a value that is found.\<close>

lemma info_value_entries:
  assumes "\<forall>kv \<in> set (entries t). fits kv" "NUL \<notin> set k" "length k < 64"
  shows "info_value k (map packed (entries t)) =
    (case map_of (entries t) k of None \<Rightarrow> Inl NullDeref | Some v \<Rightarrow> Inr (pad 128 v))"
  using assms entries_no_nul by (intro info_value_eq) blast+

lemma entry_value:
  assumes "\<forall>kv \<in> set (entries t). fits kv" "map_of (entries t) k = Some v"
  shows "NUL \<notin> set v" "length v < 128"
  using assms entries_no_nul map_of_SomeD [OF assms(2)] by (auto simp: fits_def)

text \<open>The broken-down local time.\<close>

definition tm_of :: "int \<Rightarrow> int \<Rightarrow> tm" where
  "tm_of t off = (case offtime t off of Inr (Some f) \<Rightarrow> f | _ \<Rightarrow> \<lparr>tm_sec = 0, tm_min = 0, tm_hour = 0, tm_mday = 1,
     tm_mon = 0, tm_year = 70, tm_wday = 4, tm_yday = 0\<rparr>)"

definition modern :: "int \<Rightarrow> int \<Rightarrow> bool" where
  "modern off t \<longleftrightarrow> 0 \<le> t + off \<and> t + off < 253402300800"

lemma tm_of_good:
  assumes "modern off t"
  shows "offtime t off = Inr (Some (tm_of t off))" "good_tm (tm_of t off)"
    "day_number (tm_year (tm_of t off) + 1900) (tm_mon (tm_of t off)) (tm_mday (tm_of t off)) = (t + off) div SECS_PER_DAY"
  using offtime_good [of t off] assms by (auto simp: tm_of_def modern_def)

lemma localtime_run: "modern (tzoff p) t \<Longrightarrow> localtime t p = (Inr (tm_of t (tzoff p)), p)"
  by (simp add: localtime_def bindM_def prog_run tm_of_good)

text \<open>The names of the day.\<close>

definition dir_name :: "int \<Rightarrow> int \<Rightarrow> string" where
  "dir_name t off = fst (strftime 11 dir_format (tm_of t off))"

definition date_name :: "int \<Rightarrow> int \<Rightarrow> string" where
  "date_name t off = fst (strftime 11 date_format (tm_of t off))"

lemma decimal_no_nul [simp]: "NUL \<notin> set (decimal n)"
  using isdigit_not_special(1) decimal_digits by blast

lemma day_parts:
  assumes "good_tm f"
  shows "length (decimal (nat (tm_year f + 1900))) = 4" "length (two_digits (nat (tm_mon f + 1))) = 2"
    "length (two_digits (nat (tm_mday f))) = 2"
proof -
  note b = valid_date_bounds [of "tm_year f + 1900" "tm_mon f" "tm_mday f"]
  show "length (decimal (nat (tm_year f + 1900))) = 4"
    using put_number_year(2) [of "tm_year f + 1900" "[]" 11] assms by (simp add: good_tm_def)
  show "length (two_digits (nat (tm_mon f + 1))) = 2" "length (two_digits (nat (tm_mday f))) = 2"
    using b assms by (auto simp: good_tm_def intro!: length_two_digits)
qed

lemma dir_name_run:
  assumes "modern off t"
  shows "strftime 11 dir_format (tm_of t off) = (dir_name t off, True)" "length (dir_name t off) = 8"
    "NUL \<notin> set (dir_name t off)"
  using strftime_dir [of "tm_of t off"] tm_of_good(2) [OF assms] day_parts [of "tm_of t off"]
  by (auto simp: dir_name_def good_tm_def two_digits_def)

lemma date_name_run:
  assumes "modern off t"
  shows "strftime 11 date_format (tm_of t off) = (date_name t off, True)" "length (date_name t off) = 10"
    "NUL \<notin> set (date_name t off)"
  using strftime_date [of "tm_of t off"] tm_of_good(2) [OF assms] day_parts [of "tm_of t off"]
  by (auto simp: date_name_def good_tm_def two_digits_def)

end
