(* ===== verification/Log.thy ===== *)
theory Log
  imports Process
begin

text \<open>
  The logger, \<^verbatim>\<open>log.c\<close>: reading its settings from the configuration file before every
  message, the test of the level, the name of the log file of the day, and the
  formatting of the message.  The other components show a call of \<open>LogWrite\<close> as one
  event; this theory holds what happens inside the call.
\<close>

unbundle bit_operations_syntax

section \<open>State\<close>

abbreviation (input) MAXFILEPATH :: nat where "MAXFILEPATH \<equiv> 512"

abbreviation (input) MAXLOGTIME :: nat where "MAXLOGTIME \<equiv> 20"

record LOGSET =
  filepath :: "char list"
  maxfilelen :: nat
  loglevel :: "8 word"

record LOG =
  logtime :: "char list"
  logpath :: "char list"
  logfile :: int

text \<open>The globals \<open>logsetting\<close>, \<open>loging\<close> and whether \<open>log_mutex\<close> is held.\<close>

record logger =
  logsetting :: LOGSET
  loging :: LOG
  log_mutex :: bool

definition LogLevelText :: "string list" where
  "LogLevelText = [''INFO'', ''DEBUG'', ''WARN'', ''ERROR'']"

section \<open>Operations\<close>

definition GetDate :: "char list \<Rightarrow> char list prog" where
  "GetDate date = bindM (ask Time) (\<lambda>r. bindM (localtime (rv r)) (\<lambda>f. liftM (strftime_to date date_format f)))"

definition GetCode :: "char list \<Rightarrow> 8 word cres" where
  "GetCode path =
     bindR (strcmp (lit ''INFO'') path) (\<lambda>d. if d = 0 then Inr 1 else
     bindR (strcmp (lit ''WARN'') path) (\<lambda>d. if d = 0 then Inr 3 else
     bindR (strcmp (lit ''ERROR'') path) (\<lambda>d. if d = 0 then Inr 4 else
     bindR (strcmp (lit ''NONE'') path) (\<lambda>d. if d = 0 then Inr 0 else
     bindR (strcmp (lit ''DEBUG'') path) (\<lambda>d. if d = 0 then Inr 2 else Inr 255)))))"

definition ReadLogConfig :: "char list \<Rightarrow> LOGSET \<Rightarrow> (int \<times> LOGSET) prog" where
  "ReadLogConfig path ls =
     bindM (load_config path) (\<lambda>info.
     bindM (liftM (bindR (info_value ''log-path'' info) (strcpy (replicate 512 NUL) 0))) (\<lambda>value.
     bindM (GetDate (replicate 50 NUL)) (\<lambda>data.
     bindM (liftM (strcat data (lit ''.log''))) (\<lambda>data.
     bindM (liftM (strcat value (lit ''/''))) (\<lambda>value.
     bindM (liftM (strcat value data)) (\<lambda>value.
     bindM (liftM (strcmp value (filepath ls))) (\<lambda>d.
     bindM (liftM (if d \<noteq> 0 then bindR (strlen value) (memcpy (filepath ls) 0 value) else Inr (filepath ls))) (\<lambda>fp.
     bindM (liftM (bindR (info_value ''log-level'' info) (strcpy (replicate 512 NUL) 0))) (\<lambda>value.
     bindM (liftM (GetCode value)) (\<lambda>code.
     retM (EXIT_SUCCESS_CODE, ls\<lparr>filepath := fp, loglevel := code\<rparr>)))))))))))"

definition GetLogSet :: "LOGSET \<Rightarrow> LOGSET prog" where
  "GetLogSet ls =
     bindM config_path (\<lambda>path. bindM (text_of path) (\<lambda>name. bindM (ask (Access name)) (\<lambda>r.
     if rv r = 0 then
       bindM (ReadLogConfig path ls) (\<lambda>(rc, ls').
       retM (if rc \<noteq> 0 then ls'\<lparr>loglevel := 1, maxfilelen := 4096\<rparr> else ls'))
     else retM (ls\<lparr>loglevel := 1, maxfilelen := 4096\<rparr>))))"

definition clock_text :: "tm \<Rightarrow> string" where
  "clock_text f = sprintf_d (tm_hour f + 8) @ '':'' @ sprintf_d (tm_min f) @ '':'' @ sprintf_d (tm_sec f)"

definition SetTime :: "LOG \<Rightarrow> LOG prog" where
  "SetTime l =
     bindM (ask Time) (\<lambda>r. bindM (localtime (rv r)) (\<lambda>f.
     bindM (liftM (sprintf_to (logtime l) (clock_text f))) (\<lambda>b. retM (l\<lparr>logtime := b\<rparr>))))"

text \<open>
  The characters \<open>s\<close>, \<open>d\<close> and \<open>c\<close> of the format take the next argument, whether or not a
  percent sign precedes them.  Taking an argument that is not there, or one of
  another type, is undefined.  \<open>strerror\<close> is the message of an error number.
\<close>

fun PrintfLog :: "(int \<Rightarrow> string) \<Rightarrow> int \<Rightarrow> char list \<Rightarrow> logarg list \<Rightarrow> unit prog" where
  "PrintfLog strerror fd [] args = failM OutOfBounds"
| "PrintfLog strerror fd (c # format) args =
     (if c = NUL then emit (Fprintf fd [NL])
      else if c = CHR ''s'' then
        (case args of
           S s # args' \<Rightarrow> seqM (emit (Fprintf fd s)) (PrintfLog strerror fd format args')
         | StrError e # args' \<Rightarrow> seqM (emit (Fprintf fd (strerror e))) (PrintfLog strerror fd format args')
         | D _ # _ \<Rightarrow> failM OutOfBounds
         | [] \<Rightarrow> failM Uninit)
      else if c = CHR ''d'' then
        (case args of
           D d # args' \<Rightarrow> seqM (emit (Fprintf fd (sprintf_d d))) (PrintfLog strerror fd format args')
         | _ \<Rightarrow> failM Uninit)
      else if c = CHR ''c'' then
        (case args of
           D d # args' \<Rightarrow> seqM (emit (Fprintf fd [char_of (nat (d mod 256))])) (PrintfLog strerror fd format args')
         | _ \<Rightarrow> failM Uninit)
      else if c \<noteq> CHR ''%'' \<and> c \<noteq> NL then
        seqM (emit (Fprintf fd [c])) (PrintfLog strerror fd format args)
      else PrintfLog strerror fd format args)"

definition InitLog :: "8 word \<Rightarrow> logger \<Rightarrow> (int \<times> logger) prog" where
  "InitLog lvl g =
     bindM (GetLogSet (logsetting g)) (\<lambda>ls.
     if lvl AND loglevel ls \<noteq> lvl then retM (EXIT_FAIL_CODE, g\<lparr>logsetting := ls\<rparr>)
     else
       bindM (SetTime \<lparr>logtime = replicate MAXLOGTIME NUL, logpath = replicate MAXFILEPATH NUL, logfile = 0\<rparr>) (\<lambda>l.
       bindM (liftM (strlen (filepath ls))) (\<lambda>n.
       bindM (if n = 0 then
                bindM (ask (Getenv ''HOME'')) (\<lambda>r.
                if rv r = 0 then failM NullDeref
                else
                  bindM (liftM (store (filepath ls) 0 (textOf (str r)))) (\<lambda>fp.
                  bindM (GetDate (replicate 30 NUL)) (\<lambda>strdate.
                  bindM (liftM (strcat strdate (lit ''.log''))) (\<lambda>strdate.
                  bindM (liftM (strcat fp (lit ''/''))) (\<lambda>fp.
                  liftM (strcat fp strdate))))))
              else retM (filepath ls)) (\<lambda>fp.
       bindM (liftM (memcpy (logpath l) 0 fp MAXFILEPATH)) (\<lambda>lp.
       bindM (text_of lp) (\<lambda>name.
       bindM (ask (Fopen name ''a+'')) (\<lambda>r.
       let g' = g\<lparr>logsetting := ls\<lparr>filepath := fp\<rparr>, loging := l\<lparr>logpath := lp, logfile := rv r\<rparr>\<rparr>
       in if rv r = 0 then seqM (emit (Printf ''Open Log File Fail!'')) (retM (EXIT_FAIL_CODE, g'))
          else
            bindM (liftM (getR LogLevelText (uint lvl - 1))) (\<lambda>level.
            bindM (text_of (logtime l)) (\<lambda>t.
            seqM (emit (Fprintf (rv r) (''['' @ level @ ''] ['' @ t @ ''] ''))) (retM (EXIT_SUCCESS_CODE, g')))))))))))"

text \<open>\<open>LogWrite\<close>; the component's name is taken by its event.\<close>

definition LogWrite_body :: "(int \<Rightarrow> string) \<Rightarrow> 8 word \<Rightarrow> char list \<Rightarrow> logarg list \<Rightarrow> logger \<Rightarrow> (int \<times> logger) prog" where
  "LogWrite_body strerror lvl format args g =
     (if log_mutex g then failM Deadlock
      else
        bindM (InitLog lvl (g\<lparr>log_mutex := True\<rparr>)) (\<lambda>(rc, g1).
        if rc \<noteq> 0 then retM (EXIT_FAIL_CODE, g1\<lparr>log_mutex := False\<rparr>)
        else
          let fd = logfile (loging g1)
          in seqM (PrintfLog strerror fd format args)
            (seqM (emit (Fflush fd))
            (seqM (if fd \<noteq> 0 then emit (Fclose fd) else retM ())
            (retM (EXIT_SUCCESS_CODE, g1\<lparr>loging := (loging g1)\<lparr>logfile := 0\<rparr>, log_mutex := False\<rparr>))))))"

section \<open>Formatting\<close>

text \<open>
  A format as the program writes it: plain characters and \<^verbatim>\<open>%d\<close>, \<^verbatim>\<open>%s\<close> with their
  arguments; its text, its argument list, and what \<open>printf\<close> prints for it.
\<close>

datatype piece = Lit char | Num int | Str string | Err int

fun piece_text :: "piece \<Rightarrow> string" where
  "piece_text (Lit c) = [c]"
| "piece_text (Num d) = ''%d''"
| "piece_text (Str s) = ''%s''"
| "piece_text (Err e) = ''%s''"

fun piece_args :: "piece \<Rightarrow> logarg list" where
  "piece_args (Lit c) = []"
| "piece_args (Num d) = [D d]"
| "piece_args (Str s) = [S s]"
| "piece_args (Err e) = [StrError e]"

fun piece_out :: "(int \<Rightarrow> string) \<Rightarrow> piece \<Rightarrow> string" where
  "piece_out strerror (Lit c) = [c]"
| "piece_out strerror (Num d) = sprintf_d d"
| "piece_out strerror (Str s) = s"
| "piece_out strerror (Err e) = strerror e"

definition plain_piece :: "piece \<Rightarrow> bool" where
  "plain_piece q \<longleftrightarrow> (case q of Lit c \<Rightarrow> c \<notin> set ''sdc%'' \<and> c \<noteq> NL \<and> c \<noteq> NUL | _ \<Rightarrow> True)"

text \<open>What a trace writes to a stream.\<close>

definition written :: "int \<Rightarrow> event list \<Rightarrow> string" where
  "written fd es = concat (map (\<lambda>e. case fst e of Fprintf f s \<Rightarrow> if f = fd then s else [] | _ \<Rightarrow> []) es)"

lemma written_simps [simp]: "written fd [] = []" "written fd (es @ fs) = written fd es @ written fd fs"
  "written fd (e # es) = (case fst e of Fprintf f s \<Rightarrow> if f = fd then s else [] | _ \<Rightarrow> []) @ written fd es"
  by (simp_all add: written_def)

abbreviation prints :: "int \<Rightarrow> event list \<Rightarrow> bool" where
  "prints fd es \<equiv> \<forall>e \<in> set es. \<exists>s. e = (Fprintf fd s, no_ret)"

lemma emit_seq_run: "seqM (emit c) n p = n (p\<lparr>trc := trc p @ [(c, no_ret)]\<rparr>)"
  by (simp add: seqM_def bindM_def prog_run)

lemma PrintfLog_pieces:
  assumes "\<forall>q \<in> set ps. plain_piece q"
  shows "\<exists>es. PrintfLog strerror fd (concat (map piece_text ps) @ [NUL]) (concat (map piece_args ps)) p =
    (Inr (), p\<lparr>trc := trc p @ es\<rparr>) \<and> prints fd es \<and> written fd es = concat (map (piece_out strerror) ps) @ [NL]"
  using assms
proof (induction ps arbitrary: p)
  case Nil
  show ?case by (rule exI [of _ "[(Fprintf fd [NL], no_ret)]"]) (simp add: prog_run)
next
  case (Cons q ps)
  let ?p = "p\<lparr>trc := trc p @ [(Fprintf fd (piece_out strerror q), no_ret)]\<rparr>"
  have "PrintfLog strerror fd (concat (map piece_text (q # ps)) @ [NUL]) (concat (map piece_args (q # ps))) p =
      PrintfLog strerror fd (concat (map piece_text ps) @ [NUL]) (concat (map piece_args ps)) ?p"
    using Cons.prems by (cases q) (auto simp: plain_piece_def emit_seq_run)
  with Cons.IH [of ?p] Cons.prems obtain es where
    "PrintfLog strerror fd (concat (map piece_text (q # ps)) @ [NUL]) (concat (map piece_args (q # ps))) p =
      (Inr (), ?p\<lparr>trc := trc ?p @ es\<rparr>)" "prints fd es" "written fd es = concat (map (piece_out strerror) ps) @ [NL]"
    by auto
  then show ?case by (intro exI [of _ "(Fprintf fd (piece_out strerror q), no_ret) # es"]) simp
qed

section \<open>Settings\<close>

definition level_code :: "string \<Rightarrow> 8 word" where
  "level_code l =
     (if l = ''NONE'' then 0 else if l = ''INFO'' then 1 else if l = ''DEBUG'' then 2
      else if l = ''WARN'' then 3 else if l = ''ERROR'' then 4 else 255)"

lemma GetCode_eq:
  assumes "cstr b = Inr l"
  shows "GetCode b = Inr (level_code l)"
proof -
  have "strcmp (lit k) b = Inr (lexcmp k l)" if "NUL \<notin> set k" for k
    using that assms by (intro strcmp_cstr) simp_all
  moreover have "lexcmp k l = 0 \<longleftrightarrow> k = l" if "NUL \<notin> set k" for k
    using that cstr_no_nul [OF assms] by (rule lexcmp_0_iff)
  ultimately show ?thesis by (auto simp: GetCode_def level_code_def)
qed

lemma GetDate_run:
  assumes "inp p \<noteq> []" "modern (tzoff p) (rv (hd (inp p)))" "10 < n"
  shows "GetDate (replicate n NUL) p = (Inr (pad n (date_name (rv (hd (inp p))) (tzoff p))), called Time p)"
  using assms date_name_run [OF assms(2)]
  by (simp add: GetDate_def bindM_def ask_called localtime_run prog_run pad_strftime)

text \<open>
  Copying a new path over the old one without its NUL: what is behind the new path
  in the array stays.
\<close>

definition overlay :: "string \<Rightarrow> string \<Rightarrow> string" where
  "overlay new old = new @ drop (length new) old"

lemma overlay_memcpy:
  assumes "length new < n" "length old < n"
  shows "memcpy (pad n old) 0 (pad n new) (length new) = Inr (pad n (overlay new old))"
  using assms by (auto simp: memcpy_eq pad_def overlay_def)

text \<open>The path of today's log file.\<close>

definition log_file :: "string \<Rightarrow> int \<Rightarrow> int \<Rightarrow> string" where
  "log_file dir t off = dir @ ''/'' @ date_name t off @ ''.log''"

lemma log_file_text:
  assumes "modern off t" "NUL \<notin> set dir" "length dir < 128"
  shows "NUL \<notin> set (log_file dir t off)" "length (log_file dir t off) < 512"
  using date_name_run [OF assms(1)] assms(2,3) by (auto simp: log_file_def)

lemma ReadLogConfig_run:
  assumes c: "cstr path = Inr name" and i: "inp p = a # b # rest" and a: "rv a \<noteq> 0" "\<forall>kv \<in> set (entries (str a)). fits kv"
    and b: "modern (tzoff p) (rv b)"
    and v: "map_of (entries (str a)) ''log-path'' = Some dir" "map_of (entries (str a)) ''log-level'' = Some l"
    and old: "filepath ls = pad 512 old" "NUL \<notin> set old" "length old < 512"
  shows "ReadLogConfig path ls p =
    (Inr (0, ls\<lparr>filepath := pad 512 (overlay (log_file dir (rv b) (tzoff p)) old), loglevel := level_code l\<rparr>),
     called Time (called (Fopen name ''r'') p))"
proof -
  let ?v = "log_file dir (rv b) (tzoff p)"
  let ?p = "called (Fopen name ''r'') p"
  note dir = entry_value [OF a(2) v(1)] and lev = entry_value [OF a(2) v(2)]
  note date = date_name_run [OF b] and f = log_file_text [OF b dir]
  have 1: "load_config path p = (Inr (map packed (entries (str a))), ?p)" using load_config_run [OF c, of p] i a by simp
  have 2: "info_value ''log-path'' (map packed (entries (str a))) = Inr (pad 128 dir)"
    "info_value ''log-level'' (map packed (entries (str a))) = Inr (pad 128 l)"
    using info_value_entries [OF a(2)] v by simp_all
  have 3: "GetDate (replicate 50 NUL) ?p = (Inr (pad 50 (date_name (rv b) (tzoff p))), called Time ?p)"
    using GetDate_run [of ?p 50] i b by simp
  have 4: "strcpy (replicate 512 NUL) 0 (pad 128 dir) = Inr (pad 512 dir)"
    "strcpy (replicate 512 NUL) 0 (pad 128 l) = Inr (pad 512 l)"
    using dir lev by (simp_all add: pad_strcpy [of _ dir] pad_strcpy [of _ l])
  have 5: "strcat (pad 50 (date_name (rv b) (tzoff p))) (lit ''.log'') = Inr (pad 50 (date_name (rv b) (tzoff p) @ ''.log''))"
    "strcat (pad 512 dir) (lit ''/'') = Inr (pad 512 (dir @ ''/''))"
    using date dir by (simp_all add: pad_strcat)
  have 6: "strcat (pad 512 (dir @ ''/'')) (pad 50 (date_name (rv b) (tzoff p) @ ''.log'')) = Inr (pad 512 ?v)"
    using date dir by (simp add: pad_strcat log_file_def)
  have 7: "strcmp (pad 512 ?v) (pad 512 old) = Inr (lexcmp ?v old)" "lexcmp ?v old = 0 \<longleftrightarrow> ?v = old"
    using f old by (simp_all add: strcmp_cstr lexcmp_0_iff)
  have 8: "strlen (pad 512 ?v) = Inr (length ?v)" using f by (simp add: strlen_cstr)
  have 9: "bindM (liftM (strcmp (pad 512 ?v) (filepath ls))) (\<lambda>d. bindM (liftM (if d \<noteq> 0
      then bindR (strlen (pad 512 ?v)) (memcpy (filepath ls) 0 (pad 512 ?v)) else Inr (filepath ls))) k) =
      k (pad 512 (overlay ?v old))" for k :: "_ \<Rightarrow> (int \<times> LOGSET) prog"
    using 7(2) overlay_memcpy [OF f(2) old(3)] by (simp add: 7(1) 8 old(1)) (simp add: overlay_def)
  have 10: "GetCode (pad 512 l) = Inr (level_code l)" using lev by (simp add: GetCode_eq)
  show ?thesis
    by (simp add: ReadLogConfig_def bindM_def [where m = "load_config path"] 1 2 prog_run 4
        bindM_def [where m = "GetDate _"] 3 5 6 9 10 EXIT_SUCCESS_CODE_def)
qed

section \<open>A message\<close>

text \<open>
  The answers to the calls that read the settings: the working directory, the test
  for the configuration file, its content, and the time of the date.
\<close>

definition log_env :: "ret list \<Rightarrow> int \<Rightarrow> string \<Rightarrow> string \<Rightarrow> bool" where
  "log_env as off dir l \<longleftrightarrow> (case as of [w, x, a, b] \<Rightarrow>
     length (textOf (str w)) < 500 \<and> rv x = 0 \<and> rv a \<noteq> 0 \<and> (\<forall>kv \<in> set (entries (str a)). fits kv) \<and>
     map_of (entries (str a)) ''log-path'' = Some dir \<and> map_of (entries (str a)) ''log-level'' = Some l \<and>
     modern off (rv b) | _ \<Rightarrow> False)"

lemma log_envE:
  assumes "log_env as off dir l"
  obtains w x a b where "as = [w, x, a, b]" "length (textOf (str w)) < 500" "rv x = 0" "rv a \<noteq> 0"
    "\<forall>kv \<in> set (entries (str a)). fits kv" "map_of (entries (str a)) ''log-path'' = Some dir"
    "map_of (entries (str a)) ''log-level'' = Some l" "modern off (rv b)"
  using assms by (auto simp: log_env_def split: list.splits)

text \<open>The calls of reading the settings, given their answers.\<close>

definition log_calls :: "ret list \<Rightarrow> event list" where
  "log_calls as = zip [Getcwd, Access (textOf (str (as ! 0)) @ CONFIGFILE),
     Fopen (textOf (str (as ! 0)) @ CONFIGFILE) ''r'', Time] as"

lemma GetLogSet_run:
  assumes e: "log_env as (tzoff p) dir l" and i: "inp p = as @ rest"
    and old: "filepath ls = pad 512 old" "NUL \<notin> set old" "length old < 512"
  shows "GetLogSet ls p =
    (Inr (ls\<lparr>filepath := pad 512 (overlay (log_file dir (rv (as ! 3)) (tzoff p)) old), loglevel := level_code l\<rparr>),
     p\<lparr>inp := rest, trc := trc p @ log_calls as\<rparr>)"
proof -
  from e obtain w x a b where as: "as = [w, x, a, b]" "length (textOf (str w)) < 500" "rv x = 0" "rv a \<noteq> 0"
    "\<forall>kv \<in> set (entries (str a)). fits kv" "map_of (entries (str a)) ''log-path'' = Some dir"
    "map_of (entries (str a)) ''log-level'' = Some l" "modern (tzoff p) (rv b)" by (rule log_envE)
  let ?c = "textOf (str w) @ CONFIGFILE"
  let ?p = "called (Access ?c) (called Getcwd p)"
  have n: "cstr (pad 512 ?c) = Inr ?c" using as(2) by simp
  have 1: "config_path p = (Inr (pad 512 ?c), called Getcwd p)" using config_path_run [of p] i as by simp
  have 2: "ReadLogConfig (pad 512 ?c) ls ?p =
      (Inr (0, ls\<lparr>filepath := pad 512 (overlay (log_file dir (rv b) (tzoff p)) old), loglevel := level_code l\<rparr>),
       called Time (called (Fopen ?c ''r'') ?p))"
    using ReadLogConfig_run [OF n, of ?p a b rest dir l ls old] i as old by simp
  have 3: "ask (Access ?c) (called Getcwd p) = (Inr x, ?p)" using ask_called [of "called Getcwd p"] i as(1) by simp
  have "called Time (called (Fopen ?c ''r'') ?p) = p\<lparr>inp := rest, trc := trc p @ log_calls as\<rparr>"
    using as(1) i by (simp add: log_calls_def called_def)
  then show ?thesis
    using as(1,3) by (simp add: GetLogSet_def bindM_def 1 text_of_run [OF n] 2 3 prog_run)
qed

text \<open>A level the settings do not let through: nothing is written and the mutex is free again.\<close>

lemma InitLog_masked:
  assumes "log_env as (tzoff p) dir l" "inp p = as @ rest" "lvl AND level_code l \<noteq> lvl"
    and "filepath (logsetting g) = pad 512 old" "NUL \<notin> set old" "length old < 512"
  shows "\<exists>g'. InitLog lvl g p = (Inr (EXIT_FAIL_CODE, g'), p\<lparr>inp := rest, trc := trc p @ log_calls as\<rparr>)"
  using assms(3) by (simp add: InitLog_def bindM_def GetLogSet_run [OF assms(1,2,4-6)] prog_run)

lemma small_decimal: "0 \<le> n \<Longrightarrow> n < 100 \<Longrightarrow> length (sprintf_d n) \<le> 2"
  using decimal_length [of "nat n" 2] by (simp add: sprintf_d_eq nat_less_iff)

lemma clock_text_short:
  assumes "good_tm f"
  shows "length (clock_text f) \<le> 8" "NUL \<notin> set (clock_text f)"
proof -
  have "length (sprintf_d (tm_hour f + 8)) \<le> 2" "length (sprintf_d (tm_min f)) \<le> 2" "length (sprintf_d (tm_sec f)) \<le> 2"
    using assms by (auto simp: good_tm_def intro!: small_decimal)
  then show "length (clock_text f) \<le> 8" by (simp add: clock_text_def)
  show "NUL \<notin> set (clock_text f)"
    using sprintf_d_chars [of NUL] isdigit_not_special(1) by (auto simp: clock_text_def)
qed

lemma SetTime_run:
  assumes "inp p \<noteq> []" "modern (tzoff p) (rv (hd (inp p)))" "logtime l = replicate MAXLOGTIME NUL"
  shows "SetTime l p = (Inr (l\<lparr>logtime := pad MAXLOGTIME (clock_text (tm_of (rv (hd (inp p))) (tzoff p)))\<rparr>), called Time p)"
  using clock_text_short(1) [OF tm_of_good(2) [OF assms(2)]] assms
  by (simp add: SetTime_def bindM_def ask_called localtime_run prog_run pad_sprintf)

lemma overlay_text:
  assumes "NUL \<notin> set a" "NUL \<notin> set b" "length a < n" "length b < n" "a \<noteq> []"
  shows "NUL \<notin> set (overlay a b)" "length (overlay a b) < n" "overlay a b \<noteq> []"
  using assms by (auto simp: overlay_def dest: in_set_dropD)

lemma InitLog_run:
  assumes e: "log_env as (tzoff p) dir l" and i: "inp p = as @ c # d # rest"
    and lvl: "lvl AND level_code l = lvl" "1 \<le> uint lvl" "uint lvl \<le> 4"
    and t: "modern (tzoff p) (rv c)" and fd: "rv d \<noteq> 0"
    and old: "filepath (logsetting g) = pad 512 old" "NUL \<notin> set old" "length old < 512"
  defines "path \<equiv> overlay (log_file dir (rv (as ! 3)) (tzoff p)) old"
  shows "\<exists>g'. InitLog lvl g p = (Inr (0, g'), p\<lparr>inp := rest, trc := trc p @ log_calls as @
      [(Time, c), (Fopen path ''a+'', d), (Fprintf (rv d) (''['' @ LogLevelText ! nat (uint lvl - 1) @ ''] ['' @
         clock_text (tm_of (rv c) (tzoff p)) @ ''] ''), no_ret)]\<rparr>) \<and>
    filepath (logsetting g') = pad 512 path \<and> logfile (loging g') = rv d \<and> log_mutex g' = log_mutex g"
proof -
  let ?p = "p\<lparr>inp := c # d # rest, trc := trc p @ log_calls as\<rparr>"
  let ?t = "clock_text (tm_of (rv c) (tzoff p))"
  from e obtain w x a b where as: "as = [w, x, a, b]" "\<forall>kv \<in> set (entries (str a)). fits kv"
    "map_of (entries (str a)) ''log-path'' = Some dir" "modern (tzoff p) (rv b)" by (rule log_envE)
  have lf: "NUL \<notin> set (log_file dir (rv (as ! 3)) (tzoff p))" "length (log_file dir (rv (as ! 3)) (tzoff p)) < 512"
    using log_file_text [OF as(4) entry_value [OF as(2,3)]] as(1) by simp_all
  have "log_file dir (rv (as ! 3)) (tzoff p) \<noteq> []" by (simp add: log_file_def)
  note ov = overlay_text [OF lf(1) old(2) lf(2) old(3) this, folded path_def]
  have 1: "SetTime \<lparr>logtime = replicate MAXLOGTIME NUL, logpath = replicate MAXFILEPATH NUL, logfile = 0\<rparr> ?p =
      (Inr \<lparr>logtime = pad MAXLOGTIME ?t, logpath = replicate MAXFILEPATH NUL, logfile = 0\<rparr>, called Time ?p)"
    using SetTime_run [of ?p] t by simp
  have 2: "strlen (pad 512 path) = Inr (length path)" using ov by (simp add: strlen_cstr)
  have 3: "memcpy (replicate MAXFILEPATH NUL) 0 (pad 512 path) MAXFILEPATH = Inr (pad 512 path)"
    using ov by (simp add: memcpy_eq)
  have 4: "cstr (pad 512 path) = Inr path" "cstr (pad MAXLOGTIME ?t) = Inr ?t"
    using ov clock_text_short [OF tm_of_good(2) [OF t]] by simp_all
  have 5: "getR LogLevelText (uint lvl - 1) = Inr (LogLevelText ! nat (uint lvl - 1))"
    using lvl by (simp add: getR_def LogLevelText_def)
  show ?thesis
    using lvl(1) ov(3) fd
    by (simp add: InitLog_def bindM_def GetLogSet_run [OF e i old, folded path_def] 1 prog_run 2 3 text_of_run [OF 4(1)]
        text_of_run [OF 4(2)] ask_called called_def 5 Let_def emit_seq_run EXIT_SUCCESS_CODE_def)
qed

section \<open>Properties\<close>

text \<open>
  C12. A message that passes the level test is written as one line: the level's name,
  the time, and the text \<open>printf\<close> would print for the format, to the file named after
  the configured directory and the day (with the end of the previous path behind it
  when that was longer), which is closed again; the mutex is free again.
\<close>

theorem log_line:
  assumes "log_env as (tzoff p) dir l" "inp p = as @ c # d # rest"
    and "lvl AND level_code l = lvl" "1 \<le> uint lvl" "uint lvl \<le> 4"
    and "modern (tzoff p) (rv c)" "rv d \<noteq> 0" "\<not> log_mutex g"
    and "filepath (logsetting g) = pad 512 old" "NUL \<notin> set old" "length old < 512"
    and "\<forall>q \<in> set ps. plain_piece q"
  shows "\<exists>g' p' es. LogWrite_body strerror lvl (concat (map piece_text ps) @ [NUL]) (concat (map piece_args ps)) g p =
      (Inr (EXIT_SUCCESS_CODE, g'), p') \<and> inp p' = rest \<and>
    trc p' = trc p @ log_calls as @ [(Time, c), (Fopen (overlay (log_file dir (rv (as ! 3)) (tzoff p)) old) ''a+'', d)] @
      es @ [(Fflush (rv d), no_ret), (Fclose (rv d), no_ret)] \<and> prints (rv d) es \<and>
    written (rv d) es = ''['' @ LogLevelText ! nat (uint lvl - 1) @ ''] ['' @ clock_text (tm_of (rv c) (tzoff p)) @ ''] '' @
      concat (map (piece_out strerror) ps) @ [NL] \<and>
    \<not> log_mutex g' \<and> logfile (loging g') = 0 \<and>
    filepath (logsetting g') = pad 512 (overlay (log_file dir (rv (as ! 3)) (tzoff p)) old)"
proof -
  let ?path = "overlay (log_file dir (rv (as ! 3)) (tzoff p)) old"
  let ?h = "''['' @ LogLevelText ! nat (uint lvl - 1) @ ''] ['' @ clock_text (tm_of (rv c) (tzoff p)) @ ''] ''"
  let ?p = "p\<lparr>inp := rest, trc := trc p @ log_calls as @ [(Time, c), (Fopen ?path ''a+'', d), (Fprintf (rv d) ?h, no_ret)]\<rparr>"
  have "filepath (logsetting (g\<lparr>log_mutex := True\<rparr>)) = pad 512 old" using assms(9) by simp
  from InitLog_run [OF assms(1-7) this assms(10,11)] obtain g1 where
    g1: "InitLog lvl (g\<lparr>log_mutex := True\<rparr>) p = (Inr (0, g1), ?p)"
      "filepath (logsetting g1) = pad 512 ?path" "logfile (loging g1) = rv d" by blast
  obtain es where es: "PrintfLog strerror (rv d) (concat (map piece_text ps) @ [NUL]) (concat (map piece_args ps)) ?p =
      (Inr (), ?p\<lparr>trc := trc ?p @ es\<rparr>)" "prints (rv d) es" "written (rv d) es = concat (map (piece_out strerror) ps) @ [NL]"
    using PrintfLog_pieces [OF assms(12)] by blast
  show ?thesis
    using assms(7,8) g1 es
    by (intro exI [of _ "g1\<lparr>loging := (loging g1)\<lparr>logfile := 0\<rparr>, log_mutex := False\<rparr>"]
        exI [of _ "?p\<lparr>trc := trc ?p @ es @ [(Fflush (rv d), no_ret), (Fclose (rv d), no_ret)]\<rparr>"]
        exI [of _ "(Fprintf (rv d) ?h, no_ret) # es"])
      (simp add: LogWrite_body_def bindM_def seqM_def prog_run Let_def)
qed

definition demo_config :: string where
  "demo_config = printConfig [(''log-path'', ''./log''), (''log-level'', ''ALL'')]"

lemma demo_config_entries: "entries demo_config = [(''log-path'', ''./log''), (''log-level'', ''ALL'')]"
  by code_simp

theorem log_line_witness:
  "\<exists>g' p' es. LogWrite_body (\<lambda>_. []) 4 (''%d %s'' @ [NUL]) [D 21, S ''fork error'']
      \<lparr>logsetting = \<lparr>filepath = pad 512 [], maxfilelen = 0, loglevel = 0\<rparr>,
       loging = \<lparr>logtime = [], logpath = [], logfile = 0\<rparr>, log_mutex = False\<rparr>
      (boot [no_ret\<lparr>str := ''/srv''\<rparr>, no_ret, no_ret\<lparr>rv := 7, str := demo_config\<rparr>, no_ret\<lparr>rv := 1667900000\<rparr>,
        no_ret\<lparr>rv := 1667900000\<rparr>, no_ret\<lparr>rv := 7\<rparr>] []) =
      (Inr (EXIT_SUCCESS_CODE, g'), p') \<and> inp p' = [] \<and> prints 7 es \<and>
    written 7 es = ''[ERROR] ['' @ clock_text (tm_of 1667900000 0) @ ''] '' @ sprintf_d 21 @ '' fork error'' @ [NL]"
proof -
  let ?p = "(boot [no_ret\<lparr>str := ''/srv''\<rparr>, no_ret, no_ret\<lparr>rv := 7, str := demo_config\<rparr>, no_ret\<lparr>rv := 1667900000\<rparr>,
        no_ret\<lparr>rv := 1667900000\<rparr>, no_ret\<lparr>rv := 7\<rparr>] [])"
  let ?as = "[no_ret\<lparr>str := ''/srv''\<rparr>, no_ret, no_ret\<lparr>rv := 7, str := demo_config\<rparr>, no_ret\<lparr>rv := 1667900000\<rparr>]"
  have e: "log_env ?as (tzoff ?p) ''./log'' ''ALL''"
    by (simp add: log_env_def demo_config_entries fits_def textOf_def modern_def)
  have "level_code ''ALL'' = 255" by code_simp
  then show ?thesis
    using log_line [OF e, of "no_ret\<lparr>rv := 1667900000\<rparr>" "no_ret\<lparr>rv := 7\<rparr>" "[]" 4
      "\<lparr>logsetting = \<lparr>filepath = pad 512 [], maxfilelen = 0, loglevel = 0\<rparr>,
       loging = \<lparr>logtime = [], logpath = [], logfile = 0\<rparr>, log_mutex = False\<rparr>" "[]"
      "[Num 21, Lit CHR '' '', Str ''fork error'']" "\<lambda>_. []"]
    by (auto simp: plain_piece_def LogLevelText_def modern_def)
qed

text \<open>
  C35. A message whose level the settings mask out writes nothing and opens no log
  file: after reading the settings the logger returns the failure code, with the
  mutex free again.
\<close>

theorem log_masked:
  assumes "log_env as (tzoff p) dir l" "inp p = as @ rest" "lvl AND level_code l \<noteq> lvl" "\<not> log_mutex g"
    and "filepath (logsetting g) = pad 512 old" "NUL \<notin> set old" "length old < 512"
  shows "\<exists>g'. LogWrite_body strerror lvl format args g p =
      (Inr (EXIT_FAIL_CODE, g'), p\<lparr>inp := rest, trc := trc p @ log_calls as\<rparr>) \<and> \<not> log_mutex g'"
proof -
  have "filepath (logsetting (g\<lparr>log_mutex := True\<rparr>)) = pad 512 old" using assms(5) by simp
  from InitLog_masked [OF assms(1-3) this assms(6,7)] obtain g1 where
    "InitLog lvl (g\<lparr>log_mutex := True\<rparr>) p = (Inr (EXIT_FAIL_CODE, g1), p\<lparr>inp := rest, trc := trc p @ log_calls as\<rparr>)" ..
  with assms(4) show ?thesis by (simp add: LogWrite_body_def bindM_def prog_run EXIT_FAIL_CODE_def)
qed

definition warn_config :: string where
  "warn_config = printConfig [(''log-path'', ''./log''), (''log-level'', ''WARN'')]"

lemma warn_config_entries: "entries warn_config = [(''log-path'', ''./log''), (''log-level'', ''WARN'')]"
  by code_simp

theorem log_masked_witness:
  "\<exists>g'. LogWrite_body (\<lambda>_. []) 4 (''%d %s'' @ [NUL]) [D 21, S ''fork error'']
      \<lparr>logsetting = \<lparr>filepath = pad 512 [], maxfilelen = 0, loglevel = 0\<rparr>,
       loging = \<lparr>logtime = [], logpath = [], logfile = 0\<rparr>, log_mutex = False\<rparr>
      (boot [no_ret\<lparr>str := ''/srv''\<rparr>, no_ret, no_ret\<lparr>rv := 7, str := warn_config\<rparr>, no_ret\<lparr>rv := 1667900000\<rparr>] []) =
      (Inr (EXIT_FAIL_CODE, g'), (boot [] [])\<lparr>trc := log_calls [no_ret\<lparr>str := ''/srv''\<rparr>, no_ret,
        no_ret\<lparr>rv := 7, str := warn_config\<rparr>, no_ret\<lparr>rv := 1667900000\<rparr>]\<rparr>) \<and>
    \<not> log_mutex g'"
proof -
  let ?as = "[no_ret\<lparr>str := ''/srv''\<rparr>, no_ret, no_ret\<lparr>rv := 7, str := warn_config\<rparr>, no_ret\<lparr>rv := 1667900000\<rparr>]"
  let ?p = "(boot ?as [])"
  have e: "log_env ?as (tzoff ?p) ''./log'' ''WARN''"
    by (simp add: log_env_def warn_config_entries fits_def textOf_def modern_def)
  have m: "(4 :: 8 word) AND level_code ''WARN'' \<noteq> 4" by code_simp
  show ?thesis
    using log_masked [OF e, of "[]" 4 "\<lparr>logsetting = \<lparr>filepath = pad 512 [], maxfilelen = 0, loglevel = 0\<rparr>,
       loging = \<lparr>logtime = [], logpath = [], logfile = 0\<rparr>, log_mutex = False\<rparr>" "[]" "\<lambda>_. []"] m by (simp add: boot_def)
qed

text \<open>
  Which levels pass under which setting.  The setting is a number and the test a
  bit mask, so \<open>WARN\<close> lets \<open>INFO\<close> and \<open>DEBUG\<close> messages through and drops \<open>ERROR\<close> messages,
  and every name that is not one of the five, \<open>ALL\<close> among them, lets all through.
\<close>

lemma log_level_table:
  "map (\<lambda>l. case GetCode (lit l) of Inl e \<Rightarrow> None | Inr c \<Rightarrow> Some (filter (\<lambda>lvl. lvl AND c = lvl) [1, 2, 3, 4]))
     [''NONE'', ''INFO'', ''DEBUG'', ''WARN'', ''ERROR'', ''ALL'', ''info'', []] =
   [Some [], Some [1], Some [2], Some [1, 2, 3], Some [4], Some [1, 2, 3, 4], Some [1, 2, 3, 4], Some [1, 2, 3, 4]]"
  by code_simp

text \<open>
  The formatter takes an argument for every letter \<open>s\<close>, \<open>d\<close> or \<open>c\<close> of the format, also
  in plain text: a format whose plain text reaches such a letter with no argument
  left reads an argument that was not passed.
\<close>

lemma log_plain_letter:
  assumes "\<forall>x \<in> set pre. x \<notin> set ''sdc'' \<and> x \<noteq> NUL" "c \<in> set ''sdc''"
  shows "fst (PrintfLog strerror fd (pre @ c # post) [] p) = Inl Uninit"
  using assms
proof (induction pre arbitrary: p)
  case Nil
  then show ?case by (auto simp: prog_run)
next
  case (Cons x pre)
  then show ?case by (auto simp: emit_seq_run)
qed

end
