(* ===== verification/RecordData.thy ===== *)
theory RecordData
  imports Process
begin

text \<open>
  Recording, \<^verbatim>\<open>recordData.c\<close>: the directory of the day, created on demand, and the
  numbered file of one message.  \<open>uuid\<close> counts the records of the process within a
  directory.
\<close>

section \<open>Operations\<close>

definition GetDirName :: "char list \<Rightarrow> char list prog" where
  "GetDirName date = bindM (ask Time) (\<lambda>r. bindM (localtime (rv r)) (\<lambda>f. liftM (strftime_to date dir_format f)))"

text \<open>The path of the directory of the day, as \<open>CreateDataDir\<close> and the playback build it.\<close>

definition data_dir :: "ConfigInfo list \<Rightarrow> char list prog" where
  "data_dir info =
     bindM (liftM (bindR (info_value ''data-path'' info) (strcpy (replicate 512 NUL) 0))) (\<lambda>value.
     bindM (GetDirName (replicate 50 NUL)) (\<lambda>data.
     bindM (liftM (strcat value (lit ''/''))) (\<lambda>value.
     liftM (strcat value data))))"

definition CreateDataDir :: "char list \<Rightarrow> (int \<times> char list) prog" where
  "CreateDataDir path =
     bindM (load_config path) (\<lambda>info.
     bindM (data_dir info) (\<lambda>value.
     bindM (text_of value) (\<lambda>name.
     let finish =
       bindM (liftM (bindR (memset path 0 NUL 512) (\<lambda>p. bindR (strlen value) (memcpy p 0 value)))) (\<lambda>path'.
       retM (EXIT_SUCCESS_CODE, path'))
     in bindM (ask (Access name)) (\<lambda>r.
        if rv r = 0 then seqM (modM (uuid_update (\<lambda>u. u + 1))) finish
        else
          bindM (ask (Mkdir name)) (\<lambda>ret.
          if rv ret \<noteq> 0 then
            seqM (LogWrite ERROR ''%d %s :%s'' [D 36, S ''mkdir failed'', StrError (err ret)])
              (retM (EXIT_FAIL_CODE, path))
          else seqM (modM (uuid_update (\<lambda>_. 0))) finish)))))"

definition record_name :: "32 word \<Rightarrow> 32 word \<Rightarrow> string" where
  "record_name timestamp u = sprintf_d (sint timestamp) @ ''_'' @ sprintf_03d (sint u)"

definition CreateDataFile :: "char list \<Rightarrow> char list prog" where
  "CreateDataFile path =
     bindM (ask Time) (\<lambda>_.
     bindM (ask Time) (\<lambda>t.
     seqM (bindM (getM uuid) (\<lambda>u. if u > 999 then modM (uuid_update (\<lambda>_. 0)) else retM ()))
     (bindM (liftM (strcat path (lit ''/''))) (\<lambda>path.
      bindM (getM uuid) (\<lambda>u.
      bindM (liftM (sprintf_to (replicate 512 NUL) (record_name (word_of_int (rv t)) u))) (\<lambda>charValue.
      bindM (liftM (strcat path charValue)) (\<lambda>path.
      liftM (strcat path (lit ''.data'')))))))))"

text \<open>The result is the stream, 0 the null pointer.\<close>

definition initDataRecord :: "int prog" where
  "initDataRecord =
     bindM config_path (\<lambda>path.
     bindM (text_of path) (\<lambda>name.
     bindM (ask (Access name)) (\<lambda>r.
     if rv r = 0 then
       bindM (CreateDataDir path) (\<lambda>(rc, path).
       if rc = EXIT_FAIL_CODE then
         seqM (LogWrite ERROR ''%d %s'' [D 71, S ''CreateDataDir failed'']) (retM 0)
       else
         bindM (CreateDataFile path) (\<lambda>path.
         bindM (text_of path) (\<lambda>file.
         bindM (ask (Fopen file ''w+'')) (\<lambda>fp.
         if rv fp = 0 then
           seqM (LogWrite ERROR ''%d %s :%s'' [D 83, S ''fopen failed'', StrError (err fp)]) (retM 0)
         else retM (rv fp)))))
     else
       seqM (LogWrite ERROR ''%d %s :%s'' [D 75, S ''data directory create failed'', StrError (err r)]) (retM 0))))"

section \<open>Effects\<close>

text \<open>Recording makes no call on the network.\<close>

definition local_call :: "call \<Rightarrow> bool" where
  "local_call c \<longleftrightarrow> (case c of Log _ _ _ \<Rightarrow> True | Time \<Rightarrow> True | Getcwd \<Rightarrow> True | Access _ \<Rightarrow> True | Mkdir _ \<Rightarrow> True
     | Fopen _ _ \<Rightarrow> True | _ \<Rightarrow> False)"

lemma local_calls [simp]:
  "local_call (Log l f as)" "local_call Time" "local_call Getcwd" "local_call (Access n)" "local_call (Mkdir n)"
  "local_call (Fopen n m)" "\<not> local_call (Send d b)" "\<not> local_call (Connect d a q)" "\<not> local_call (Fwrite d b)"
  "\<not> local_call (Recv d k)" "\<not> local_call Socket"
  by (simp_all add: local_call_def)

lemma GetDirName_only: "P Time \<Longrightarrow> only P (GetDirName b)"
  by (auto simp: GetDirName_def intro!: only_intros)

lemma data_dir_only: "P Time \<Longrightarrow> only P (data_dir info)"
  by (auto simp: data_dir_def intro!: only_intros GetDirName_only)

lemma initDataRecord_only: "only local_call initDataRecord"
  by (auto simp: initDataRecord_def CreateDataDir_def CreateDataFile_def Let_def intro!: only_intros data_dir_only)

section \<open>Names\<close>

lemma sprintf_d_no_nul [simp]: "NUL \<notin> set (sprintf_d n)"
  using sprintf_d_chars [of NUL n] isdigit_not_special(1) by auto

lemma sprintf_d_length: "- (10 ^ 10) < n \<Longrightarrow> n < 10 ^ 10 \<Longrightarrow> length (sprintf_d n) \<le> 11"
  using decimal_length [of "nat \<bar>n\<bar>" 10] by (cases "n < 0") (simp_all add: sprintf_d_eq nat_less_iff)

lemma uuid_sint: "u \<le> (999 :: 32 word) \<Longrightarrow> sint u = uint u \<and> uint u \<le> 999"
  by (simp add: word_le_def sint_uint signed_take_bit_int_eq_self uint_ge_0 order_trans [OF _ uint_ge_0])

lemma sprintf_03d_length:
  assumes "0 \<le> n" "n \<le> 999"
  shows "length (sprintf_03d n) = 3" "NUL \<notin> set (sprintf_03d n)"
proof -
  have "length (decimal (nat n)) \<le> 3" using assms by (intro decimal_length) auto
  then show "length (sprintf_03d n) = 3" "NUL \<notin> set (sprintf_03d n)"
    using assms(1) by (auto simp: sprintf_03d_eq)
qed

lemma record_name_text:
  assumes "u \<le> 999"
  shows "NUL \<notin> set (record_name t u)" "length (record_name t u) \<le> 15"
proof -
  have "- (10 ^ 10) < sint t" "sint t < 10 ^ 10" using sint_range_size [of t] by (simp_all add: word_size)
  from sprintf_d_length [OF this] sprintf_03d_length [of "sint u"] uuid_sint [OF assms] uint_ge_0 [of u]
  show "NUL \<notin> set (record_name t u)" "length (record_name t u) \<le> 15" by (simp_all add: record_name_def)
qed

text \<open>The number the next record gets.\<close>

definition next_uuid :: "bool \<Rightarrow> 32 word \<Rightarrow> 32 word" where
  "next_uuid exists u = (if exists \<and> u + 1 \<le> 999 then u + 1 else 0)"

lemma next_uuid_bound: "next_uuid b u \<le> 999"
  by (simp add: next_uuid_def)

definition day_dir :: "string \<Rightarrow> int \<Rightarrow> int \<Rightarrow> string" where
  "day_dir dir t off = dir @ ''/'' @ dir_name t off"

definition record_path :: "string \<Rightarrow> int \<Rightarrow> int \<Rightarrow> int \<Rightarrow> 32 word \<Rightarrow> string" where
  "record_path dir day off t u = day_dir dir day off @ ''/'' @ record_name (word_of_int t) u @ ''.data''"

section \<open>Running\<close>

lemma GetDirName_run:
  assumes "inp p \<noteq> []" "modern (tzoff p) (rv (hd (inp p)))" "8 < n"
  shows "GetDirName (replicate n NUL) p = (Inr (pad n (dir_name (rv (hd (inp p))) (tzoff p))), called Time p)"
  using assms dir_name_run [OF assms(2)]
  by (simp add: GetDirName_def bindM_def ask_called localtime_run prog_run pad_strftime)

lemma data_dir_run:
  assumes e: "\<forall>kv \<in> set (entries t). fits kv" "map_of (entries t) ''data-path'' = Some dir"
    and i: "inp p \<noteq> []" "modern (tzoff p) (rv (hd (inp p)))"
  shows "data_dir (map packed (entries t)) p = (Inr (pad 512 (day_dir dir (rv (hd (inp p))) (tzoff p))), called Time p)"
proof -
  note d = entry_value [OF e] and n = dir_name_run [OF i(2)]
  have 1: "info_value ''data-path'' (map packed (entries t)) = Inr (pad 128 dir)"
    using info_value_entries [OF e(1), of "''data-path''"] e(2) by simp
  have 2: "strcpy (replicate 512 NUL) 0 (pad 128 dir) = Inr (pad 512 dir)" using d by (simp add: pad_strcpy [of _ dir])
  have 3: "strcat (pad 512 dir) (lit ''/'') = Inr (pad 512 (dir @ ''/''))" using d by (simp add: pad_strcat)
  have 4: "strcat (pad 512 (dir @ ''/'')) (pad 50 (dir_name (rv (hd (inp p))) (tzoff p))) =
      Inr (pad 512 (day_dir dir (rv (hd (inp p))) (tzoff p)))"
    using d n by (simp add: pad_strcat day_dir_def)
  show ?thesis
    by (simp add: data_dir_def 1 2 bindM_def [where m = "GetDirName _"] GetDirName_run [OF i] prog_run 3 4)
qed

lemma day_dir_text:
  assumes "modern off t" "NUL \<notin> set dir" "length dir < 128"
  shows "NUL \<notin> set (day_dir dir t off)" "length (day_dir dir t off) < 140"
  using dir_name_run [OF assms(1)] assms(2,3) by (auto simp: day_dir_def)

text \<open>Overwriting the path of the configuration file by the path of the directory.\<close>

lemma replace_path:
  assumes "length path = 512" "NUL \<notin> set s" "length s < 512"
  shows "bindR (memset path 0 NUL 512) (\<lambda>p. bindR (strlen (pad 512 s)) (memcpy p 0 (pad 512 s))) = Inr (pad 512 s)"
  using assms by (simp add: memset_def store_def strlen_cstr memcpy_eq) (simp add: pad_def)

lemma CreateDataDir_run:
  assumes path: "cstr path = Inr name" "length path = 512"
    and i: "inp p = a # b # c # ms @ rest" "ms = (if rv c = 0 then [] else [k])" "rv c \<noteq> 0 \<Longrightarrow> rv k = 0"
    and a: "rv a \<noteq> 0" "\<forall>kv \<in> set (entries (str a)). fits kv" "map_of (entries (str a)) ''data-path'' = Some dir"
    and b: "modern (tzoff p) (rv b)"
  defines "d \<equiv> day_dir dir (rv b) (tzoff p)"
  shows "CreateDataDir path p = (Inr (0, pad 512 d), p\<lparr>inp := rest,
    uuid := (if rv c = 0 then uuid p + 1 else 0),
    trc := trc p @ [(Fopen name ''r'', a), (Time, b), (Access d, c)] @ map (Pair (Mkdir d)) ms\<rparr>)"
proof -
  note v = entry_value [OF a(2,3)] and t = day_dir_text [OF b entry_value [OF a(2,3)], folded d_def]
  let ?p = "called Time (called (Fopen name ''r'') p)"
  have 1: "load_config path p = (Inr (map packed (entries (str a))), called (Fopen name ''r'') p)"
    using load_config_run [OF path(1), of p] i a by simp
  have 2: "data_dir (map packed (entries (str a))) (called (Fopen name ''r'') p) = (Inr (pad 512 d), ?p)"
    using data_dir_run [OF a(2,3), of "called (Fopen name ''r'') p"] i b by (simp add: d_def)
  have 3: "text_of (pad 512 d) ?p = (Inr d, ?p)" using t by (simp add: text_of_run)
  have 4: "ask (Access d) ?p = (Inr c, called (Access d) ?p)" using ask_called [of ?p "Access d"] i by simp
  have 5: "ask (Mkdir d) (called (Access d) ?p) = (Inr k, called (Mkdir d) (called (Access d) ?p))" if "rv c \<noteq> 0"
    using ask_called [of "called (Access d) ?p" "Mkdir d"] i that by simp
  have 6: "bindR (memset path 0 NUL 512) (\<lambda>p. bindR (strlen (pad 512 d)) (memcpy p 0 (pad 512 d))) = Inr (pad 512 d)"
    using path(2) t by (intro replace_path) simp_all
  show ?thesis
  proof (cases "rv c = 0")
    case True
    then show ?thesis using i(1,2)
      by (simp add: CreateDataDir_def bindM_def 1 2 3 4 Let_def seqM_def prog_run 6 EXIT_SUCCESS_CODE_def) (simp add: called_def)
  next
    case False
    then show ?thesis using i
      by (simp add: CreateDataDir_def bindM_def 1 2 3 4 5 [OF False] Let_def seqM_def prog_run 6 EXIT_SUCCESS_CODE_def)
        (simp add: called_def)
  qed
qed

lemma CreateDataFile_run:
  assumes i: "inp p = s # t # rest" and d: "NUL \<notin> set d" "length d < 140"
  defines "u \<equiv> if uuid p > 999 then 0 else uuid p"
  shows "CreateDataFile (pad 512 d) p = (Inr (pad 512 (d @ ''/'' @ record_name (word_of_int (rv t)) u @ ''.data'')),
    p\<lparr>inp := rest, uuid := u, trc := trc p @ [(Time, s), (Time, t)]\<rparr>)"
proof -
  have u: "u \<le> 999" by (auto simp: u_def not_less)
  note n = record_name_text [OF u, of "word_of_int (rv t)"]
  have 1: "strcat (pad 512 d) (lit ''/'') = Inr (pad 512 (d @ ''/''))" using d by (simp add: pad_strcat)
  have 2: "sprintf_to (replicate 512 NUL) (record_name (word_of_int (rv t)) u) = Inr (pad 512 (record_name (word_of_int (rv t)) u))"
    using n by (simp add: pad_sprintf)
  have 3: "strcat (pad 512 (d @ ''/'')) (pad 512 (record_name (word_of_int (rv t)) u)) =
      Inr (pad 512 (d @ ''/'' @ record_name (word_of_int (rv t)) u))" using n d by (simp add: pad_strcat)
  have 4: "strcat (pad 512 (d @ ''/'' @ record_name (word_of_int (rv t)) u)) (lit ''.data'') =
      Inr (pad 512 (d @ ''/'' @ record_name (word_of_int (rv t)) u @ ''.data''))" using n d by (simp add: pad_strcat)
  show ?thesis
  proof (cases "uuid p > 999")
    case True
    then have "u = 0" by (simp add: u_def)
    with True show ?thesis using 1 2 3 4
      by (simp add: CreateDataFile_def bindM_def seqM_def ask_run i prog_run)
  next
    case False
    then have "u = uuid p" by (simp add: u_def)
    with False show ?thesis using 1 2 3 4
      by (simp add: CreateDataFile_def bindM_def seqM_def ask_run i prog_run)
  qed
qed

section \<open>Properties\<close>

text \<open>
  The answers of a record that succeeds: working directory, test for the
  configuration file, its content, the day, test for the directory, its creation
  when it does not exist, two times, and the stream.
\<close>

definition record_env :: "ret list \<Rightarrow> int \<Rightarrow> string \<Rightarrow> bool \<Rightarrow> int \<Rightarrow> int \<Rightarrow> int \<Rightarrow> bool" where
  "record_env as off dir exists day now fd \<longleftrightarrow> (\<exists>w x a b c ms s t f. as = [w, x, a, b, c] @ ms @ [s, t, f] \<and>
     length (textOf (str w)) < 500 \<and> rv x = 0 \<and> rv a \<noteq> 0 \<and> (\<forall>kv \<in> set (entries (str a)). fits kv) \<and>
     map_of (entries (str a)) ''data-path'' = Some dir \<and> modern off (rv b) \<and> rv b = day \<and>
     (exists \<longleftrightarrow> rv c = 0) \<and> (if exists then ms = [] else \<exists>k. ms = [k] \<and> rv k = 0) \<and> rv t = now \<and> rv f = fd \<and> fd \<noteq> 0)"

lemma initDataRecord_run:
  assumes e: "record_env as (tzoff p) dir exists day now fd" and i: "inp p = as @ rest"
  shows "\<exists>es. initDataRecord p = (Inr fd, p\<lparr>inp := rest, uuid := next_uuid exists (uuid p), trc := trc p @ es @
      [(Fopen (record_path dir day (tzoff p) now (next_uuid exists (uuid p))) ''w+'', last as)]\<rparr>) \<and>
    filter (\<lambda>e. \<exists>n. fst e = Mkdir n) es = (if exists then [] else [(Mkdir (day_dir dir day (tzoff p)), as ! 5)])"
proof -
  from e obtain w x a b c ms s t f where as: "as = [w, x, a, b, c] @ ms @ [s, t, f]"
    and w: "length (textOf (str w)) < 500" "rv x = 0" and a: "rv a \<noteq> 0" "\<forall>kv \<in> set (entries (str a)). fits kv"
      "map_of (entries (str a)) ''data-path'' = Some dir" and b: "modern (tzoff p) (rv b)" "rv b = day"
    and c: "exists \<longleftrightarrow> rv c = 0" "if exists then ms = [] else \<exists>k. ms = [k] \<and> rv k = 0" and t: "rv t = now" "rv f = fd" "fd \<noteq> 0"
    unfolding record_env_def by (elim exE conjE) (rule that)
  let ?c = "textOf (str w) @ CONFIGFILE"
  let ?d = "day_dir dir day (tzoff p)"
  let ?p = "called (Access ?c) (called Getcwd p)"
  let ?q = "?p\<lparr>inp := s # t # f # rest, uuid := (if rv c = 0 then uuid p + 1 else 0),
    trc := trc ?p @ [(Fopen ?c ''r'', a), (Time, b), (Access ?d, c)] @ map (Pair (Mkdir ?d)) ms\<rparr>"
  let ?r = "?q\<lparr>inp := f # rest, uuid := next_uuid exists (uuid p), trc := trc ?q @ [(Time, s), (Time, t)]\<rparr>"
  obtain k where ms: "ms = (if rv c = 0 then [] else [k])" "rv c \<noteq> 0 \<Longrightarrow> rv k = 0" using c by (cases exists) auto
  note dt = day_dir_text [OF b(1) entry_value [OF a(2,3)], unfolded b(2)]
  have n: "cstr (pad 512 ?c) = Inr ?c" using w by simp
  have 1: "config_path p = (Inr (pad 512 ?c), called Getcwd p)" using config_path_run [of p] i as w by simp
  have 2: "ask (Access ?c) (called Getcwd p) = (Inr x, ?p)" using ask_called [of "called Getcwd p"] i as by simp
  have 3: "CreateDataDir (pad 512 ?c) ?p = (Inr (0, pad 512 ?d), ?q)"
    using CreateDataDir_run [OF n, of ?p a b c ms "s # t # f # rest" k dir] i as w ms a b by simp
  have u: "(if uuid ?q > 999 then 0 else uuid ?q) = next_uuid exists (uuid p)"
    using c(1) by (auto simp: next_uuid_def not_less)
  have 4: "CreateDataFile (pad 512 ?d) ?q = (Inr (pad 512 (record_path dir day (tzoff p) now (next_uuid exists (uuid p)))), ?r)"
    using CreateDataFile_run [of ?q s t "f # rest" ?d] dt unfolding u by (simp add: record_path_def t)
  have 5: "cstr (pad 512 (record_path dir day (tzoff p) now (next_uuid exists (uuid p)))) =
      Inr (record_path dir day (tzoff p) now (next_uuid exists (uuid p)))"
    using dt record_name_text [OF next_uuid_bound, of "word_of_int now" exists "uuid p"] by (simp add: record_path_def)
  have 6: "ask (Fopen (record_path dir day (tzoff p) now (next_uuid exists (uuid p))) ''w+'') ?r =
      (Inr f, called (Fopen (record_path dir day (tzoff p) now (next_uuid exists (uuid p))) ''w+'') ?r)"
    by (rule trans [OF ask_called]) simp_all
  have "initDataRecord p = (Inr fd, called (Fopen (record_path dir day (tzoff p) now (next_uuid exists (uuid p))) ''w+'') ?r)"
    using w(2) t(2,3)
    by (simp only: initDataRecord_def bindM_def 1 text_of_run [OF n] 2 3 4 text_of_run [OF 5] 6 sum.case prod.case if_True if_False
        simp_thms prog_run EXIT_FAIL_CODE_def neg_equal_0_iff_equal zero_neq_neg_one)
  moreover have "filter (\<lambda>e. \<exists>n. fst e = Mkdir n) (map (Pair (Mkdir ?d)) ms) = (if exists then [] else [(Mkdir ?d, as ! 5)])"
    using ms c(1) as by auto
  ultimately show ?thesis using i as
    by (intro exI [of _ "[(Getcwd, w), (Access ?c, x), (Fopen ?c ''r'', a), (Time, b), (Access ?d, c)] @ map (Pair (Mkdir ?d)) ms @ [(Time, s), (Time, t)]"])
      (simp add: called_def)
qed

text \<open>
  C11. When the calls succeed, a record is written to
  \<^verbatim>\<open>data-path/YYYYMMDD/seconds_NNN.data\<close>; the directory is created exactly when it does
  not exist, the number counts on within an existing directory and starts again at
  0 in a new one and after 999.
\<close>

theorem record_file:
  assumes "record_env as (tzoff p) dir exists day now fd" "inp p = as @ rest"
  shows "\<exists>es p'. initDataRecord p = (Inr fd, p') \<and> inp p' = rest \<and> trc p' = trc p @ es \<and>
    last es = (Fopen (record_path dir day (tzoff p) now (next_uuid exists (uuid p))) ''w+'', last as) \<and>
    filter (\<lambda>e. \<exists>n. fst e = Mkdir n) es = (if exists then [] else [(Mkdir (day_dir dir day (tzoff p)), as ! 5)]) \<and>
    uuid p' = next_uuid exists (uuid p) \<and> uuid p' \<le> 999 \<and> distributeTcpInfo p' = distributeTcpInfo p"
  using initDataRecord_run [OF assms] next_uuid_bound [of exists "uuid p"] by fastforce

definition data_config :: string where
  "data_config = printConfig [(''data-path'', ''./data'')]"

lemma data_config_entries: "entries data_config = [(''data-path'', ''./data'')]"
  by code_simp

definition good_record :: "ret list" where
  "good_record = [no_ret\<lparr>str := ''/srv''\<rparr>, no_ret, no_ret\<lparr>rv := 5, str := data_config\<rparr>, no_ret\<lparr>rv := 1667900000\<rparr>,
     no_ret\<lparr>rv := -1\<rparr>, no_ret, no_ret\<lparr>rv := 1667900000\<rparr>, no_ret\<lparr>rv := 1667900000\<rparr>, no_ret\<lparr>rv := 6\<rparr>]"

lemma good_record_env: "record_env good_record 0 ''./data'' False 1667900000 1667900000 6"
  unfolding record_env_def
  by (rule exI [of _ "no_ret\<lparr>str := ''/srv''\<rparr>"], rule exI [of _ "no_ret"],
      rule exI [of _ "no_ret\<lparr>rv := 5, str := data_config\<rparr>"], rule exI [of _ "no_ret\<lparr>rv := 1667900000\<rparr>"],
      rule exI [of _ "no_ret\<lparr>rv := -1\<rparr>"], rule exI [of _ "[no_ret]"],
      rule exI [of _ "no_ret\<lparr>rv := 1667900000\<rparr>"], rule exI [of _ "no_ret\<lparr>rv := 1667900000\<rparr>"], rule exI [of _ "no_ret\<lparr>rv := 6\<rparr>"])
    (simp add: good_record_def data_config_entries fits_def textOf_def modern_def)

theorem record_file_witness:
  "\<exists>es p'. initDataRecord (boot good_record []) = (Inr 6, p') \<and> inp p' = [] \<and> trc p' = es \<and> uuid p' = 0 \<and>
    last es = (Fopen (record_path ''./data'' 1667900000 0 1667900000 0) ''w+'', no_ret\<lparr>rv := 6\<rparr>)"
  using record_file [of good_record "boot good_record []" "''./data''" False 1667900000 1667900000 6 "[]"] good_record_env
  by (auto simp: next_uuid_def good_record_def)

section \<open>Distinct names\<close>

lemma split_at_char:
  assumes "c \<notin> set a" "c \<notin> set a'" "a @ c # b = a' @ c # b'"
  shows "a = a' \<and> b = b'"
proof -
  have "takeWhile (\<lambda>x. x \<noteq> c) (a @ c # b) = takeWhile (\<lambda>x. x \<noteq> c) (a' @ c # b')" using assms(3) by (rule arg_cong)
  then have "a = a'" using assms(1,2) by simp
  with assms(3) show ?thesis by simp
qed

lemma minus_not_decimal: "CHR ''-'' # xs \<noteq> decimal n"
proof
  assume "CHR ''-'' # xs = decimal n"
  then have "CHR ''-'' \<in> set (decimal n)" by (metis list.set_intros(1))
  then have "isdigit (CHR ''-'')" by (rule decimal_digits)
  then show False by (simp add: isdigit_def uchar_def)
qed

lemma sprintf_d_inject: "sprintf_d a = sprintf_d b \<Longrightarrow> a = b"
  using minus_not_decimal minus_not_decimal [THEN not_sym]
  by (cases "a < 0"; cases "b < 0") (auto simp: sprintf_d_eq)

lemma sprintf_03d_inject:
  assumes "0 \<le> a" "0 \<le> b" "sprintf_03d a = sprintf_03d b"
  shows "a = b"
proof -
  have "numval 10 0 (sprintf_03d n) = nat n" if "0 \<le> n" for n
  proof -
    have "digit_of CHR ''0'' = Some 0" by code_simp
    then have "numval 10 0 (replicate k CHR ''0'') = 0" for k by (induction k) simp_all
    then show ?thesis using that by (simp add: sprintf_03d_eq numval_append decimal_value)
  qed
  then have "nat a = nat b" using assms by metis
  with assms show ?thesis by simp
qed

lemma record_name_inject:
  assumes "record_name t u = record_name t' u'" "u \<le> 999" "u' \<le> 999"
  shows "t = t' \<and> u = u'"
proof -
  have n: "CHR ''_'' \<notin> set (sprintf_d n)" for n
    using sprintf_d_chars [of "CHR ''_''" n] by (auto simp: isdigit_def uchar_def)
  from assms(1) have "sprintf_d (sint t) = sprintf_d (sint t') \<and> sprintf_03d (sint u) = sprintf_03d (sint u')"
    using split_at_char [OF n n] by (auto simp: record_name_def)
  then have "sint t = sint t'" "sint u = sint u'"
    using sprintf_d_inject sprintf_03d_inject uuid_sint [OF assms(2)] uuid_sint [OF assms(3)] by auto
  then show ?thesis by (auto intro: signed_word_eqI)
qed

lemma dir_name_inject:
  assumes "modern off t" "modern off' t'" "dir_name t off = dir_name t' off'"
  shows "(t + off) div SECS_PER_DAY = (t' + off') div SECS_PER_DAY"
  using strftime_dir_inject [of "tm_of t off" "tm_of t' off'"] tm_of_good [OF assms(1)] tm_of_good [OF assms(2)] assms(3)
  by (simp add: good_tm_def dir_name_def)

text \<open>
  C34. The names of records do not collide where the number or the second differs:
  two records of one data directory have the same path only if they are of the same
  local day, the same second (as a 32-bit count) and the same number.
\<close>

theorem record_path_inject:
  assumes "record_path dir day off t u = record_path dir day' off' t' u'"
    and "modern off day" "modern off' day'" "u \<le> 999" "u' \<le> 999"
  shows "(day + off) div SECS_PER_DAY = (day' + off') div SECS_PER_DAY \<and>
    (word_of_int t :: 32 word) = word_of_int t' \<and> u = u'"
proof -
  have "length (dir_name day off) = length (dir_name day' off')" using dir_name_run(2) assms(2,3) by simp
  with assms(1) have "dir_name day off = dir_name day' off' \<and>
      record_name (word_of_int t) u @ ''.data'' = record_name (word_of_int t') u' @ ''.data''"
    by (simp add: record_path_def day_dir_def)
  then show ?thesis
    using dir_name_inject [OF assms(2,3)] record_name_inject [of "word_of_int t" u "word_of_int t'" u'] assms(4,5) by auto
qed

theorem record_path_inject_witness:
  "record_path ''./data'' 1667900000 0 1667900000 3 \<noteq> record_path ''./data'' 1667900000 0 1667900000 4"
  using record_path_inject [of "''./data''" 1667900000 0 1667900000 3 1667900000 0 1667900000 4] by (auto simp: modern_def)

end
