(* ===== verification/Packet.thy ===== *)
theory Packet
  imports CString
begin

text \<open>
  The messages, \<^verbatim>\<open>dataHeader.h\<close>: the three structures a received buffer is copied
  into, with the offsets of the x86-64 ABI (the replay request is packed), and the
  kind of message the headers make it.  Integers are little endian.
\<close>

section \<open>Constants and structures\<close>

definition SEACOMMHEADER :: "32 word" where "SEACOMMHEADER = 0x66666666"

definition BDCOMMHEADER :: "8 word" where "BDCOMMHEADER = 0xEB"

definition PLAYBACKHEADER :: "32 word" where "PLAYBACKHEADER = 0x88888888"

definition PLAYBACK_START :: nat where "PLAYBACK_START = 1"

definition PLAYBACK_END :: nat where "PLAYBACK_END = 2"

record SeaCommunication =
  sea_PacketHead :: "32 word"
  PayloadSize :: "32 word"
  ChunkNum :: "16 word"
  ChunkID :: "16 word"
  DataTime :: "32 word"
  Longitude :: "32 word"
  Latitude :: "32 word"
  sea_SystemID :: "16 word"
  sea_DataType :: "16 word"

record BDCommunication =
  bd_PacketHead :: "8 word"
  bd_SystemID :: "16 word"
  bd_DataType :: "16 word"

record ReplayProtocol =
  PacketHead :: "32 word"
  CommandType :: "8 word"
  StartTime :: "32 word"
  EndTime :: "32 word"
  Speed :: "8 word"

section \<open>Bytes of a structure\<close>

text \<open>The integer stored in some bytes, and its bytes, lowest first.\<close>

definition le :: "8 word list \<Rightarrow> 'a :: len word" where
  "le bs = foldr (\<lambda>b w. ucast b + 256 * w) bs 0"

fun le_bytes :: "nat \<Rightarrow> 'a :: len word \<Rightarrow> 8 word list" where
  "le_bytes 0 w = []"
| "le_bytes (Suc n) w = ucast w # le_bytes n (drop_bit 8 w)"

abbreviation field :: "8 word list \<Rightarrow> nat \<Rightarrow> nat \<Rightarrow> 'a :: len word" where
  "field bs off n \<equiv> le (take n (drop off bs))"

definition sea_of :: "8 word list \<Rightarrow> SeaCommunication" where
  "sea_of bs = \<lparr>sea_PacketHead = field bs 0 4, PayloadSize = field bs 4 4, ChunkNum = field bs 8 2, ChunkID = field bs 10 2,
     DataTime = field bs 12 4, Longitude = field bs 16 4, Latitude = field bs 20 4, sea_SystemID = field bs 24 2,
     sea_DataType = field bs 26 2\<rparr>"

definition bd_of :: "8 word list \<Rightarrow> BDCommunication" where
  "bd_of bs = \<lparr>bd_PacketHead = field bs 0 1, bd_SystemID = field bs 2 2, bd_DataType = field bs 4 2\<rparr>"

definition replay_of :: "8 word list \<Rightarrow> ReplayProtocol" where
  "replay_of bs = \<lparr>PacketHead = field bs 0 4, CommandType = field bs 4 1, StartTime = field bs 5 4, EndTime = field bs 9 4,
     Speed = field bs 13 1\<rparr>"

text \<open>The bytes of a replay request.\<close>

definition replay_bytes :: "ReplayProtocol \<Rightarrow> 8 word list" where
  "replay_bytes r = le_bytes 4 (PacketHead r) @ le_bytes 1 (CommandType r) @ le_bytes 4 (StartTime r) @
     le_bytes 4 (EndTime r) @ le_bytes 1 (Speed r)"

text \<open>
  The receive buffer of 4096000 bytes holds the message and zeros.  It is
  represented by the message; \<open>buf_prefix\<close> reads its first bytes.
\<close>

definition buf_prefix :: "nat \<Rightarrow> 8 word list \<Rightarrow> 8 word list" where
  "buf_prefix n m = take n (m @ replicate n 0)"

datatype kind = Record_Forward | Replay | Useless

definition kind_of :: "8 word list \<Rightarrow> kind" where
  "kind_of m =
     (if sea_PacketHead (sea_of (buf_prefix 28 m)) = SEACOMMHEADER \<or> bd_PacketHead (bd_of (buf_prefix 6 m)) = BDCOMMHEADER
      then Record_Forward
      else if PacketHead (replay_of (buf_prefix 14 m)) = PLAYBACKHEADER then Replay
      else Useless)"

section \<open>Reading and writing\<close>

lemma le_Nil [simp]: "le [] = 0" and le_Cons: "le (b # bs) = ucast b + 256 * le bs"
  by (simp_all add: le_def)

lemma length_le_bytes [simp]: "length (le_bytes n w) = n"
  by (induction n arbitrary: w) simp_all

text \<open>The same over the natural numbers.\<close>

definition nat_le :: "8 word list \<Rightarrow> nat" where
  "nat_le bs = foldr (\<lambda>b n. unat b + 256 * n) bs 0"

lemma nat_le_simps [simp]: "nat_le [] = 0" "nat_le (b # bs) = unat b + 256 * nat_le bs"
  by (simp_all add: nat_le_def)

lemma unat_byte: "unat (b :: 8 word) < 256"
  using unsigned_less [of b, where 'a = nat] by simp

lemma nat_le_less: "nat_le bs < 256 ^ length bs"
proof (induction bs)
  case (Cons b bs)
  then show ?case using unat_byte [of b] by simp
qed simp

lemma nat_le_inject: "length bs = length cs \<Longrightarrow> nat_le bs = nat_le cs \<Longrightarrow> bs = cs"
proof (induction bs cs rule: list_induct2)
  case (Cons b bs c cs)
  from Cons.prems have e: "unat b + 256 * nat_le bs = unat c + 256 * nat_le cs" by simp
  have "unat b = (unat b + 256 * nat_le bs) mod 256" "unat c = (unat c + 256 * nat_le cs) mod 256"
    using unat_byte [of b] unat_byte [of c] by simp_all
  with e have "unat b = unat c" by simp
  then have "b = c" by (rule word_unat_eq_iff [THEN iffD2])
  with e Cons.IH show ?case by simp
qed simp

lemma le_of_nat: "(le bs :: 'a :: len word) = word_of_nat (nat_le bs)"
  by (induction bs) (simp_all add: le_Cons unsigned_word_eqI)

lemma unat_le:
  assumes "8 * length bs \<le> LENGTH('a :: len)"
  shows "unat (le bs :: 'a word) = nat_le bs"
proof -
  have "(2 :: nat) ^ (8 * length bs) \<le> 2 ^ LENGTH('a)" using assms by (intro power_increasing) simp_all
  then have "nat_le bs < 2 ^ LENGTH('a)" using nat_le_less [of bs] by (simp add: power_mult)
  then show ?thesis by (simp add: le_of_nat unat_of_nat)
qed

lemma nat_le_bytes: "nat_le (le_bytes n (w :: 'a :: len word)) = unat w mod 256 ^ n"
proof (induction n arbitrary: w)
  case (Suc n)
  have "unat (ucast w :: 8 word) = unat w mod 256" by (simp add: unsigned_ucast_eq take_bit_eq_mod)
  moreover have "unat (drop_bit 8 w) = unat w div 256" unfolding unsigned_drop_bit_eq by (simp add: drop_bit_eq_div take_bit_eq_mod unsigned_less)
  ultimately show ?case using mod_mult2_eq [of "unat w" 256 "256 ^ n"] by (simp add: Suc add.commute)
qed simp

lemma le_le_bytes [simp]:
  assumes "8 * n = LENGTH('a :: len)"
  shows "le (le_bytes n (w :: 'a word)) = w"
proof (rule word_unat_eq_iff [THEN iffD2])
  have "(256 :: nat) ^ n = 2 ^ LENGTH('a)" using power_mult [of "2 :: nat" 8 n] assms by simp
  then show "unat (le (le_bytes n w) :: 'a word) = unat w"
    using assms unsigned_less [of w, where 'a = nat] by (simp add: unat_le nat_le_bytes)
qed

lemma le_bytes_le:
  assumes "8 * length bs = LENGTH('a :: len)"
  shows "le_bytes (length bs) (le bs :: 'a word) = bs"
  using assms nat_le_less [of bs] by (intro nat_le_inject) (simp_all add: nat_le_bytes unat_le)

section \<open>Properties\<close>

text \<open>
  C26. A replay request and its 14 packed bytes determine each other: decoding the bytes of a
  request gives the request, also when other bytes follow, and encoding the request
  read from 14 bytes gives the bytes.
\<close>

theorem replay_roundtrip:
  "length (replay_bytes r) = 14 \<and> replay_of (replay_bytes r @ rest) = r \<and>
   (\<forall>bs. length bs = 14 \<longrightarrow> replay_bytes (replay_of bs) = bs)"
proof (intro conjI allI impI)
  show "length (replay_bytes r) = 14" by (simp add: replay_bytes_def)
  show "replay_of (replay_bytes r @ rest) = r"
    by (simp add: replay_of_def replay_bytes_def del: le_bytes.simps)
  fix bs :: "8 word list"
  assume n: "length bs = 14"
  then have l: "length (take 4 bs) = 4" "length (take 1 (drop 4 bs)) = 1" "length (take 4 (drop 5 bs)) = 4"
    "length (take 4 (drop 9 bs)) = 4" "length (take 1 (drop 13 bs)) = 1" by simp_all
  have "replay_bytes (replay_of bs) = take 4 bs @ take 1 (drop 4 bs) @ take 4 (drop 5 bs) @ take 4 (drop 9 bs) @ take 1 (drop 13 bs)"
    using le_bytes_le [of "take 4 bs", where 'a = 32] le_bytes_le [of "take 1 (drop 4 bs)", where 'a = 8]
      le_bytes_le [of "take 4 (drop 5 bs)", where 'a = 32] le_bytes_le [of "take 4 (drop 9 bs)", where 'a = 32]
      le_bytes_le [of "take 1 (drop 13 bs)", where 'a = 8]
    unfolding l by (simp add: replay_bytes_def replay_of_def)
  also have "\<dots> = take (4 + (1 + (4 + (4 + 1)))) bs" unfolding take_add drop_drop by simp
  also have "\<dots> = bs" using n by simp
  finally show "replay_bytes (replay_of bs) = bs" .
qed

theorem replay_roundtrip_witness:
  "replay_bytes (replay_of [0x88, 0x88, 0x88, 0x88, 1, 0x10, 0x20, 0x30, 0x40, 0x50, 0x60, 0x70, 0x80, 5]) =
     [0x88, 0x88, 0x88, 0x88, 1, 0x10, 0x20, 0x30, 0x40, 0x50, 0x60, 0x70, 0x80, 5]"
  using replay_roundtrip by simp

lemma le_inject:
  assumes "length bs = 4" "length cs = 4"
  shows "(le bs :: 32 word) = le cs \<longleftrightarrow> bs = cs"
proof
  assume e: "(le bs :: 32 word) = le cs"
  have "le_bytes (length bs) (le bs :: 32 word) = bs" by (rule le_bytes_le) (simp add: assms(1))
  moreover have "le_bytes (length cs) (le cs :: 32 word) = cs" by (rule le_bytes_le) (simp add: assms(2))
  ultimately show "bs = cs" unfolding e assms by (rule trans [OF sym])
qed simp

lemma take_4: "take 4 xs = [a, b, c, d] \<longleftrightarrow> (\<exists>r. xs = a # b # c # d # r)"
proof
  assume "take 4 xs = [a, b, c, d]"
  then have "xs = [a, b, c, d] @ drop 4 xs" by (metis append_take_drop_id)
  then show "\<exists>r. xs = a # b # c # d # r" by auto
qed auto

lemma head_bytes:
  assumes "b \<noteq> 0" "4 \<le> n"
  shows "(le (take 4 (buf_prefix n m)) :: 32 word) = le [b, b, b, b] \<longleftrightarrow> take 4 m = [b, b, b, b]"
proof -
  obtain k where k: "n = 4 + k" using assms(2) le_iff_add by blast
  have n: "replicate 4 (0 :: 8 word) = [0, 0, 0, 0]" by code_simp
  have e: "take 4 (buf_prefix n m) = take 4 (m @ [0, 0, 0, 0])"
    using take_append [of 4 "m @ replicate 4 0" "replicate k 0"] unfolding n
    by (simp add: buf_prefix_def k replicate_add n min_def)
  have "(\<exists>r. m @ [0, 0, 0, 0] = b # b # b # b # r) \<longleftrightarrow> (\<exists>r. m = b # b # b # b # r)"
    using assms(1) by (auto simp: append_eq_Cons_conv)
  then have "take 4 (m @ [0, 0, 0, 0]) = [b, b, b, b] \<longleftrightarrow> take 4 m = [b, b, b, b]" by (simp only: take_4)
  moreover have "(le (take 4 (m @ [0, 0, 0, 0])) :: 32 word) = le [b, b, b, b] \<longleftrightarrow> take 4 (m @ [0, 0, 0, 0]) = [b, b, b, b]"
    by (rule le_inject) simp_all
  ultimately show ?thesis unfolding e by blast
qed

lemma header_tests:
  "sea_PacketHead (sea_of (buf_prefix 28 m)) = SEACOMMHEADER \<longleftrightarrow> take 4 m = [0x66, 0x66, 0x66, 0x66]"
  "PacketHead (replay_of (buf_prefix 14 m)) = PLAYBACKHEADER \<longleftrightarrow> take 4 m = [0x88, 0x88, 0x88, 0x88]"
  "bd_PacketHead (bd_of (buf_prefix 6 m)) = BDCOMMHEADER \<longleftrightarrow> m \<noteq> [] \<and> hd m = 0xEB"
proof -
  have h: "(le [0x66, 0x66, 0x66, 0x66] :: 32 word) = SEACOMMHEADER" "(le [0x88, 0x88, 0x88, 0x88] :: 32 word) = PLAYBACKHEADER"
    by (simp_all add: le_def SEACOMMHEADER_def PLAYBACKHEADER_def)
  show "sea_PacketHead (sea_of (buf_prefix 28 m)) = SEACOMMHEADER \<longleftrightarrow> take 4 m = [0x66, 0x66, 0x66, 0x66]"
    using head_bytes [of "0x66" 28 m] by (simp add: sea_of_def h)
  show "PacketHead (replay_of (buf_prefix 14 m)) = PLAYBACKHEADER \<longleftrightarrow> take 4 m = [0x88, 0x88, 0x88, 0x88]"
    using head_bytes [of "0x88" 14 m] by (simp add: replay_of_def h)
  show "bd_PacketHead (bd_of (buf_prefix 6 m)) = BDCOMMHEADER \<longleftrightarrow> m \<noteq> [] \<and> hd m = 0xEB"
    by (cases m) (simp_all add: bd_of_def buf_prefix_def le_def BDCOMMHEADER_def take_Cons')
qed

lemma recorded_not_replay: "kind_of m = Record_Forward \<Longrightarrow> PacketHead (replay_of (buf_prefix 14 m)) \<noteq> PLAYBACKHEADER"
  unfolding kind_of_def header_tests by (cases m) (auto split: if_splits)

text \<open>
  The kind of a message is decided by its first bytes: the byte \<^verbatim>\<open>EB\<close> or four bytes
  \<^verbatim>\<open>66\<close> make it a message to record and forward, four bytes \<^verbatim>\<open>88\<close> a replay request, and
  everything else, shorter messages included, is useless.
\<close>

lemma kind_of_message:
  "kind_of m =
     (if (m \<noteq> [] \<and> hd m = 0xEB) \<or> take 4 m = [0x66, 0x66, 0x66, 0x66] then Record_Forward
      else if take 4 m = [0x88, 0x88, 0x88, 0x88] then Replay
      else Useless)"
  unfolding kind_of_def header_tests by (simp add: disj_commute)

end
