(* ===== verification/Playback.thy ===== *)
theory Playback
  imports RecordData Packet
begin

text \<open>
  Playback, \<^verbatim>\<open>playback.c\<close>: selecting the recorded files of an interval, sending them
  over a peer's connection while the peer's lock file exists, and the handling of a
  replay request.  Two arrays of ten characters hold the time stamp of a file name
  and no NUL, so that \<open>atoi\<close> reads on; the entry of a file is used after it was freed.
  What such a read finds is an answer of the environment; freeing an entry a second
  time ends the run.
\<close>

section \<open>Operations\<close>

text \<open>\<open>./shm/\<close> and the address of the peer, in an array of 128 characters.\<close>

definition shm_file :: "nat \<Rightarrow> string prog" where
  "shm_file index =
     bindM (tcpM index) (\<lambda>e.
     bindM (liftM (bindR (strcat (replicate 128 NUL) (lit ''./shm/'')) (\<lambda>b. strcat b (address e)))) text_of)"

text \<open>\<open>atoi\<close> of an array on the stack; behind its end it reads what lies there.\<close>

definition atoi_stack :: "char list \<Rightarrow> int prog" where
  "atoi_stack b =
     (case atoi b of Inr v \<Rightarrow> retM v
      | Inl e \<Rightarrow> bindM (ask (Undefined e)) (\<lambda>r. liftM (atoi (b @ lit (textOf (str r))))))"

definition filter_fn :: "dirent \<Rightarrow> char list \<Rightarrow> char list \<Rightarrow> bool prog" where
  "filter_fn ent starttime endtime =
     (if d_type ent = DT_DIR then
        seqM (LogWrite ERROR ''%d %s'' [D 12, S ''scandir get dir file, skip'']) (retM False)
      else
        bindM (liftM (strncpy (replicate 10 NUL) 0 (d_name ent) 10)) (\<lambda>realTime.
        bindM (liftM (atoi starttime)) (\<lambda>s.
        bindM (atoi_stack realTime) (\<lambda>t.
        if s \<le> t then bindM (liftM (atoi endtime)) (\<lambda>e. bindM (atoi_stack realTime) (\<lambda>t. retM (e \<ge> t)))
        else retM False))))"

abbreviation (input) EINTR :: int where "EINTR \<equiv> 4"

abbreviation (input) EAGAIN :: int where "EAGAIN \<equiv> 11"

text \<open>The name of an entry, before and after it was freed.\<close>

definition ent_name :: "dirent \<Rightarrow> bool \<Rightarrow> char list prog" where
  "ent_name d freed =
     (if freed then bindM (ask (Undefined UseAfterFree)) (\<lambda>r. retM (lit (textOf (str r)))) else retM (d_name d))"

text \<open>\<open>realPath\<close>: the directory, a slash and the name, in 1024 characters.\<close>

definition real_path :: "char list \<Rightarrow> char list \<Rightarrow> char list cres" where
  "real_path path name =
     bindR (strcpy (replicate 1024 NUL) 0 path) (\<lambda>b.
     bindR (strlen path) (\<lambda>n.
     bindR (strcpy b n (lit ''/'')) (\<lambda>b.
     strcpy b (n + 1) name)))"

text \<open>
  Sending the file of an entry once its time has come: the link is bad, the next
  entry, or the same entry again.
\<close>

datatype sent = Quit | Next | Again

definition send_entry :: "char list \<Rightarrow> nat \<Rightarrow> 32 word \<Rightarrow> 32 word \<Rightarrow> string \<Rightarrow> 8 word list \<Rightarrow> int \<Rightarrow> int \<Rightarrow> sent prog" where
  "send_entry starttime index speed playtime file buffer now ft =
     bindM (liftM (atoi starttime)) (\<lambda>st.
     if (word_of_int (ft - st) :: 32 word) < speed * (word_of_int now - playtime) then
       bindM (tcpM index) (\<lambda>e. bindM (ask (Send (acceptfd e) buffer)) (\<lambda>res.
       if rv res = EXIT_FAIL_CODE then
         if err res = EINTR \<or> err res = EAGAIN then
           seqM (LogWrite ERROR ''%d %s %s :%d''
             [D 89, S ''playback send [FAIL] to fd, but link is OK, continue'', StrError (err res), D (acceptfd e)])
             (retM Again)
         else
           seqM (LogWrite INFO ''%d %s %s :%d''
             [D 93, S ''playback send [FAIL] to fd, link is bad, exit playback mode'', StrError (err res), D (acceptfd e)])
             (retM Quit)
       else if rv res > 0 then
         seqM (LogWrite DEBUG ''%d %s :%s'' [D 102, S ''playback send [SUCCESS] '', S file]) (retM Next)
       else retM Again))
     else retM Again)"

text \<open>
  The loop over the entries.  \<open>freed\<close> tells whether the entry at the front was freed in
  an earlier round.
\<close>

function send_loop :: "char list \<Rightarrow> char list \<Rightarrow> nat \<Rightarrow> 32 word \<Rightarrow> 32 word \<Rightarrow> dirent list \<Rightarrow> bool \<Rightarrow> int prog" where
  "send_loop path starttime index speed playtime [] freed = retM EXIT_SUCCESS_CODE"
| "send_loop path starttime index speed playtime (d # ds) freed =
     bindM (shm_file index) (\<lambda>lock. bindM (ask (Access lock)) (\<lambda>a.
     if rv a \<noteq> 0 then
       seqM (LogWrite DEBUG ''%d %s'' [D 49, S ''lock file loss, playback get force end signal''])
         (retM EXIT_SUCCESS_CODE)
     else
       bindM (ent_name d freed) (\<lambda>name.
       bindM (liftM (real_path path name)) (\<lambda>realPath.
       if freed then failM UseAfterFree
       else
         bindM (text_of realPath) (\<lambda>file.
         seqM (emit (Printf (''realPath: '' @ file)))
         (bindM (ask (Fopen file ''rb'')) (\<lambda>stream.
          if rv stream = 0 then
            seqM (LogWrite ERROR ''%d %s'' [D 62, S '' scanAndSend open file get error'']) (failM NullDeref)
          else
            bindM (ask (ReadFile file)) (\<lambda>buffer.
            seqM (emit (Fclose (rv stream)))
            (bindM (ask Time) (\<lambda>_. bindM (ask Time) (\<lambda>now.
             bindM (ent_name d True) (\<lambda>name.
             bindM (liftM (strncpy (replicate 10 NUL) 0 name 10)) (\<lambda>fileTime.
             bindM (atoi_stack fileTime) (\<lambda>ft.
             bindM (send_entry starttime index speed playtime file (dat buffer) (rv now) ft) (\<lambda>r.
             case r of
               Quit \<Rightarrow> retM EXIT_FAIL_CODE
             | Next \<Rightarrow> seqM (emit (Usleep 50000)) (send_loop path starttime index speed playtime ds False)
             | Again \<Rightarrow> seqM (emit (Usleep 50000)) (send_loop path starttime index speed playtime (d # ds) True))))))))))))))))"
  by pat_completeness auto
termination
  by (relation "measure (\<lambda>(path, starttime, index, speed, playtime, ds, freed). 2 * length ds + (if freed then 0 else 1))") auto

declare send_loop.simps [simp del]

definition scanAndSend :: "char list \<Rightarrow> char list \<Rightarrow> char list \<Rightarrow> nat \<Rightarrow> 32 word \<Rightarrow> int prog" where
  "scanAndSend path starttime endtime index speed =
     bindM (text_of path) (\<lambda>dir.
     bindM (ask (Opendir dir)) (\<lambda>r.
     bindM (getM sysmem) (\<lambda>mem. bindM (getM allocs) (\<lambda>alloc.
     bindM (scandir mem alloc (\<lambda>ent. filter_fn ent starttime endtime) (Some alphasort) (dirp r)) (\<lambda>namelist.
     case namelist of
       None \<Rightarrow> seqM (LogWrite ERROR ''%d %s'' [D 36, S ''scandir get error'']) (retM EXIT_SUCCESS_CODE)
     | Some ents \<Rightarrow>
         bindM (ask Time) (\<lambda>_. bindM (ask Time) (\<lambda>t.
         send_loop path starttime index speed (word_of_int (rv t)) ents False)))))))"

definition myscandirServe :: "32 word \<Rightarrow> 32 word \<Rightarrow> nat \<Rightarrow> 32 word \<Rightarrow> int prog" where
  "myscandirServe starttime endtime index speed =
     bindM (liftM (sprintf_to (replicate 50 NUL) (sprintf_d (sint starttime)))) (\<lambda>start_time_buffer.
     bindM (liftM (sprintf_to (replicate 50 NUL) (sprintf_d (sint endtime)))) (\<lambda>end_time_buffer.
     bindM config_path (\<lambda>path.
     bindM (load_config path) (\<lambda>info.
     bindM (data_dir info) (\<lambda>value.
     bindM (text_of value) (\<lambda>name.
     bindM (ask (Access name)) (\<lambda>r.
     if rv r = 0 then scanAndSend value start_time_buffer end_time_buffer index speed
     else
       seqM (LogWrite INFO ''%d %s'' [D 154, S ''selected playback day not the today'']) (retM EXIT_FAIL_CODE))))))))"

text \<open>Removing the lock file, as three branches of \<open>playback_run\<close> do.\<close>

definition remove_lock :: "string \<Rightarrow> nat \<Rightarrow> (int \<Rightarrow> unit prog) \<Rightarrow> unit prog" where
  "remove_lock lock line failed =
     bindM (ask (Remove lock)) (\<lambda>r.
     if rv r \<noteq> 0 then failed (err r)
     else LogWrite DEBUG ''%d %s'' [D (int line), S ''playback shm file remove success''])"

definition playback_run :: "8 word list \<Rightarrow> nat \<Rightarrow> unit prog" where
  "playback_run receive_buf index =
     bindM (shm_file index) (\<lambda>shmFile.
     bindM (liftM (memcpy (replicate 14 0) 0 receive_buf (length receive_buf))) (\<lambda>bytes.
     let r = replay_of bytes; starttime = StartTime r; endtime = EndTime r;
         commandtype = unat (CommandType r); speed = ucast (Speed r) :: 32 word
     in seqM (emit (Printf (''starttime: '' @ sprintf_d (sint starttime))))
       (seqM (emit (Printf (''endtime: '' @ sprintf_d (sint endtime))))
       (seqM (emit (Printf (''commandtype: '' @ sprintf_d (int commandtype))))
       (seqM (emit (Printf (''speed: '' @ sprintf_d (uint speed))))
       (if commandtype = PLAYBACK_START then
          bindM (ask (Creat shmFile)) (\<lambda>c.
          if rv c < 0 then LogWrite ERROR ''%d %s'' [D 183, S ''playback shm file create failed'']
          else
            seqM (LogWrite INFO ''%d %s'' [D 188, S ''playback get START signal''])
            (bindM (myscandirServe starttime endtime index speed) (\<lambda>res.
             if res = EXIT_SUCCESS_CODE then LogWrite INFO ''%d %s'' [D 193, S ''playback send success'']
             else
               seqM (LogWrite INFO ''%d %s'' [D 196, S ''playback send failed''])
               (remove_lock shmFile 203 (\<lambda>e. LogWrite ERROR ''%d %s: %s''
                 [D 199, S ''playback shm file remove failed'', StrError e])))))
        else if commandtype = PLAYBACK_END then
          seqM (LogWrite INFO ''%d %s'' [D 208, S ''playback get STOP signal, now close connection''])
          (remove_lock shmFile 215 (\<lambda>_. LogWrite ERROR ''%d %s'' [D 211, S ''playback shm file remove failed'']))
        else
          seqM (LogWrite ERROR ''%d %s'' [D 219, S ''Wrong playback signal get''])
          (remove_lock shmFile 226 (\<lambda>_. LogWrite ERROR ''%d %s'' [D 222, S ''playback shm file remove failed'']))))))))"

section \<open>Names and paths\<close>

definition shm_name :: "tcpInfo list \<Rightarrow> nat \<Rightarrow> string cres" where
  "shm_name t index =
     bindR (getR t (int index)) (\<lambda>e.
     bindR (bindR (strcat (replicate 128 NUL) (lit ''./shm/'')) (\<lambda>b. strcat b (address e))) cstr)"

lemma shm_file_eq: "shm_file index p = (shm_name (distributeTcpInfo p) index, p)"
  by (auto simp: shm_file_def shm_name_def tcpM_def bindM_def prog_run text_of_def split: sum.splits)

lemma sat_shm:
  assumes "shm_name (distributeTcpInfo p) index = Inr lock" "sat (f lock) p R"
  shows "sat (bindM (shm_file index) f) p R"
  using assms by (simp add: sat_def bindM_def shm_file_eq)

lemma shm_name_eq:
  assumes "index < length t" "cstr (address (t ! index)) = Inr a"
  shows "shm_name t index = (if length a < 122 then Inr (''./shm/'' @ a) else Inl OutOfBounds)"
proof -
  have l: "cstr (lit ''./shm/'') = Inr ''./shm/''" by simp
  have "strcat (replicate 128 NUL) (lit ''./shm/'') = Inr (pad 128 ''./shm/'')"
    using pad_strcat [OF _ l, of "[]" 128] by (simp add: pad_Nil)
  moreover have "strcat (pad 128 ''./shm/'') (address (t ! index)) =
      (if length a < 122 then Inr (pad 128 (''./shm/'' @ a)) else Inl OutOfBounds)"
    using pad_strcat [OF _ assms(2), of "''./shm/''" 128] by simp
  ultimately show ?thesis using assms cstr_no_nul [OF assms(2)] by (simp add: shm_name_def)
qed

lemma real_path_text:
  assumes "real_path path name = Inr b" "cstr path = Inr dir"
  obtains n where "cstr name = Inr n" "cstr b = Inr (dir @ ''/'' @ n)"
proof -
  have d: "NUL \<notin> set dir" by (rule cstr_no_nul [OF assms(2)])
  from assms have l: "length dir < 1024" by (auto simp: real_path_def pad_strcpy split: if_splits)
  then have p: "strcpy (replicate 1024 NUL) 0 path = Inr (pad 1024 dir)" by (simp add: pad_strcpy [OF assms(2)])
  have c: "cstr (lit ''/'') = Inr ''/''" by simp
  obtain b2 where b2: "strcpy (pad 1024 dir) (length dir) (lit ''/'') = Inr b2" "strcpy b2 (length dir + 1) name = Inr b"
    using assms(1) by (auto simp: real_path_def p strlen_cstr assms(2) bindR_Inr_iff)
  from b2(2) obtain n where n: "cstr name = Inr n"
    by (cases "cstr name") (auto simp: strcpy_def strlen_cstr)
  have "take (length dir + 1) b2 = dir @ ''/''"
    using b2(1) l by (auto simp: strcpy_eq [OF c] pad_def split: if_splits)
  moreover have "b = take (length dir + 1) b2 @ n @ NUL # drop (length dir + 1 + length n + 1) b2"
    using b2(2) by (auto simp: strcpy_eq [OF n] split: if_splits)
  ultimately have "b = (dir @ ''/'' @ n) @ NUL # drop (length dir + 1 + length n + 1) b2" by simp
  moreover have "NUL \<notin> set (dir @ ''/'' @ n)" using d cstr_no_nul [OF n] by simp
  ultimately have "cstr b = Inr (dir @ ''/'' @ n)" by (metis cstr_append)
  with n show ?thesis by (rule that)
qed

section \<open>What a playback sends\<close>

text \<open>The files a trace reads, and the payloads it sends with success.\<close>

definition reads :: "event list \<Rightarrow> (string \<times> 8 word list) list" where
  "reads es = concat (map (\<lambda>(c, r). case c of ReadFile f \<Rightarrow> [(f, dat r)] | _ \<Rightarrow> []) es)"

definition delivered :: "event list \<Rightarrow> (int \<times> 8 word list) list" where
  "delivered es = concat (map (\<lambda>(c, r). case c of Send d b \<Rightarrow> if rv r > 0 then [(d, b)] else [] | _ \<Rightarrow> []) es)"

definition lock_lost :: "event list \<Rightarrow> bool" where
  "lock_lost es \<longleftrightarrow> (\<exists>n r. (Access n, r) \<in> set es \<and> rv r \<noteq> 0)"

text \<open>
  Every file read and every payload sent comes after a test that found the lock
  file, and between two payloads there is such a test.
\<close>

fun guarded :: "string \<Rightarrow> bool \<Rightarrow> event list \<Rightarrow> bool" where
  "guarded lock ok [] = True"
| "guarded lock ok ((c, r) # es) =
     (case c of
        Access n \<Rightarrow> guarded lock (n = lock \<and> rv r = 0) es
      | ReadFile f \<Rightarrow> ok \<and> guarded lock ok es
      | Send d b \<Rightarrow> ok \<and> guarded lock False es
      | _ \<Rightarrow> guarded lock ok es)"

lemma trace_simps [simp]:
  "reads [] = []" "reads ((c, r) # es) = (case c of ReadFile f \<Rightarrow> [(f, dat r)] | _ \<Rightarrow> []) @ reads es"
  "delivered [] = []"
  "delivered ((c, r) # es) = (case c of Send d b \<Rightarrow> if rv r > 0 then [(d, b)] else [] | _ \<Rightarrow> []) @ delivered es"
  "\<not> lock_lost []" "lock_lost ((c, r) # es) \<longleftrightarrow> (case c of Access n \<Rightarrow> rv r \<noteq> 0 | _ \<Rightarrow> False) \<or> lock_lost es"
  by (auto simp: reads_def delivered_def lock_lost_def split: call.splits)

lemma trace_append [simp]:
  "reads (es @ fs) = reads es @ reads fs" "delivered (es @ fs) = delivered es @ delivered fs"
  "lock_lost (es @ fs) \<longleftrightarrow> lock_lost es \<or> lock_lost fs"
  by (auto simp: reads_def delivered_def lock_lost_def)

lemmas sat_steps = sat_ask_bind sat_emit_seq sat_log_seq sat_lift_bind sat_ret sat_fail

lemma sat_name:
  assumes "R (Inl Blocked) [] p"
    and "\<And>r p'. globals p' = globals p \<Longrightarrow> sat (f (lit (textOf (str r)))) p' (\<lambda>s fs. R s ((Undefined UseAfterFree, r) # fs))"
  shows "sat (bindM (ent_name d True) f) p R"
  unfolding ent_name_def if_True bindM_assoc bindM_simps by (rule sat_ask_bind) (use assms in auto)

lemma sat_atoi:
  assumes "\<And>e. R (Inl e) [] p" "\<And>e r x p'. globals p' = globals p \<Longrightarrow> R (Inl x) [(Undefined e, r)] p'"
    and "\<And>v. atoi b = Inr v \<Longrightarrow> sat (f v) p R"
    and "\<And>e r v p'. globals p' = globals p \<Longrightarrow> atoi (b @ lit (textOf (str r))) = Inr v \<Longrightarrow>
      sat (f v) p' (\<lambda>s fs. R s ((Undefined e, r) # fs))"
  shows "sat (bindM (atoi_stack b) f) p R"
proof (cases "atoi b")
  case (Inr v)
  then show ?thesis using assms(3) by (simp add: atoi_stack_def)
next
  case (Inl e)
  show ?thesis unfolding atoi_stack_def Inl sum.case bindM_assoc
  proof (rule sat_ask_bind)
    fix r p'
    assume "globals p' = globals p"
    then show "sat (bindM (liftM (atoi (b @ lit (textOf (str r))))) f) p' (\<lambda>s fs. R s ((Undefined e, r) # fs))"
      using assms by (intro sat_lift_bind) auto
  qed (rule assms(1))
qed

text \<open>
  One playback: a first part of the files is read, in order, and the payloads sent are
  the contents of the files read, in order, except possibly the last one; if it ends
  with success without having missed the lock file, all files were sent.
\<close>

definition play_ok :: "string \<Rightarrow> int \<Rightarrow> string list \<Rightarrow> int cres \<Rightarrow> event list \<Rightarrow> bool" where
  "play_ok lock fd files r es \<longleftrightarrow> (\<exists>k. k \<le> length (reads es) \<and> length (reads es) \<le> Suc k \<and> length (reads es) \<le> length files \<and>
     map fst (reads es) = take (length (reads es)) files \<and>
     delivered es = map (\<lambda>(f, b). (fd, b)) (take k (reads es)) \<and> guarded lock False es \<and>
     (r = Inr EXIT_SUCCESS_CODE \<and> \<not> lock_lost es \<longrightarrow> k = length files))"

lemma play_ok_lost: "rv a \<noteq> 0 \<Longrightarrow> play_ok lock fd files r [(Access lock, a), (Log l f as, no_ret)]"
  by (simp add: play_ok_def)

text \<open>A round for an entry that was freed sends nothing.\<close>

lemma send_loop_freed:
  assumes "shm_name (distributeTcpInfo p) index = Inr lock"
  shows "sat (send_loop path st index speed pt (d # ds) True) p (\<lambda>r es p'.
    reads es = [] \<and> delivered es = [] \<and> (\<forall>ok. guarded lock ok es) \<and> (r = Inr EXIT_SUCCESS_CODE \<longrightarrow> lock_lost es))"
  by (subst send_loop.simps, rule sat_shm [OF assms], rule sat_ask_bind, simp, rule sat_if, rule sat_log_seq, rule sat_ret, simp, rule sat_name, simp,
      rule sat_lift_bind, simp, simp, rule sat_fail, simp)

lemma play_ok_stop:
  assumes "delivered es = []" "guarded lock False es" "length (reads es) \<le> 1" "map fst (reads es) = take (length (reads es)) files"
    and "r = Inr EXIT_SUCCESS_CODE \<Longrightarrow> lock_lost es \<or> files = []"
  shows "play_ok lock fd files r es"
proof -
  have "length (reads es) = min (length files) (length (reads es))" using arg_cong [OF assms(4), of length] by simp
  then have "length (reads es) \<le> length files" by (simp add: min_def split: if_splits)
  with assms show ?thesis unfolding play_ok_def by (intro exI [of _ 0]) auto
qed

lemma play_ok_sent:
  assumes "play_ok lock fd files r es" "reads es' = (f, b) # reads es" "delivered es' = (fd, b) # delivered es"
    and "lock_lost es' \<longleftrightarrow> lock_lost es" "guarded lock False es'"
  shows "play_ok lock fd (f # files) r es'"
proof -
  from assms(1) obtain k where "k \<le> length (reads es)" "length (reads es) \<le> Suc k" "length (reads es) \<le> length files"
    "map fst (reads es) = take (length (reads es)) files" "delivered es = map (\<lambda>(f, b). (fd, b)) (take k (reads es))"
    "r = Inr EXIT_SUCCESS_CODE \<and> \<not> lock_lost es \<longrightarrow> k = length files"
    unfolding play_ok_def by blast
  with assms(2-5) show ?thesis unfolding play_ok_def by (intro exI [of _ "Suc k"]) simp
qed

lemma play_ok_guarded: "play_ok lock fd files r es \<Longrightarrow> guarded lock False es"
  by (auto simp: play_ok_def)

text \<open>An entry that was not sent is used after it was freed in the next round.\<close>

lemma play_ok_freed:
  assumes "reads es = [] \<and> delivered es = [] \<and> (\<forall>ok. guarded lock ok es) \<and> (r = Inr EXIT_SUCCESS_CODE \<longrightarrow> lock_lost es)"
    and "reads es' = (f, b) # reads es" "delivered es' = delivered es" "lock_lost es \<Longrightarrow> lock_lost es'" "guarded lock False es'"
  shows "play_ok lock fd (f # files) r es'"
  using assms by (intro play_ok_stop) auto

definition file_of :: "string \<Rightarrow> dirent \<Rightarrow> string" where
  "file_of dir d = dir @ ''/'' @ entname d"

lemma real_path_file:
  assumes "real_path path (d_name d) = Inr b" "cstr path = Inr dir"
  shows "cstr b = Inr (file_of dir d)"
  using assms by (rule real_path_text) (simp add: file_of_def entname_def cstr_def split: if_splits)

lemma sat_text: "cstr b = Inr s \<Longrightarrow> sat (f s) p R \<Longrightarrow> sat (bindM (text_of b) f) p R"
  by (simp add: text_of_def)

text \<open>What sending an entry does, and the rounds after it.\<close>

lemma send_entry_sat:
  assumes "index < length (distributeTcpInfo p)"
  shows "sat (send_entry st index speed pt file buffer now ft) p (\<lambda>r es p'. globals p' = globals p \<and> reads es = [] \<and>
    \<not> lock_lost es \<and> guarded lock True es \<and> (\<forall>es'. guarded lock True (es @ es') = guarded lock (delivered es = [] \<and> es = []) es') \<and>
    delivered es = (if r = Inr Next then [(acceptfd (distributeTcpInfo p ! index), buffer)] else []))"
  unfolding send_entry_def
  apply (rule sat_lift_bind, simp)
  apply (rule sat_if)
   apply (rule tcpM_bind [OF assms], rule sat_ask_bind, simp)
   apply (rule sat_if)
    apply (rule sat_if)
     apply (rule sat_log_seq, rule sat_ret, simp add: EXIT_FAIL_CODE_def)
    apply (rule sat_log_seq, rule sat_ret, simp add: EXIT_FAIL_CODE_def)
   apply (rule sat_if)
    apply (rule sat_log_seq, rule sat_ret, simp)
   apply (rule sat_ret, simp)
  apply (rule sat_ret, simp)
  done

lemma send_rest_ok:
  assumes t: "shm_name (distributeTcpInfo p) index = Inr lock" "index < length (distributeTcpInfo p)"
      "acceptfd (distributeTcpInfo p ! index) = fd"
    and IH: "\<And>p'. globals p' = globals p \<Longrightarrow> sat (send_loop path st index speed pt ds False) p' (\<lambda>r es p'. play_ok lock fd files r es)"
    and g: "\<And>es. reads (g es) = (f, b) # reads es" "\<And>es. delivered (g es) = delivered es"
      "\<And>es. lock_lost (g es) \<longleftrightarrow> lock_lost es" "\<And>es. guarded lock False (g es) = guarded lock True es"
  shows "sat (bindM (send_entry st index speed pt f b now ft) (\<lambda>r. case r of Quit \<Rightarrow> retM EXIT_FAIL_CODE
      | Next \<Rightarrow> seqM (emit (Usleep 50000)) (send_loop path st index speed pt ds False)
      | Again \<Rightarrow> seqM (emit (Usleep 50000)) (send_loop path st index speed pt (d # ds) True)))
    p (\<lambda>r es p'. play_ok lock fd (f # files) r (g es))"
proof (rule sat_bind, rule sat_mono [OF send_entry_sat [OF t(2), of _ _ _ _ _ _ _ lock]])
  fix r :: "sent cres" and es p'
  assume a: "globals p' = globals p \<and> reads es = [] \<and> \<not> lock_lost es \<and> guarded lock True es \<and>
    (\<forall>es'. guarded lock True (es @ es') = guarded lock (delivered es = [] \<and> es = []) es') \<and>
    delivered es = (if r = Inr Next then [(acceptfd (distributeTcpInfo p ! index), b)] else [])"
  let ?u = "\<lambda>fs. g (es @ (Usleep 50000, no_ret) # fs)"
  have again: "sat (seqM (emit (Usleep 50000)) (send_loop path st index speed pt (d # ds) True)) p'
      (\<lambda>s fs p'. play_ok lock fd (f # files) s (g (es @ fs)))" if "r = Inr Again"
  proof (rule sat_emit_seq)
    fix q assume "globals q = globals p'"
    then have "shm_name (distributeTcpInfo q) index = Inr lock" using a t(1) by (simp add: globals_def)
    moreover have "play_ok lock fd (f # files) s (?u fs)"
      if "reads fs = [] \<and> delivered fs = [] \<and> (\<forall>ok. guarded lock ok fs) \<and> (s = Inr EXIT_SUCCESS_CODE \<longrightarrow> lock_lost fs)" for s fs
      using that a \<open>r = Inr Again\<close> by (intro play_ok_freed [OF that, where b = b]) (simp_all add: g)
    ultimately show "sat (send_loop path st index speed pt (d # ds) True) q
        (\<lambda>s fs p'. play_ok lock fd (f # files) s (g (es @ (Usleep 50000, no_ret) # fs)))"
      by (intro sat_mono [OF send_loop_freed]) simp_all
  qed
  have nxt: "sat (seqM (emit (Usleep 50000)) (send_loop path st index speed pt ds False)) p'
      (\<lambda>s fs p'. play_ok lock fd (f # files) s (g (es @ fs)))" if "r = Inr Next"
  proof (rule sat_emit_seq)
    fix q assume "globals q = globals p'"
    then have "globals q = globals p" using a by simp
    moreover have "play_ok lock fd (f # files) s (?u fs)" if "play_ok lock fd files s fs" for s fs
      using that a t(3) \<open>r = Inr Next\<close> play_ok_guarded [OF that] by (intro play_ok_sent [OF that, where b = b]) (simp_all add: g)
    ultimately show "sat (send_loop path st index speed pt ds False) q
        (\<lambda>s fs p'. play_ok lock fd (f # files) s (g (es @ (Usleep 50000, no_ret) # fs)))"
      by (intro sat_mono [OF IH]) simp_all
  qed
  show "case r of Inl e \<Rightarrow> play_ok lock fd (f # files) (Inl e) (g es)
      | Inr x \<Rightarrow> sat (case x of Quit \<Rightarrow> retM EXIT_FAIL_CODE
          | Next \<Rightarrow> seqM (emit (Usleep 50000)) (send_loop path st index speed pt ds False)
          | Again \<Rightarrow> seqM (emit (Usleep 50000)) (send_loop path st index speed pt (d # ds) True)) p'
        (\<lambda>s fs p'. play_ok lock fd (f # files) s (g (es @ fs)))"
    using a again nxt
    by (auto simp: g EXIT_FAIL_CODE_def EXIT_SUCCESS_CODE_def intro!: play_ok_stop split: sum.splits sent.splits)
qed

lemma send_loop_ok:
  assumes "shm_name (distributeTcpInfo p) index = Inr lock" "index < length (distributeTcpInfo p)"
    and "acceptfd (distributeTcpInfo p ! index) = fd" "cstr path = Inr dir"
  shows "sat (send_loop path st index speed pt ds False) p (\<lambda>r es p'. play_ok lock fd (map (file_of dir) ds) r es)"
  using assms(1-3)
proof (induction ds arbitrary: p)
  case Nil
  show ?case by (subst send_loop.simps, rule sat_ret) (rule play_ok_stop, simp_all)
next
  case (Cons d ds)
  have IH: "sat (send_loop path st index speed pt ds False) q (\<lambda>r es p'. play_ok lock fd (map (file_of dir) ds) r es)"
    if "globals q = globals p" for q
    using that Cons.prems by (intro Cons.IH) (simp_all add: globals_def)
  have t: "shm_name (distributeTcpInfo q) index = Inr lock" "index < length (distributeTcpInfo q)"
    "acceptfd (distributeTcpInfo q ! index) = fd" if "globals q = globals p" for q
    using that Cons.prems by (simp_all add: globals_def)
  note stop = play_ok_stop [where fd = fd]
  show ?case
    apply (subst send_loop.simps, simp only: list.map)
    apply (rule sat_shm [OF Cons.prems(1)])
    apply (rule sat_ask_bind, (rule stop; simp))
    apply (rule sat_if, rule sat_log_seq, rule sat_ret, (rule stop; simp))
    apply (simp only: ent_name_def [where freed = False] if_False bindM_simps)
    apply (rule sat_lift_bind, (rule stop; simp))
    apply (rule sat_text, erule real_path_file [OF _ assms(4)])
    apply (rule sat_emit_seq, rule sat_ask_bind, (rule stop; simp))
    apply (rule sat_if, rule sat_log_seq, rule sat_fail, (rule stop; simp))
    apply (rule sat_ask_bind, (rule stop; simp))
    apply (rule sat_emit_seq, rule sat_ask_bind, (rule stop; simp))
    apply (rule sat_ask_bind, (rule stop; simp))
    apply (rule sat_name, (rule stop; simp))
    apply (rule sat_lift_bind, (rule stop; simp))
    apply (rule sat_atoi)
       apply (rule stop; simp)
      apply (rule stop; simp)
     apply (rule send_rest_ok [OF t]; simp add: IH)
    apply (rule send_rest_ok [OF t]; simp add: IH)
    done
qed

section \<open>Which files are selected\<close>

text \<open>
  A file of the recorder: its name starts with ten digits, the time stamp.  The
  reads behind the ten characters are harmless when they do not find another digit.
\<close>

definition stamp :: "dirent \<Rightarrow> int" where
  "stamp d = int (numval 10 0 (take 10 (entname d)))"

definition stamped :: "dirent \<Rightarrow> bool" where
  "stamped d \<longleftrightarrow> d_type d = DT_DIR \<or>
     (NUL \<in> set (d_name d) \<and> 10 \<le> length (entname d) \<and> (\<forall>c \<in> set (take 10 (entname d)). isdigit c) \<and> stamp d < 2 ^ 31)"

definition clean :: "event list \<Rightarrow> bool" where
  "clean es \<longleftrightarrow> (\<forall>e r. (Undefined e, r) \<in> set es \<longrightarrow> textOf (str r) = [] \<or> \<not> isdigit (hd (textOf (str r))))"

definition in_interval :: "int \<Rightarrow> int \<Rightarrow> dirent \<Rightarrow> bool" where
  "in_interval s e d \<longleftrightarrow> d_type d \<noteq> DT_DIR \<and> s \<le> stamp d \<and> stamp d \<le> e"

lemma clean_simps [simp]: "clean []" "clean (es @ fs) \<longleftrightarrow> clean es \<and> clean fs"
  "clean ((c, r) # es) \<longleftrightarrow> (case c of Undefined e \<Rightarrow> textOf (str r) = [] \<or> \<not> isdigit (hd (textOf (str r))) | _ \<Rightarrow> True) \<and> clean es"
  by (auto simp: clean_def split: call.splits)

lemma stamp_array:
  assumes "stamped d" "d_type d \<noteq> DT_DIR"
  shows "strncpy (replicate 10 NUL) 0 (d_name d) 10 = Inr (take 10 (entname d))"
  using assms strncpy_prefix [of "d_name d" "entname d" 10 "replicate 10 NUL" 0]
  by (simp add: stamped_def cstr_def entname_def)

lemma stamp_atoi:
  assumes "stamped d" "d_type d \<noteq> DT_DIR"
  shows "atoi (take 10 (entname d)) = Inl OutOfBounds"
    and "b = [] \<or> \<not> isdigit (hd b) \<Longrightarrow> atoi (take 10 (entname d) @ lit b) = Inr (stamp d)"
proof -
  let ?t = "take 10 (entname d)"
  have t: "\<forall>c \<in> set ?t. isdigit c" "?t \<noteq> []" "stamp d < 2 ^ 31" using assms by (auto simp: stamped_def)
  then show "atoi ?t = Inl OutOfBounds" by (intro atoi_unterminated)
  assume b: "b = [] \<or> \<not> isdigit (hd b)"
  obtain e r where e: "lit b = e # r" "\<not> isdigit e"
    using b isdigit_not_special(1) by (cases b) (auto simp: lit_def)
  have "signed_text [] ?t" using t by (simp add: signed_text_def)
  moreover have "numeral_value [] ?t = stamp d" by (simp add: numeral_value_def stamp_def)
  ultimately show "atoi (?t @ lit b) = Inr (stamp d)"
    using atoi_numeral [of "[]" "[]" ?t e r] e t(3) by (simp add: stamp_def)
qed

abbreviation harmless :: "event list \<Rightarrow> bool" where
  "harmless es \<equiv> \<forall>e \<in> set es. quiet e \<or> (\<exists>f. fst e = Undefined f)"

lemma filter_fn_sat:
  assumes "stamped d" "atoi st = Inr s" "atoi en = Inr e"
  shows "sat (filter_fn d st en) p (\<lambda>r es p'. globals p' = globals p \<and> harmless es \<and>
    (clean es \<longrightarrow> r = Inl Blocked \<or> r = Inr (in_interval s e d)))"
proof (cases "d_type d = DT_DIR")
  case True
  then show ?thesis unfolding filter_fn_def
    by simp (rule sat_log_seq, rule sat_ret, simp add: quiet_def in_interval_def)
next
  case False
  note a = stamp_array [OF assms(1) False] and v = stamp_atoi [OF assms(1) False]
  have c: "textOf (str r) = [] \<or> \<not> isdigit (hd (textOf (str r))) \<Longrightarrow>
      atoi (take 10 (entname d) @ lit (textOf (str r))) = Inr (stamp d)" for r by (rule v(2))
  show ?thesis
    unfolding filter_fn_def a if_not_P [OF False] bindM_simps assms(2,3)
    apply (simp only: atoi_stack_def v(1) sum.case bindM_assoc)
    apply (rule sat_ask_bind, simp)
    apply (rule sat_lift_bind, use c in force)
    apply (rule sat_if)
     apply (rule sat_ask_bind, simp)
     apply (rule sat_lift_bind, use c in force)
     apply (rule sat_ret, use c False in \<open>force simp: in_interval_def\<close>)
    apply (rule sat_ret, use c False in \<open>force simp: in_interval_def\<close>)
    done
qed

text \<open>All entries of a directory.\<close>

lemma select_all_sat:
  assumes "\<forall>d \<in> set ds. stamped d" "atoi st = Inr s" "atoi en = Inr e"
  shows "sat (select_all (\<lambda>d. filter_fn d st en) ds) p (\<lambda>r es p'. globals p' = globals p \<and> harmless es \<and>
    (clean es \<longrightarrow> r = Inl Blocked \<or> r = Inr (filter (in_interval s e) ds)))"
  using assms(1)
proof (induction ds arbitrary: p)
  case Nil
  show ?case by (rule satI [of _ _ "[]"]) simp_all
next
  case (Cons d ds)
  have "select_all (\<lambda>d. filter_fn d st en) (d # ds) =
      bindM (filter_fn d st en) (\<lambda>b. bindM (select_all (\<lambda>d. filter_fn d st en) ds) (\<lambda>xs. retM (if b then d # xs else xs)))"
    by (auto simp: bindM_def prog_run fun_eq_iff split: prod.splits sum.splits)
  moreover have "sat (bindM (filter_fn d st en) (\<lambda>b. bindM (select_all (\<lambda>d. filter_fn d st en) ds) (\<lambda>xs. retM (if b then d # xs else xs))))
      p (\<lambda>r es p'. globals p' = globals p \<and> harmless es \<and> (clean es \<longrightarrow> r = Inl Blocked \<or> r = Inr (filter (in_interval s e) (d # ds))))"
  proof (rule sat_bindI [OF filter_fn_sat [OF _ assms(2,3)]])
    show "stamped d" using Cons.prems by simp
    fix b es p'
    assume b: "globals p' = globals p \<and> harmless es \<and> (clean es \<longrightarrow> Inr b = (Inl Blocked :: bool cres) \<or> Inr b = (Inr (in_interval s e d) :: bool cres))"
    show "sat (bindM (select_all (\<lambda>d. filter_fn d st en) ds) (\<lambda>xs. retM (if b then d # xs else xs))) p'
        (\<lambda>r fs p'. globals p' = globals p \<and> harmless (es @ fs) \<and>
          (clean (es @ fs) \<longrightarrow> r = Inl Blocked \<or> r = Inr (filter (in_interval s e) (d # ds))))"
      by (rule sat_bindI [OF Cons.IH], use Cons.prems b in \<open>auto intro!: sat_ret\<close>)
  qed auto
  ultimately show ?case by simp
qed

text \<open>Events that are neither sends, reads of files nor tests for a file do not matter.\<close>

definition aside :: "event \<Rightarrow> bool" where
  "aside e \<longleftrightarrow> (case fst e of Access _ \<Rightarrow> False | ReadFile _ \<Rightarrow> False | Send _ _ \<Rightarrow> False | _ \<Rightarrow> True)"

lemma aside_harmless: "quiet e \<or> (\<exists>f. fst e = Undefined f) \<Longrightarrow> aside e"
  by (cases "fst e") (simp_all add: aside_def quiet_def)

lemma aside_one:
  assumes "aside e"
  shows "reads (e # fs) = reads fs" "delivered (e # fs) = delivered fs" "lock_lost (e # fs) \<longleftrightarrow> lock_lost fs"
    "guarded lock ok (e # fs) = guarded lock ok fs"
proof -
  obtain c r where "e = (c, r)" by (cases e)
  with assms show "reads (e # fs) = reads fs" "delivered (e # fs) = delivered fs" "lock_lost (e # fs) \<longleftrightarrow> lock_lost fs"
    "guarded lock ok (e # fs) = guarded lock ok fs"
    by (cases c; simp add: aside_def)+
qed

lemma aside_skip:
  assumes "\<forall>e \<in> set es. aside e"
  shows "reads (es @ fs) = reads fs" "delivered (es @ fs) = delivered fs" "lock_lost (es @ fs) \<longleftrightarrow> lock_lost fs"
    "guarded lock ok (es @ fs) = guarded lock ok fs"
  using assms by (induction es arbitrary: ok) (simp_all add: aside_one)

lemma play_ok_aside: "\<forall>e \<in> set es. aside e \<Longrightarrow> play_ok lock fd files r (es @ fs) = play_ok lock fd files r fs"
  by (simp only: play_ok_def aside_skip)

lemma play_ok_aside_only:
  assumes "\<forall>e \<in> set es. aside e"
  shows "play_ok lock fd files (Inl f) es"
  using aside_skip(1-3) [OF assms, of "[]"] aside_skip(4) [OF assms, of lock False "[]"] by (intro play_ok_stop) auto

lemma alphasort_exists:
  assumes "length ds < 2 ^ 64"
  obtains ys where "mset ys = mset (filter P ds)" "sorted_by alphasort ys"
proof -
  have "length (filter P ds) < 2 ^ 64" using assms length_filter_le [of P ds] by linarith
  from srt.sorts [OF alpha.comparator_axioms this] show ?thesis using that by blast
qed

lemma scandir_sat:
  assumes a: "\<And>k. alloc k" and l: "dir_listing dp = (ds, 0)" "length ds < 2 ^ 64" "\<forall>d \<in> set ds. stamped d"
    and t: "atoi st = Inr s" "atoi en = Inr e"
  shows "sat (scandir mem alloc (\<lambda>d. filter_fn d st en) (Some alphasort) (Some dp)) p (\<lambda>r es p'. globals p' = globals p \<and> harmless es \<and>
    (clean es \<longrightarrow> r = Inl Blocked \<or> (\<exists>ys. r = Inr (Some ys) \<and> mset ys = mset (filter (in_interval s e) ds) \<and> sorted_by alphasort ys)))"
proof -
  from select_all_sat [OF l(3) t, of p] obtain r es p' where
    r: "select_all (\<lambda>d. filter_fn d st en) ds p = (r, p')" "trc p' = trc p @ es" "globals p' = globals p" "harmless es"
      "clean es \<longrightarrow> r = Inl Blocked \<or> r = Inr (filter (in_interval s e) ds)" by (auto elim!: satE)
  show ?thesis
  proof (cases r)
    case (Inl f)
    with scandir_all [where alloc = alloc, OF l(1) a l(2) r(1), of mem] r show ?thesis by (auto simp: sat_def)
  next
    case (Inr xs)
    with scandir_all [where alloc = alloc, OF l(1) a l(2) r(1), of mem] obtain ys where
      "scandir mem alloc (\<lambda>d. filter_fn d st en) (Some alphasort) (Some dp) p = (Inr (Some ys), p')"
      "mset ys = mset xs" "sorted_by alphasort ys" by auto
    with r Inr show ?thesis by (auto simp: sat_def)
  qed
qed

lemma scanAndSend_sat:
  assumes i: "inp p = r0 # rest" "dirp r0 = Some dp" and l: "dir_listing dp = (ds, 0)" "length ds < 2 ^ 64" "\<forall>d \<in> set ds. stamped d"
    and a: "\<And>k. allocs p k" and t: "atoi st = Inr s" "atoi en = Inr e"
    and tbl: "shm_name (distributeTcpInfo p) index = Inr lock" "index < length (distributeTcpInfo p)"
      "acceptfd (distributeTcpInfo p ! index) = fd" and dir: "cstr path = Inr dir"
  shows "sat (scanAndSend path st en index speed) p (\<lambda>r es p'. clean es \<longrightarrow>
    (\<exists>ys. mset ys = mset (filter (in_interval s e) ds) \<and> sorted_by alphasort ys \<and> play_ok lock fd (map (file_of dir) ys) r es))"
proof -
  let ?S = "\<lambda>ys. mset ys = mset (filter (in_interval s e) ds) \<and> sorted_by alphasort ys"
  let ?R = "\<lambda>r es. \<exists>ys. mset ys = mset (filter (in_interval s e) ds) \<and> sorted_by alphasort ys \<and>
    play_ok lock fd (map (file_of dir) ys) r es"
  obtain zs where zs: "?S zs" using alphasort_exists [OF l(2)] by metis
  have fault: "?R (Inl f) es" if "\<forall>e \<in> set es. aside e" for f es using zs play_ok_aside_only [OF that] by blast
  have skip: "?R r fs \<Longrightarrow> ?R r (es @ fs)" if "\<forall>e \<in> set es. aside e" for r es fs using play_ok_aside [OF that] by simp
  have o: "aside (Opendir dir, r)" "aside (Time, r)" for r by (simp_all add: aside_def)
  have send: "sat (bindM (ask Time) (\<lambda>_. bindM (ask Time) (\<lambda>t. send_loop path st index speed (word_of_int (rv t)) ys False))) q
      (\<lambda>r es p'. play_ok lock fd (map (file_of dir) ys) r es)" if q: "globals q = globals p" for ys q
  proof (rule sat_ask_bind, rule play_ok_aside_only, simp, rule sat_ask_bind, rule play_ok_aside_only, simp add: o)
    fix t1 t2 :: ret and q1 q2
    assume "globals q1 = globals q" "globals q2 = globals q1"
    then have "distributeTcpInfo q2 = distributeTcpInfo p" using q by (simp add: globals_def)
    then have "sat (send_loop path st index speed (word_of_int (rv t2)) ys False) q2 (\<lambda>r es p'. play_ok lock fd (map (file_of dir) ys) r es)"
      using send_loop_ok [of q2 index lock fd path dir] tbl dir by simp
    then show "sat (send_loop path st index speed (word_of_int (rv t2)) ys False) q2
        (\<lambda>r es p'. play_ok lock fd (map (file_of dir) ys) r ((Time, t1) # (Time, t2) # es))"
      by (rule sat_mono) (use play_ok_aside [of "[(Time, t1), (Time, t2)]"] o in simp)
  qed
  have al: "allocs q k" if "globals q = globals p" for q k using a that by (simp add: globals_def)
  show ?thesis
    unfolding scanAndSend_def
  proof (rule sat_text [OF dir], rule sat_ask_bind)
    show "clean [] \<longrightarrow> ?R (Inl Blocked) []" using fault [of "[]"] by simp
    fix r q
    assume q: "globals q = globals p" "inp p = r # inp q"
    then have r: "dirp r = Some dp" using i by simp
    show "sat (bindM (getM sysmem) (\<lambda>mem. bindM (getM allocs) (\<lambda>alloc.
       bindM (scandir mem alloc (\<lambda>ent. filter_fn ent st en) (Some alphasort) (dirp r)) (\<lambda>namelist.
       case namelist of
         None \<Rightarrow> seqM (LogWrite ERROR ''%d %s'' [D 36, S ''scandir get error'']) (retM EXIT_SUCCESS_CODE)
       | Some ents \<Rightarrow> bindM (ask Time) (\<lambda>_. bindM (ask Time) (\<lambda>t.
           send_loop path st index speed (word_of_int (rv t)) ents False)))))) q
       (\<lambda>x es p'. clean ((Opendir dir, r) # es) \<longrightarrow> ?R x ((Opendir dir, r) # es))"
      unfolding r
    proof (rule sat_get_bind, rule sat_get_bind, rule sat_bindI [OF scandir_sat [OF al [OF q(1)] l t]])
      fix f es q'
      assume a: "globals q' = globals q \<and> harmless es \<and> (clean es \<longrightarrow> Inl f = (Inl Blocked :: dirent list option cres) \<or>
        (\<exists>ys. (Inl f :: dirent list option cres) = Inr (Some ys) \<and> mset ys = mset (filter (in_interval s e) ds) \<and> sorted_by alphasort ys))"
      then have "\<forall>e \<in> set ((Opendir dir, r) # es). aside e" using aside_harmless o by simp
      then show "clean ((Opendir dir, r) # es) \<longrightarrow> ?R (Inl f) ((Opendir dir, r) # es)" using fault by blast
    next
      fix x es q'
      assume a: "globals q' = globals q \<and> harmless es \<and> (clean es \<longrightarrow> Inr x = (Inl Blocked :: dirent list option cres) \<or>
        (\<exists>ys. (Inr x :: dirent list option cres) = Inr (Some ys) \<and> mset ys = mset (filter (in_interval s e) ds) \<and> sorted_by alphasort ys))"
      then have s: "\<forall>e \<in> set ((Opendir dir, r) # es). aside e" using aside_harmless o by simp
      show "sat (case x of None \<Rightarrow> seqM (LogWrite ERROR ''%d %s'' [D 36, S ''scandir get error'']) (retM EXIT_SUCCESS_CODE)
         | Some ents \<Rightarrow> bindM (ask Time) (\<lambda>_. bindM (ask Time) (\<lambda>t.
             send_loop path st index speed (word_of_int (rv t)) ents False))) q'
         (\<lambda>y fs p'. clean ((Opendir dir, r) # es @ fs) \<longrightarrow> ?R y ((Opendir dir, r) # es @ fs))"
      proof (cases x)
        case None
        then show ?thesis using a by simp (rule sat_log_seq, rule sat_ret, simp)
      next
        case (Some ys)
        have "globals q' = globals p" using a q by simp
        from send [OF this, of ys] a Some skip [OF s] show ?thesis by (auto elim!: sat_mono)
      qed
    qed
  qed
qed

section \<open>The order of the time stamps\<close>

lemma numval_bound: "\<forall>c \<in> set xs. isdigit c \<Longrightarrow> v < w \<Longrightarrow> numval 10 v xs < w * 10 ^ length xs"
proof (induction xs arbitrary: v w)
  case (Cons c xs)
  have "is_digit_in 10 c" using Cons.prems by (simp add: digit10_isdigit)
  then obtain k where k: "digit_of c = Some k" "k < 10" by (auto simp: is_digit_in_def split: option.splits)
  then have "v * 10 + k < w * 10" using Cons.prems(2) by linarith
  from Cons.IH [OF _ this] Cons.prems(1) k show ?case by (simp add: mult.assoc)
qed simp

lemma numval_lower: "v * 10 ^ length xs \<le> numval 10 v xs"
proof (induction xs arbitrary: v)
  case (Cons c xs)
  have "v * 10 * 10 ^ length xs \<le> (v * 10 + the (digit_of c)) * 10 ^ length xs" by (rule mult_right_mono) simp_all
  also have "\<dots> \<le> numval 10 v (c # xs)" using Cons.IH by simp
  finally show ?case by simp
qed simp

lemma digit_order: "isdigit c \<Longrightarrow> isdigit d \<Longrightarrow> uchar c < uchar d \<Longrightarrow> the (digit_of c) < the (digit_of d)"
  by (auto simp: digit_of_def isdigit_def)

lemma lexcmp_numval:
  assumes "length xs = length ys" "\<forall>c \<in> set xs. isdigit c" "\<forall>c \<in> set ys. isdigit c" "lexcmp (xs @ r) (ys @ s) \<le> 0"
  shows "numval 10 v xs \<le> numval 10 v ys"
  using assms
proof (induction xs ys arbitrary: v rule: list_induct2)
  case (Cons c xs d ys)
  show ?case
  proof (cases "c = d")
    case True
    with Cons show ?thesis by simp
  next
    case False
    have cd: "isdigit c" "isdigit d" "uchar c < uchar d" using Cons.prems False by (auto simp: le_less)
    have "v * 10 + the (digit_of c) < v * 10 + the (digit_of d)" using digit_order [OF cd] by simp
    then have "numval 10 (v * 10 + the (digit_of c)) xs < (v * 10 + the (digit_of d)) * 10 ^ length xs"
      using Cons.prems by (intro numval_bound) simp_all
    also have "\<dots> \<le> numval 10 (v * 10 + the (digit_of d)) ys" using numval_lower [of _ ys] Cons.hyps by simp
    finally show ?thesis by simp
  qed
qed simp

lemma stamp_mono:
  assumes "stamped a" "stamped b" "d_type a \<noteq> DT_DIR" "d_type b \<noteq> DT_DIR" "alphasort a b \<le> 0"
  shows "stamp a \<le> stamp b"
proof -
  have "numval 10 0 (take 10 (entname a)) \<le> numval 10 0 (take 10 (entname b))"
    by (rule lexcmp_numval [where r = "drop 10 (entname a)" and s = "drop 10 (entname b)"])
      (use assms in \<open>auto simp: stamped_def alphasort_def\<close>)
  then show ?thesis by (simp add: stamp_def)
qed

section \<open>Properties of a playback\<close>

lemma atoi_pad:
  assumes "- (2 ^ 31) \<le> x" "x < 2 ^ 31" "50 \<le> n"
  shows "atoi (pad n (sprintf_d x)) = Inr x"
proof -
  have "length (sprintf_d x) < n" using sprintf_d_length [of x] assms by simp
  then have "pad n (sprintf_d x) = sprintf_d x @ NUL # replicate (n - 1 - length (sprintf_d x)) NUL"
    by (simp add: pad_def Suc_diff_Suc flip: replicate_Suc)
  then show ?thesis using atoi_printed [OF assms(1,2), of NUL] isdigit_not_special(1) by auto
qed


definition demo_table :: "tcpInfo list" where
  "demo_table =
     [\<lparr>address = pad 128 ''192.168.30.3'', acceptedAddress = pad 128 ''10.0.0.7'', port = 60003, acceptfd = 4, clientNum = 1, flag = 0\<rparr>,
      \<lparr>address = pad 128 ''10.0.0.7'', acceptedAddress = pad 128 [], port = 9999, acceptfd = 9, clientNum = 0, flag = 0\<rparr>]"

definition demo_dir :: DIR where
  "demo_dir = \<lparr>unread_ents = [], replies = [Inr [plain_file 2 ''1667900002_001.data'',
     \<lparr>d_ino = 1, d_type = DT_DIR, d_name = lit ''.''\<rparr>, plain_file 3 ''1667900000_000.data''], Inr []]\<rparr>"

lemma demo_facts: "shm_name demo_table 1 = Inr ''./shm/10.0.0.7''" "1 < length demo_table" "acceptfd (demo_table ! 1) = 9"
  using shm_name_eq [of 1 demo_table "''10.0.0.7''"] by (simp_all add: demo_table_def)

definition demo_files :: "dirent list" where
  "demo_files = [plain_file 2 ''1667900002_001.data'', \<lparr>d_ino = 1, d_type = DT_DIR, d_name = lit ''.''\<rparr>,
     plain_file 3 ''1667900000_000.data'']"

lemma demo_listing: "dir_listing demo_dir = (demo_files, 0)" "length demo_files < 2 ^ 64"
  by (simp_all add: demo_dir_def demo_files_def dir_listing_def live_def)

lemma demo_stamped: "\<forall>d \<in> set demo_files. stamped d"
  by (simp add: demo_files_def stamped_def entname_def lit_def stamp_def isdigit_def uchar_def digit_of_def)


section \<open>Which calls a playback makes\<close>

definition play_call :: "call \<Rightarrow> bool" where
  "play_call c \<longleftrightarrow> local_call c \<and> (\<forall>n. c \<noteq> Mkdir n) \<or>
     (case c of Printf _ \<Rightarrow> True | Usleep _ \<Rightarrow> True | Undefined _ \<Rightarrow> True | ReadFile _ \<Rightarrow> True | Fclose _ \<Rightarrow> True
      | Opendir _ \<Rightarrow> True | Send _ _ \<Rightarrow> True | _ \<Rightarrow> False)"

lemma play_calls [simp]:
  "play_call (Log l f as)" "play_call (Printf x)" "play_call (Usleep n)" "play_call (Undefined u)" "play_call Time"
  "play_call (Access x)" "play_call Getcwd" "play_call (Fopen x y)" "play_call (ReadFile x)" "play_call (Fclose d)"
  "play_call (Opendir x)" "play_call (Send d b)" "\<not> play_call (Creat x)" "\<not> play_call (Remove x)" "\<not> play_call (Mkdir x)"
  "\<not> play_call (Fwrite d b)" "\<not> play_call (Connect d a q)"
  by (auto simp: play_call_def local_call_def)

lemma shm_file_only [only_intros]: "only P (shm_file index)"
  by (auto simp: shm_file_def tcpM_def intro!: only_intros)

lemma tcpM_only [only_intros]: "only P (tcpM index)"
  by (auto simp: tcpM_def intro!: only_intros)

lemma atoi_stack_only [only_intros]: "(\<And>f. P (Undefined f)) \<Longrightarrow> only P (atoi_stack b)"
  by (auto simp: atoi_stack_def intro!: only_intros split: sum.splits)

lemma ent_name_only [only_intros]: "(\<And>f. P (Undefined f)) \<Longrightarrow> only P (ent_name d b)"
  by (auto simp: ent_name_def intro!: only_intros)

lemma filter_fn_only: "only play_call (filter_fn d st en)"
  by (auto simp: filter_fn_def intro!: only_intros)

lemma send_entry_only: "only play_call (send_entry st index speed pt file b now ft)"
  by (auto simp: send_entry_def intro!: only_intros)

lemma send_loop_only: "only play_call (send_loop path st index speed pt ds freed)"
proof -
  have freed: "only play_call (send_loop path st index speed pt (d # ds) True)" for d ds
    by (subst send_loop.simps) (auto intro!: only_intros)
  have fresh: "only play_call (send_loop path st index speed pt ds False)" for ds
  proof (induction ds)
    case Nil
    show ?case by (subst send_loop.simps) (rule only_intros)
  next
    case (Cons d ds)
    then show ?case by (subst send_loop.simps) (auto intro!: only_intros send_entry_only freed split: sent.splits)
  qed
  show ?thesis using freed fresh by (cases freed; cases ds) (auto simp: send_loop.simps(1) intro: only_intros)
qed

lemma scan_loop_only:
  assumes "\<And>d. only P (select d)"
  shows "only P (scan_loop alloc select dp v vsize k)"
proof (induction "dir_size dp" arbitrary: dp v vsize k rule: less_induct)
  case less
  have "scan_loop alloc select dp v vsize k = (case readdir dp 0 of
        (None, errno, dp') \<Rightarrow> retM (errno, v)
      | (Some d, errno, dp') \<Rightarrow> bindM (select d) (\<lambda>selected.
          if \<not> selected then scan_loop alloc select dp' v vsize k
          else
            let full = (length v = vsize);
                vsize' = (if \<not> full then vsize else if vsize = 0 then 10 else vsize * 2);
                k' = (if full then Suc k else k)
            in if full \<and> \<not> alloc k then retM (ENOMEM, v)
               else if \<not> alloc k' then retM (ENOMEM, v)
               else scan_loop alloc select dp' (v @ [d]) vsize' (Suc k')))"
    by (rule ext, subst scan_loop.simps) (simp add: bindM_def prog_run Let_def split: prod.splits option.splits sum.splits)
  then show ?case
    using less readdir_shorter by (auto simp: Let_def intro!: only_intros assms split: prod.splits option.splits)
qed

lemma scandir_only:
  assumes "\<And>d. only P (select d)"
  shows "only P (scandir mem alloc select cmp dp)"
proof -
  have "scandir mem alloc select cmp dp = (case dp of None \<Rightarrow> retM None
      | Some d \<Rightarrow> bindM (scan_loop alloc select d [] 0 0) (\<lambda>(errno, v).
          if errno = 0 then (case cmp of None \<Rightarrow> retM (Some v)
            | Some c \<Rightarrow> liftM (bindR (qsort mem 8 \<lparr>d_ino = 0, d_type = 0, d_name = []\<rparr> c v) (\<lambda>v. Inr (Some v))))
          else retM None))"
    by (rule ext) (simp add: scandir_def scandir_tail_def bindM_def prog_run split: option.splits prod.splits sum.splits)
  then show ?thesis by (auto intro!: only_intros scan_loop_only assms split: option.splits prod.splits)
qed

lemma myscandirServe_only: "only play_call (myscandirServe s e index speed)"
  by (auto simp: myscandirServe_def scanAndSend_def intro!: only_intros scandir_only filter_fn_only send_loop_only
      data_dir_only split: option.splits)

section \<open>Replay requests\<close>

text \<open>The request a message of at most 14 bytes is, missing bytes being zero.\<close>

definition request_of :: "8 word list \<Rightarrow> ReplayProtocol" where
  "request_of m = replay_of (m @ replicate (14 - length m) 0)"

lemma request_memcpy:
  "memcpy (replicate 14 0) 0 m (length m) = (if length m \<le> 14 then Inr (m @ replicate (14 - length m) 0) else Inl OutOfBounds)"
  by (simp add: memcpy_eq)

text \<open>
  C38. A replay message of more than 14 bytes is copied over the end of the request
  structure on the stack, before anything else is done with it.
\<close>

theorem playback_overflow:
  assumes "shm_name (distributeTcpInfo p) index = Inr lock" "14 < length m"
  shows "playback_run m index p = (Inl OutOfBounds, p)"
  using assms by (simp add: playback_run_def bindM_def shm_file_eq request_memcpy prog_run)

theorem playback_overflow_witness: "playback_run (replicate 15 0x88) 1 (boot [] demo_table) = (Inl OutOfBounds, boot [] demo_table)"
  using playback_overflow [of "boot [] demo_table" 1 "''./shm/10.0.0.7''" "replicate 15 0x88"] demo_facts(1) by simp

lemma sat_self: "sat m p R \<Longrightarrow> sat m p (\<lambda>r es p'. m p = (r, p') \<and> R r es p')"
  by (auto simp: sat_def)

lemma sat_log: "R (Inr ()) [(Log l f as, no_ret)] (p\<lparr>trc := trc p @ [(Log l f as, no_ret)]\<rparr>) \<Longrightarrow> sat (LogWrite l f as) p R"
  by (simp add: sat_def LogWrite_def prog_run)

lemma remove_lock_sat:
  assumes "\<And>e. \<exists>l f as. failed e = LogWrite l f as"
  shows "sat (remove_lock lock line failed) p (\<lambda>r es p'. (r = Inl Blocked \<and> acts es = []) \<or> (r = Inr () \<and> (\<exists>d. acts es = [(Remove lock, d)])))"
  unfolding remove_lock_def
proof (rule sat_ask_bind, simp, rule sat_if)
  fix r :: ret and p'
  obtain l f as where "failed (err r) = LogWrite l f as" using assms by blast
  then show "sat (failed (err r)) p' (\<lambda>s fs p'. (s = Inl Blocked \<and> acts ((Remove lock, r) # fs) = []) \<or>
      (s = Inr () \<and> (\<exists>d. acts ((Remove lock, r) # fs) = [(Remove lock, d)])))"
    by (simp add: sat_def LogWrite_def prog_run quiet_def)
qed (simp add: sat_def LogWrite_def prog_run quiet_def)

text \<open>What \<open>START\<close> does after the lock file was created: the playback, then its removal on failure.\<close>

definition start_ok :: "string \<Rightarrow> int prog \<Rightarrow> unit cres \<Rightarrow> event list \<Rightarrow> bool" where
  "start_ok lock serve r es \<longleftrightarrow> (\<exists>fs gs q q' res. acts es = fs @ gs \<and> (\<forall>e \<in> set fs. play_call (fst e)) \<and> serve q = (res, q') \<and>
     (case res of Inl f \<Rightarrow> r = Inl f \<and> gs = []
      | Inr n \<Rightarrow> if n = EXIT_SUCCESS_CODE then r = Inr () \<and> gs = []
          else (r = Inl Blocked \<and> gs = []) \<or> (r = Inr () \<and> (\<exists>d. gs = [(Remove lock, d)]))))"

lemma start_sat:
  assumes "only play_call serve" "\<And>e. \<exists>l f as. failed e = LogWrite l f as"
  shows "sat (bindM serve (\<lambda>res.
     if res = EXIT_SUCCESS_CODE then LogWrite l f as
     else seqM (LogWrite l' f' as') (remove_lock lock line failed))) p (\<lambda>r es p'. start_ok lock serve r es)"
proof (rule sat_bindI [OF sat_self [OF only_sat [OF assms(1)]]])
  note acts = acts_def
  fix x and es :: "event list" and q
  assume a: "serve p = (Inl x, q) \<and> (\<forall>e \<in> set es. play_call (fst e)) \<and> kept p q"
  then show "start_ok lock serve (Inl x) es"
    unfolding start_ok_def by (intro exI [of _ "acts es"] exI [of _ "[]"] exI [of _ p] exI [of _ q] exI [of _ "Inl x"]) (simp add: acts)
next
  note acts = acts_def
  fix x and es :: "event list" and q
  assume a: "serve p = (Inr x, q) \<and> (\<forall>e \<in> set es. play_call (fst e)) \<and> kept p q"
  have i: "start_ok lock serve r (es @ fs)"
    if "if x = EXIT_SUCCESS_CODE then r = Inr () \<and> acts fs = []
        else (r = Inl Blocked \<and> acts fs = []) \<or> (r = Inr () \<and> (\<exists>d. acts fs = [(Remove lock, d)]))" for r fs
    unfolding start_ok_def using that a
    by (intro exI [of _ "acts es"] exI [of _ "acts fs"] exI [of _ p] exI [of _ q] exI [of _ "Inr x"]) (simp add: acts)
  show "sat (if x = EXIT_SUCCESS_CODE then LogWrite l f as else seqM (LogWrite l' f' as') (remove_lock lock line failed)) q
      (\<lambda>r fs p'. start_ok lock serve r (es @ fs))"
  proof (rule sat_if)
    assume "x = EXIT_SUCCESS_CODE"
    then show "sat (LogWrite l f as) q (\<lambda>r fs p'. start_ok lock serve r (es @ fs))"
      by (intro sat_log i) (simp add: quiet_def)
  next
    assume "x \<noteq> EXIT_SUCCESS_CODE"
    then show "sat (seqM (LogWrite l' f' as') (remove_lock lock line failed)) q (\<lambda>r fs p'. start_ok lock serve r (es @ fs))"
      by (intro sat_log_seq sat_mono [OF remove_lock_sat [OF assms(2)]] i) (simp add: quiet_def)
  qed
qed



lemma playback_run_only: "only (\<lambda>c. play_call c \<or> (\<exists>n. c = Creat n \<or> c = Remove n)) (playback_run m index)"
  by (auto simp: playback_run_def remove_lock_def Let_def intro!: only_intros only_mono [OF myscandirServe_only])

lemma real_path_ok:
  assumes "cstr path = Inr dir" "cstr x = Inr n" "length dir + length n < 1000"
  shows "\<exists>r. real_path path x = Inr r"
proof -
  have c: "cstr (lit ''/'') = Inr ''/''" by simp
  show ?thesis using assms(3)
    by (simp add: real_path_def pad_strcpy [OF assms(1)] strlen_cstr assms(1) strcpy_eq [OF c] strcpy_eq [OF assms(2)])
qed

lemma strncpy_stamp:
  assumes "stamped d" "d_type d \<noteq> DT_DIR"
  shows "strncpy (replicate 10 NUL) 0 (lit (entname d)) 10 = Inr (take 10 (entname d))"
  using assms strncpy_prefix [of "lit (entname d)" "entname d" 10 "replicate 10 NUL" 0]
  by (simp add: stamped_def entname_def)



end
