(* ===== verification/Distribute.thy ===== *)
theory Distribute
  imports Playback
begin

text \<open>
  The server, \<^verbatim>\<open>util.c\<close> and \<^verbatim>\<open>server.c\<close>: the table of peers from the configuration,
  the listening socket, the receiving process of a connection, and the threads that
  forward a message to the clients.  \<open>distribute_run\<close> holds the mutex \<open>mute\<close> when it creates
  a thread and takes it again before the next one, and the thread releases it as its
  last action; so the threads run one after the other, and the model runs them so.
\<close>

abbreviation (input) MAX_BUFFER_SIZE :: nat where "MAX_BUFFER_SIZE \<equiv> 4096000"

abbreviation (input) DISTRIBUTE :: int where "DISTRIBUTE \<equiv> 1"

abbreviation (input) PLAYBACK :: int where "PLAYBACK \<equiv> 2"

section \<open>The table of peers\<close>

definition zero_tcp :: tcpInfo where
  "zero_tcp = \<lparr>address = replicate 128 NUL, acceptedAddress = replicate 128 NUL, port = 0, acceptfd = 0, clientNum = 0, flag = 0\<rparr>"

text \<open>\<open>getInfo_ConfigFile\<close> with a key in an array, its result used at once.\<close>

definition info_buf :: "char list \<Rightarrow> ConfigInfo list \<Rightarrow> char list cres" where
  "info_buf k info =
     bindR (getInfo_ConfigFile k info) (\<lambda>v. case v of None \<Rightarrow> Inl NullDeref | Some b \<Rightarrow> Inr b)"

definition parse_client :: "ConfigInfo list \<Rightarrow> nat \<Rightarrow> (tcpInfo \<times> char list) cres" where
  "parse_client info i =
     bindR (strncpy (replicate 20 NUL) 0 (lit ''client'') 6) (\<lambda>baseName.
     bindR (sprintf_to (replicate 5 NUL) (sprintf_d (int i))) (\<lambda>charValue.
     bindR (strcat baseName charValue) (\<lambda>baseName.
     bindR (strcpy (replicate 20 NUL) 0 baseName) (\<lambda>baseAddressName.
     bindR (strcat baseAddressName (lit ''-address'')) (\<lambda>baseAddressName.
     bindR (strcpy (replicate 20 NUL) 0 baseName) (\<lambda>basePortName.
     bindR (strcat basePortName (lit ''-port'')) (\<lambda>basePortName.
     bindR (info_buf baseAddressName info) (\<lambda>a.
     bindR (strcpy (replicate 128 NUL) 0 a) (\<lambda>a.
     bindR (info_buf basePortName info) (\<lambda>q.
     bindR (atoi q) (\<lambda>q.
     Inr (zero_tcp\<lparr>address := a, port := q\<rparr>, baseName))))))))))))"

fun parse_clients :: "ConfigInfo list \<Rightarrow> nat list \<Rightarrow> tcpInfo list \<Rightarrow> tcpInfo list prog" where
  "parse_clients info [] table = retM table"
| "parse_clients info (i # is) table =
     bindM (liftM (parse_client info i)) (\<lambda>(client, baseName).
     bindM (liftM (setR table (int i) client)) (\<lambda>table.
     bindM (text_of baseName) (\<lambda>name.
     bindM (text_of (address client)) (\<lambda>a.
     seqM (LogWrite DEBUG ''%d %s %s :%s'' [D 373, S name, S ''address is'', S a])
     (seqM (LogWrite DEBUG ''%d %s %s :%d'' [D 374, S name, S ''port is'', D (port client)])
     (parse_clients info is table))))))"

definition parseFile_distributeTcpInfo :: "unit prog" where
  "parseFile_distributeTcpInfo =
     bindM config_path (\<lambda>path.
     bindM (load_config path) (\<lambda>info.
     bindM (liftM (bindR (info_value ''client-num'' info) atoi)) (\<lambda>clientNum.
     seqM (LogWrite INFO ''%d %s :%d'' [D 332, S ''client number is'', D clientNum])
     (if clientNum < -1 then failM NullDeref
      else
        bindM (liftM (bindR (info_value ''distribute-address'' info) (strcpy (replicate 128 NUL) 0))) (\<lambda>a.
        bindM (liftM (bindR (info_value ''distribute-port'' info) atoi)) (\<lambda>q.
        let master = zero_tcp\<lparr>address := a, port := q, clientNum := clientNum\<rparr>
        in bindM (liftM (setR (replicate (nat (clientNum + 1)) zero_tcp) 0 master)) (\<lambda>table.
           bindM (text_of a) (\<lambda>s.
           seqM (LogWrite DEBUG ''%d %s :%s'' [D 344, S ''distribute address is'', S s])
           (seqM (LogWrite DEBUG ''%d %s :%d'' [D 346, S ''distribute port is'', D q])
           (seqM (LogWrite DEBUG ''%d %s :%d'' [D 348, S ''distribute connected clients number are'', D clientNum])
           (bindM (parse_clients info [1..<Suc (nat clientNum)] table) (\<lambda>table.
            modM (distributeTcpInfo_update (\<lambda>_. table))))))))))))))"

section \<open>Forwarding to a client\<close>

definition distribute_client_socket :: "nat \<Rightarrow> int prog" where
  "distribute_client_socket index =
     bindM (ask Socket) (\<lambda>s.
     if rv s = EXIT_FAIL_CODE then
       seqM (LogWrite ERROR ''%d %s :%s'' [D 103, S ''master-client socket failed'', StrError (err s)]) (retM EXIT_FAIL_CODE)
     else
       bindM (ask (Setsockopt (rv s))) (\<lambda>res.
       if rv res = EXIT_FAIL_CODE then
         seqM (LogWrite ERROR ''%d %s :%s'' [D 112, S ''distribute-client setsockopt failed'', StrError (err res)])
         (seqM (emit (Close (rv s))) (retM EXIT_FAIL_CODE))
       else
         bindM (tcpM index) (\<lambda>e.
         bindM (liftM (inet_addr (address e))) (\<lambda>a.
         bindM (ask (Connect (rv s) a (htons (word_of_int (port e))))) (\<lambda>res.
         if rv res = EXIT_FAIL_CODE then
           bindM (text_of (address e)) (\<lambda>t.
           seqM (LogWrite ERROR ''%d %s :%s'' [D 125, S ''master-client connect failed'', S t])
           (seqM (emit (Close (rv s))) (retM EXIT_FAIL_CODE)))
         else seqM (set_tcpM index (acceptfd_update (\<lambda>_. rv s))) (retM (rv s)))))))"

text \<open>The thread of client \<open>index\<close> with the message \<open>m\<close> in its parameter.\<close>

definition distribute_client_send :: "8 word list \<Rightarrow> nat \<Rightarrow> unit prog" where
  "distribute_client_send m index =
     seqM (LogWrite DEBUG ''%d %s:%d'' [D 253, S ''thread locked by client'', D (int index)])
     (seqM (LogWrite DEBUG ''%d %s'' [D 258, S ''distribute client socket creating''])
     (bindM (distribute_client_socket index) (\<lambda>socketfd.
      bindM (tcpM index) (\<lambda>e.
      bindM (text_of (address e)) (\<lambda>a.
      seqM
        (if socketfd = EXIT_FAIL_CODE then
           LogWrite ERROR ''%d %s :%s:%d'' [D 261, S ''distribute-client socket failed, only record'', S a, D (port e)]
         else
           seqM (LogWrite DEBUG ''%d %s :%s:%d %d'' [D 266, S ''distribute-client socket created'', S a, D (port e), D socketfd])
           (seqM (LogWrite DEBUG ''%d %s :%d'' [D 270, S ''distribute-client thread created and acceptfd'', D socketfd])
           (bindM (tcpM 0) (\<lambda>e0.
            bindM (liftM (if PacketHead (replay_of (buf_prefix 14 m)) = PLAYBACKHEADER
                          then strcmp (address e) (acceptedAddress e0) else Inr 1)) (\<lambda>d.
            seqM
              (if d = 0 then
                 seqM (LogWrite INFO ''%d %s''
                   [D 279, S ''distribute-client accepted, and get playback signal, start execute playback''])
                 (playback_run m index)
               else retM ())
              (bindM (shm_file index) (\<lambda>shmFile.
               bindM (ask (Access shmFile)) (\<lambda>acc.
               seqM
                 (if rv acc \<noteq> 0 then
                    bindM (ask (Send socketfd m)) (\<lambda>res.
                    if rv res = EXIT_FAIL_CODE then
                      LogWrite ERROR ''%d %s %s :%s:%d'' [D 295, S ''send [FAIL] to'', StrError (err res), S a, D (port e)]
                    else if rv res > 0 then
                      LogWrite DEBUG ''%d %s %s:%d'' [D 300, S ''send [SUCCESS] to'', S a, D (port e)]
                    else retM ())
                  else retM ())
                 (emit (Close socketfd))))))))))
        (LogWrite DEBUG ''%d %s:%d'' [D 308, S ''thread unlocked by client'', D (int index)]))))))"

text \<open>
  The loop that creates the threads, and the one that joins them.  When a thread is
  not created nobody releases the mutex: the next round waits for it forever, and
  after the last round its uninitialised handle is joined.
\<close>

fun run_clients :: "8 word list \<Rightarrow> nat list \<Rightarrow> unit prog" where
  "run_clients m [] = retM ()"
| "run_clients m (i # is) =
     bindM (ask (PthreadCreate i)) (\<lambda>r.
     if rv r = 0 then seqM (distribute_client_send m i) (run_clients m is)
     else
       seqM
         (if rv r = EXIT_FAIL_CODE then
            seqM (LogWrite ERROR ''%d %s :%s'' [D 237, S ''distribute-client thread create failed'', StrError (err r)])
            (bindM (tcpM 0) (\<lambda>e. emit (Close (acceptfd e))))
          else retM ())
         (failM (if is = [] then Uninit else Deadlock)))"

definition distribute_run :: "8 word list \<Rightarrow> unit prog" where
  "distribute_run m =
     bindM (tcpM 0) (\<lambda>e.
     bindM (if flag e = DISTRIBUTE then
              bindM initDataRecord (\<lambda>file.
              if file = 0 then
                seqM (LogWrite ERROR ''%d %s:'' [D 216, S ''distribute initDataRecord failed'']) (retM False)
              else seqM (emit (Fwrite file m)) (seqM (emit (Fclose file)) (retM True)))
            else retM True) (\<lambda>go.
     if \<not> go then retM ()
     else if MAX_BUFFER_SIZE < length m then failM OutOfBounds
     else
       seqM (LogWrite DEBUG ''%d %s'' [D 230, S ''distribute-client thread mutex init''])
       (seqM (run_clients m [1..<Suc (nat (clientNum e))])
       (LogWrite DEBUG ''%d %s'' [D 246, S ''distribute-client thread mutex destroy'']))))"

section \<open>Receiving\<close>

text \<open>A message that was received: \<open>rv\<close> bytes of the zeroed buffer.\<close>

definition received :: "ret \<Rightarrow> 8 word list" where
  "received r = buf_prefix (nat (rv r)) (take MAX_BUFFER_SIZE (dat r))"

definition handle_message :: "8 word list \<Rightarrow> unit prog" where
  "handle_message m =
     seqM (LogWrite INFO ''%d %s'' [D 170, S ''distribute received message''])
     (case kind_of m of
        Record_Forward \<Rightarrow> seqM (set_tcpM 0 (flag_update (\<lambda>_. DISTRIBUTE))) (distribute_run m)
      | Replay \<Rightarrow>
          seqM (LogWrite INFO ''%d %s'' [D 181, S ''distribute received playback signal, not record''])
          (seqM (set_tcpM 0 (flag_update (\<lambda>_. PLAYBACK))) (distribute_run m))
      | Useless \<Rightarrow> LogWrite INFO ''%d %s'' [D 186, S ''distribute received useless message, discard''])"

fun receive_loop :: "nat \<Rightarrow> unit prog" where
  "receive_loop 0 = failM NoReturn"
| "receive_loop (Suc n) =
     bindM (tcpM 0) (\<lambda>e.
     bindM (ask (Recv (acceptfd e) MAX_BUFFER_SIZE)) (\<lambda>r.
     if rv r = EXIT_FAIL_CODE then
       LogWrite ERROR ''%d %s :%s'' [D 165, S ''distribute receive failed'', StrError (err r)]
     else if rv r > 0 then seqM (handle_message (received r)) (receive_loop n)
     else if rv r = 0 then retM ()
     else receive_loop n))"

definition distribute_receive :: "unit prog" where
  "distribute_receive =
     seqM (fuelled receive_loop)
     (seqM (LogWrite INFO ''%d %s'' [D 193, S ''distribute all done''])
     (bindM (tcpM 0) (\<lambda>e. emit (Close (acceptfd e)))))"

section \<open>The server\<close>

fun accept_loop :: "int \<Rightarrow> nat \<Rightarrow> unit prog" where
  "accept_loop fd 0 = failM NoReturn"
| "accept_loop fd (Suc n) =
     bindM (ask (Accept fd)) (\<lambda>r.
     if rv r = EXIT_FAIL_CODE then
       seqM (LogWrite ERROR ''%d %s :%s'' [D 64, S ''distribute accept failed'', StrError (err r)]) exit_fail
     else
       let caddr = buf_prefix 6 (dat r); text = inet_ntoa (drop 2 caddr)
       in bindM (tcpM 0) (\<lambda>e.
          bindM (liftM (strcpy (acceptedAddress e) 0 (lit text))) (\<lambda>b.
          seqM (set_tcpM 0 (\<lambda>e. e\<lparr>acceptedAddress := b, acceptfd := rv r\<rparr>))
          (seqM (LogWrite INFO ''%d %s'' [D 69, S ''distribute connection ok''])
          (seqM (LogWrite DEBUG ''%d %s: %d'' [D 71, S ''distribute accept fd get'', D (rv r)])
          (seqM (LogWrite INFO ''%d %s%d %s%s'' [D 74, S ''distribute cport='',
             D (uint (htons (le (take 2 caddr)))), S ''distribute caddr='', S text])
          (bindM (ask Fork) (\<lambda>pid.
           if rv pid = EXIT_FAIL_CODE then
             seqM (LogWrite ERROR ''%d %s :%s'' [D 81, S ''distribute fork error'', StrError (err pid)])
             (bindM (tcpM 0) (\<lambda>e. emit (Close (acceptfd e))))
           else
             seqM
               (if rv pid = 0 then
                  seqM (LogWrite DEBUG ''%d %s'' [D 89, S ''distribute-client receive process created''])
                  distribute_receive
                else retM ())
               (accept_loop fd n)))))))))"

definition distribute_server :: "unit prog" where
  "distribute_server =
     bindM (ask Socket) (\<lambda>s.
     if rv s = EXIT_FAIL_CODE then
       seqM (LogWrite ERROR ''%d %s :%s'' [D 17, S ''distribute socket failed'', StrError (err s)]) exit_fail
     else
       bindM (ask (Setsockopt (rv s))) (\<lambda>res.
       if rv res = EXIT_FAIL_CODE then
         seqM (LogWrite ERROR ''%d %s :%s'' [D 25, S ''distribute setsockopt failed'', StrError (err res)])
         (seqM (emit (Close (rv s))) exit_fail)
       else
         seqM (LogWrite DEBUG ''%d %s'' [D 31, S ''distribute socket created''])
         (bindM (tcpM 0) (\<lambda>e.
          bindM (liftM (inet_addr (address e))) (\<lambda>a.
          bindM (ask (Bind (rv s) a (htons (word_of_int (port e))))) (\<lambda>res.
          if rv res = EXIT_FAIL_CODE then
            seqM (LogWrite ERROR ''%d %s :%s'' [D 40, S ''distribute bind failed'', StrError (err res)])
            (seqM (emit (Close (rv s))) exit_fail)
          else
            seqM (LogWrite DEBUG ''%d %s'' [D 45, S ''distribute socket bind''])
            (bindM (ask (Listen (rv s) 5)) (\<lambda>res.
             if rv res = EXIT_FAIL_CODE then
               seqM (LogWrite ERROR ''%d %s :%s'' [D 49, S ''distribute listen failed'', StrError (err res)])
               (seqM (emit (Close (rv s))) exit_fail)
             else
               seqM (LogWrite DEBUG ''%d %s'' [D 54, S ''distribute socket listening''])
               (fuelled (accept_loop (rv s)))))))))))"

definition server_start :: "unit prog" where
  "server_start = distribute_server"

definition server_main :: "int prog" where
  "server_main =
     seqM (LogWrite INFO ''%d %s'' [D 7, S ''*********Start Server*********''])
     (seqM (LogWrite INFO ''%d %s'' [D 10, S ''parse config file to distribute&playbook''])
     (seqM parseFile_distributeTcpInfo
     (seqM (LogWrite INFO ''%d %s'' [D 25, S ''init tcp connection''])
     (seqM server_start
     (retM EXIT_SUCCESS_CODE)))))"

section \<open>Invariant of the table\<close>

text \<open>
  The arrays have their size and hold strings, the addresses leave room for the lock
  file's name, and there is an entry for every client.
\<close>

definition peer_ok :: "tcpInfo \<Rightarrow> bool" where
  "peer_ok e \<longleftrightarrow> length (address e) = 128 \<and> NUL \<in> set (address e) \<and> length (textOf (address e)) < 122 \<and>
     (\<exists>ip. inet_addr (address e) = Inr ip) \<and> length (acceptedAddress e) = 128 \<and> NUL \<in> set (acceptedAddress e)"

definition peers_ok :: "tcpInfo list \<Rightarrow> bool" where
  "peers_ok t \<longleftrightarrow> (\<forall>e \<in> set t. peer_ok e) \<and> 0 < length t \<and> clientNum (t ! 0) < int (length t)"

text \<open>What a client's thread does on the network depends on these.\<close>

definition target :: "tcpInfo list \<Rightarrow> nat \<Rightarrow> string \<times> in_addr \<times> 16 word" where
  "target t i = (''./shm/'' @ textOf (address (t ! i)),
     (case inet_addr (address (t ! i)) of Inr ip \<Rightarrow> ip | Inl _ \<Rightarrow> []), htons (word_of_int (port (t ! i))))"

text \<open>Tables that differ in the sockets of the clients only.\<close>

definition agree :: "tcpInfo list \<Rightarrow> tcpInfo list \<Rightarrow> bool" where
  "agree t t' \<longleftrightarrow> t' ! 0 = t ! 0 \<and> map (acceptfd_update (\<lambda>_. 0)) t' = map (acceptfd_update (\<lambda>_. 0)) t"

lemma agree_refl [simp]: "agree t t" and agree_trans: "agree t u \<Longrightarrow> agree u v \<Longrightarrow> agree t v"
  by (simp_all add: agree_def)

lemma agree_length: "agree t t' \<Longrightarrow> length t' = length t"
  unfolding agree_def by (metis length_map)

lemma agree_nth:
  assumes "agree t t'" "i < length t"
  shows "address (t' ! i) = address (t ! i)" "acceptedAddress (t' ! i) = acceptedAddress (t ! i)"
    "port (t' ! i) = port (t ! i)" "clientNum (t' ! i) = clientNum (t ! i)" "flag (t' ! i) = flag (t ! i)"
proof -
  have "map (acceptfd_update (\<lambda>_. 0)) t' ! i = map (acceptfd_update (\<lambda>_. 0)) t ! i"
    using assms(1) by (simp add: agree_def)
  then have e: "acceptfd_update (\<lambda>_. 0) (t' ! i) = acceptfd_update (\<lambda>_. 0) (t ! i)"
    using assms agree_length [OF assms(1)] by simp
  show "address (t' ! i) = address (t ! i)" "acceptedAddress (t' ! i) = acceptedAddress (t ! i)"
    "port (t' ! i) = port (t ! i)" "clientNum (t' ! i) = clientNum (t ! i)" "flag (t' ! i) = flag (t ! i)"
    using arg_cong [OF e, of address] arg_cong [OF e, of acceptedAddress] arg_cong [OF e, of port]
      arg_cong [OF e, of clientNum] arg_cong [OF e, of flag] by simp_all
qed

lemma agree_target: "agree t t' \<Longrightarrow> i < length t \<Longrightarrow> target t' i = target t i"
  by (simp add: target_def agree_nth)

lemma agree_update: "0 < i \<Longrightarrow> agree t (t[i := (t ! i)\<lparr>acceptfd := v\<rparr>])"
  by (cases "i < length t") (auto simp: agree_def map_update list_update_same_conv list_update_beyond)

lemma peers_ok_shm:
  assumes "peers_ok t" "i < length t"
  shows "shm_name t i = Inr (fst (target t i))"
proof -
  have "peer_ok (t ! i)" using assms by (simp add: peers_ok_def)
  then show ?thesis using assms(2) shm_name_eq [of i t "textOf (address (t ! i))"]
    by (simp add: peer_ok_def cstr_textOf target_def)
qed

lemma peers_ok_update:
  assumes "peers_ok t" "i < length t" "peer_ok (f (t ! i))" "clientNum (f (t ! i)) = clientNum (t ! i)"
  shows "peers_ok (t[i := f (t ! i)])"
  using assms by (auto simp: peers_ok_def nth_list_update dest!: in_set_conv_nth [THEN iffD1])

text \<open>Programs that keep the invariant.\<close>

definition keeps :: "'a prog \<Rightarrow> bool" where
  "keeps m \<longleftrightarrow> (\<forall>p. peers_ok (distributeTcpInfo p) \<longrightarrow> peers_ok (distributeTcpInfo (snd (m p))))"

named_theorems keeps_intros \<open>composition of programs that keep the invariant\<close>

lemma only_keeps: "only P m \<Longrightarrow> keeps m"
  by (auto simp: only_def keeps_def sat_def kept_def) metis

lemma keeps_bind [keeps_intros]: "keeps m \<Longrightarrow> (\<And>x. keeps (f x)) \<Longrightarrow> keeps (bindM m f)"
  by (auto simp: keeps_def bindM_def split: prod.splits sum.splits)

lemma keeps_seq [keeps_intros]: "keeps m \<Longrightarrow> keeps n \<Longrightarrow> keeps (seqM m n)"
  unfolding seqM_def by (rule keeps_bind)

lemma keeps_basic [keeps_intros]:
  "keeps (retM x)" "keeps (failM e)" "keeps (liftM r)" "keeps (getM f)" "keeps (ask c)" "keeps (emit c)" "keeps (LogWrite l g as)"
  "keeps (text_of b)" "keeps (tcpM i)" "keeps (shm_file i)"
  by (auto intro!: only_keeps [where P = "\<lambda>_. True"] only_intros)

lemma keeps_set [keeps_intros]:
  assumes "\<And>e. peer_ok e \<Longrightarrow> peer_ok (f e)" "\<And>e. clientNum (f e) = clientNum e"
  shows "keeps (set_tcpM i f)"
  using assms peers_ok_update [of _ i f]
  by (auto simp: keeps_def set_tcpM_def tcpM_def bindM_def prog_run split: sum.splits if_splits) (auto simp: peers_ok_def)

lemma keeps_if [keeps_intros]: "(b \<Longrightarrow> keeps m) \<Longrightarrow> (\<not> b \<Longrightarrow> keeps n) \<Longrightarrow> keeps (if b then m else n)"
  by simp

lemma keeps_client_send: "keeps (distribute_client_send m i)"
  by (auto simp: distribute_client_send_def distribute_client_socket_def peer_ok_def
      intro!: keeps_intros only_keeps [OF playback_run_only])

lemma keeps_run_clients: "keeps (run_clients m is)"
  by (induction "is") (auto intro!: keeps_intros keeps_client_send)

lemma keeps_handle: "keeps (handle_message m)"
  by (auto simp: handle_message_def distribute_run_def peer_ok_def
      intro!: keeps_intros keeps_run_clients only_keeps [OF initDataRecord_only] split: kind.splits)

lemma keeps_receive: "keeps distribute_receive"
proof -
  have "keeps (receive_loop n)" for n by (induction n) (auto intro!: keeps_intros keeps_handle)
  then have "keeps (fuelled receive_loop)" by (simp add: keeps_def fuelled_def del: receive_loop.simps)
  then show ?thesis by (auto simp: distribute_receive_def intro!: keeps_intros)
qed

end
