(* ===== verification/Protocol.thy ===== *)
theory Protocol
  imports Process
begin

text \<open>
  Protocols as automata over the calls a program makes, and a calculus that shows a
  program to follow one.  A protocol is a partial step function on its states; the
  events that have no effect outside the process (log lines, terminal output,
  sleeping) are not part of it.
\<close>

section \<open>Automata over events\<close>

type_synonym 's protocol = "'s \<Rightarrow> event \<Rightarrow> 's option"

fun run_protocol :: "'s protocol \<Rightarrow> 's \<Rightarrow> event list \<Rightarrow> 's option" where
  "run_protocol step s [] = Some s"
| "run_protocol step s (e # es) = (case step s e of None \<Rightarrow> None | Some s' \<Rightarrow> run_protocol step s' es)"

lemma run_protocol_append:
  "run_protocol step s (es @ fs) = (case run_protocol step s es of None \<Rightarrow> None | Some s' \<Rightarrow> run_protocol step s' fs)"
  by (induction es arbitrary: s) (auto split: option.splits)

text \<open>A protocol that embeds another one allows what that one allows.\<close>

lemma run_protocol_embed:
  assumes "\<And>s e s'. step s e = Some s' \<Longrightarrow> step2 (h s) e = Some (h s')"
  shows "run_protocol step s es = Some s' \<Longrightarrow> run_protocol step2 (h s) es = Some (h s')"
  by (induction es arbitrary: s) (auto split: option.splits dest!: assms)

section \<open>Programs that follow a protocol\<close>

text \<open>
  \<open>follows step s m p Q\<close>: the calls that \<open>m\<close> makes from \<open>p\<close> are steps of the protocol from
  state \<open>s\<close>, and \<open>Q\<close> holds of the result, the state reached and the process.
\<close>

definition follows :: "'s protocol \<Rightarrow> 's \<Rightarrow> 'a prog \<Rightarrow> proc \<Rightarrow> ('a cres \<Rightarrow> 's \<Rightarrow> proc \<Rightarrow> bool) \<Rightarrow> bool" where
  "follows step s m p Q \<longleftrightarrow> sat m p (\<lambda>r es p'. \<exists>s'. run_protocol step s (acts es) = Some s' \<and> Q r s' p')"

lemma followsE:
  assumes "follows step s m p Q"
  obtains r es p' s' where "m p = (r, p')" "trc p' = trc p @ es" "run_protocol step s (acts es) = Some s'" "Q r s' p'"
  using assms unfolding follows_def by (elim satE exE conjE) (rule that)

lemma follows_mono:
  "follows step s m p Q \<Longrightarrow> (\<And>r s' p'. Q r s' p' \<Longrightarrow> R r s' p') \<Longrightarrow> follows step s m p R"
  unfolding follows_def by (erule sat_mono) blast

lemma follows_ret: "Q (Inr x) s p \<Longrightarrow> follows step s (retM x) p Q"
  unfolding follows_def by (rule sat_ret) simp

lemma follows_fail: "Q (Inl e) s p \<Longrightarrow> follows step s (failM e) p Q"
  unfolding follows_def by (rule sat_fail) simp

lemma follows_bind:
  assumes "follows step s m p (\<lambda>r s' p'. case r of Inl e \<Rightarrow> Q (Inl e) s' p' | Inr x \<Rightarrow> follows step s' (f x) p' Q)"
  shows "follows step s (bindM m f) p Q"
  unfolding follows_def
proof (rule sat_bind, rule sat_mono [OF assms [unfolded follows_def]], elim exE conjE)
  fix r :: "'b cres" and es :: "event list" and p' s'
  assume "run_protocol step s (acts es) = Some s'"
    and "case r of Inl e \<Rightarrow> Q (Inl e) s' p'
      | Inr x \<Rightarrow> sat (f x) p' (\<lambda>r es p'. \<exists>s''. run_protocol step s' (acts es) = Some s'' \<and> Q r s'' p')"
  then show "case r of Inl e \<Rightarrow> \<exists>s'. run_protocol step s (acts es) = Some s' \<and> Q (Inl e) s' p'
      | Inr x \<Rightarrow> sat (f x) p' (\<lambda>r fs p'. \<exists>s'. run_protocol step s (acts (es @ fs)) = Some s' \<and> Q r s' p')"
    by (auto simp: run_protocol_append split: sum.splits elim!: sat_mono)
qed

lemma follows_seq:
  assumes "follows step s m p (\<lambda>r s' p'. case r of Inl e \<Rightarrow> Q (Inl e) s' p' | Inr x \<Rightarrow> follows step s' n p' Q)"
  shows "follows step s (seqM m n) p Q"
  unfolding seqM_def using assms by (rule follows_bind)

lemma follows_ask:
  assumes "\<And>r. \<not> quiet (c, r)" "Q (Inl Blocked) s p"
    and "\<And>r p'. globals p' = globals p \<Longrightarrow> inp p = r # inp p' \<Longrightarrow> \<exists>s'. step s (c, r) = Some s' \<and> follows step s' (f r) p' Q"
  shows "follows step s (bindM (ask c) f) p Q"
  unfolding follows_def
proof (rule sat_ask_bind)
  show "\<exists>s'. run_protocol step s (acts []) = Some s' \<and> Q (Inl Blocked) s' p" using assms(2) by simp
next
  fix r :: ret and p'
  assume "globals p' = globals p" "inp p = r # inp p'"
  from assms(3) [OF this] obtain s' where s': "step s (c, r) = Some s'" "follows step s' (f r) p' Q" by blast
  from s'(2) show "sat (f r) p' (\<lambda>x fs p'. \<exists>s''. run_protocol step s (acts ((c, r) # fs)) = Some s'' \<and> Q x s'' p')"
    unfolding follows_def by (rule sat_mono) (use s'(1) assms(1) in simp)
qed

lemma follows_emit:
  assumes "\<not> quiet (c, no_ret)" "step s (c, no_ret) = Some s'"
    and "\<And>p'. globals p' = globals p \<Longrightarrow> inp p' = inp p \<Longrightarrow> Q (Inr ()) s' p'"
  shows "follows step s (emit c) p Q"
  unfolding follows_def
  by (rule satI [of _ _ "[(c, no_ret)]"]) (use assms in \<open>simp_all add: prog_run globals_def\<close>)

section \<open>The table of peers as the only state\<close>

text \<open>
  For programs whose calls depend on the table of peers only, the same without the
  process: \<open>obeys step s t m Q\<close> for every process with table \<open>t\<close>.
\<close>

definition obeys :: "'s protocol \<Rightarrow> 's \<Rightarrow> tcpInfo list \<Rightarrow> 'a prog \<Rightarrow> ('a cres \<Rightarrow> 's \<Rightarrow> tcpInfo list \<Rightarrow> bool) \<Rightarrow> bool" where
  "obeys step s t m Q \<longleftrightarrow>
     (\<forall>p. distributeTcpInfo p = t \<longrightarrow> follows step s m p (\<lambda>r s' p'. Q r s' (distributeTcpInfo p')))"

named_theorems obeys_intros \<open>composition of programs that obey a protocol\<close>

lemma obeysD: "obeys step s t m Q \<Longrightarrow> distributeTcpInfo p = t \<Longrightarrow> follows step s m p (\<lambda>r s' p'. Q r s' (distributeTcpInfo p'))"
  by (simp add: obeys_def)

lemma obeys_mono: "obeys step s t m Q \<Longrightarrow> (\<And>r s' t'. Q r s' t' \<Longrightarrow> R r s' t') \<Longrightarrow> obeys step s t m R"
  unfolding obeys_def by (blast intro: follows_mono)

lemma globals_table: "globals p' = globals p \<Longrightarrow> distributeTcpInfo p' = distributeTcpInfo p"
  by (simp add: globals_def)

lemma obeys_ret [obeys_intros]: "Q (Inr x) s t \<Longrightarrow> obeys step s t (retM x) Q"
  unfolding obeys_def by (auto intro: follows_ret)

lemma obeys_fail [obeys_intros]: "Q (Inl e) s t \<Longrightarrow> obeys step s t (failM e) Q"
  unfolding obeys_def by (auto intro: follows_fail)

lemma obeys_bind:
  assumes "obeys step s t m (\<lambda>r s' t'. case r of Inl e \<Rightarrow> Q (Inl e) s' t' | Inr x \<Rightarrow> obeys step s' t' (f x) Q)"
  shows "obeys step s t (bindM m f) Q"
  unfolding obeys_def
proof (intro allI impI follows_bind)
  fix p :: proc
  assume "distributeTcpInfo p = t"
  from obeysD [OF assms this]
  show "follows step s m p (\<lambda>r s' p'. case r of Inl e \<Rightarrow> Q (Inl e) s' (distributeTcpInfo p')
      | Inr x \<Rightarrow> follows step s' (f x) p' (\<lambda>r s' p'. Q r s' (distributeTcpInfo p')))"
    by (rule follows_mono) (auto split: sum.splits intro: obeysD)
qed

lemma obeys_bindI:
  assumes "obeys step s t m P" "\<And>e s' t'. P (Inl e) s' t' \<Longrightarrow> Q (Inl e) s' t'"
    and "\<And>x s' t'. P (Inr x) s' t' \<Longrightarrow> obeys step s' t' (f x) Q"
  shows "obeys step s t (bindM m f) Q"
  by (rule obeys_bind, rule obeys_mono [OF assms(1)]) (auto split: sum.splits intro: assms(2,3))

lemma obeys_ask [obeys_intros]:
  assumes "\<And>r. \<not> quiet (c, r)" "Q (Inl Blocked) s t" "\<And>r. \<exists>s'. step s (c, r) = Some s' \<and> obeys step s' t (f r) Q"
  shows "obeys step s t (bindM (ask c) f) Q"
proof -
  have "follows step s (bindM (ask c) f) p (\<lambda>r s' p'. Q r s' (distributeTcpInfo p'))" if p: "distributeTcpInfo p = t" for p
  proof (rule follows_ask)
    fix r p'
    assume "globals p' = globals p"
    then have t: "distributeTcpInfo p' = t" by (simp add: globals_table p)
    obtain s' where "step s (c, r) = Some s'" "obeys step s' t (f r) Q" using assms(3) [of r] by (elim exE conjE)
    then show "\<exists>s'. step s (c, r) = Some s' \<and> follows step s' (f r) p' (\<lambda>r s' p'. Q r s' (distributeTcpInfo p'))"
      using obeysD [OF _ t] by (intro exI [of _ s'] conjI)
  qed (simp_all only: p assms(1,2) simp_thms)
  then show ?thesis by (simp add: obeys_def)
qed

lemma obeys_emit [obeys_intros]:
  "\<not> quiet (c, no_ret) \<Longrightarrow> \<exists>s'. step s (c, no_ret) = Some s' \<and> Q (Inr ()) s' t \<Longrightarrow> obeys step s t (emit c) Q"
  unfolding obeys_def follows_def sat_def by (auto simp: prog_run)

lemma obeys_emit_seq [obeys_intros]:
  "\<not> quiet (c, no_ret) \<Longrightarrow> \<exists>s'. step s (c, no_ret) = Some s' \<and> obeys step s' t n Q \<Longrightarrow> obeys step s t (seqM (emit c) n) Q"
  unfolding seqM_def by (rule obeys_bind) (auto intro: obeys_emit)

lemma obeys_quiet:
  assumes "quiet (c, no_ret)" "Q (Inr ()) s t"
  shows "obeys step s t (emit c) Q"
  unfolding obeys_def follows_def sat_def using assms by (auto simp: prog_run)

lemma obeys_log [obeys_intros]: "Q (Inr ()) s t \<Longrightarrow> obeys step s t (LogWrite l g as) Q"
  unfolding LogWrite_def by (rule obeys_quiet) (simp add: quiet_def)

lemma obeys_log_seq [obeys_intros]: "obeys step s t n Q \<Longrightarrow> obeys step s t (seqM (LogWrite l g as) n) Q"
  unfolding seqM_def by (rule obeys_bind) (auto intro: obeys_log)

lemma obeys_print_seq [obeys_intros]: "obeys step s t n Q \<Longrightarrow> obeys step s t (seqM (emit (Printf x)) n) Q"
  unfolding seqM_def by (rule obeys_bind) (auto intro!: obeys_quiet simp: quiet_def)

lemma obeys_tcp [obeys_intros]:
  "i < length t \<Longrightarrow> obeys step s t (f (t ! i)) Q \<Longrightarrow> obeys step s t (bindM (tcpM i) f) Q"
  unfolding obeys_def follows_def by (auto intro: tcpM_bind)

lemma obeys_set_tcp [obeys_intros]:
  "i < length t \<Longrightarrow> obeys step s (t[i := g (t ! i)]) n Q \<Longrightarrow> obeys step s t (seqM (set_tcpM i g) n) Q"
  unfolding obeys_def follows_def by (auto intro!: sat_set_tcp_seq)

lemma obeys_if [obeys_intros]:
  "(b \<Longrightarrow> obeys step s t m Q) \<Longrightarrow> (\<not> b \<Longrightarrow> obeys step s t n Q) \<Longrightarrow> obeys step s t (if b then m else n) Q"
  by simp

text \<open>Sequences in a normal form.\<close>

lemma seq_norm:
  "seqM (seqM l m) n = seqM l (seqM m n)" "seqM (bindM k f) n = bindM k (\<lambda>x. seqM (f x) n)" "seqM (retM ()) n = n"
  "seqM (if b then l else m) n = (if b then seqM l n else seqM m n)" "seqM (failM e) n = failM e"
  by (simp_all add: seqM_def bindM_assoc)

lemma obeys_embed:
  assumes "obeys step s t m Q" "\<And>s e s'. step s e = Some s' \<Longrightarrow> step2 (h s) e = Some (h s')"
    and "\<And>r s' t'. Q r s' t' \<Longrightarrow> R r (h s') t'"
  shows "obeys step2 (h s) t m R"
  unfolding obeys_def follows_def
  by (intro allI impI, rule sat_mono [OF obeysD [OF assms(1), unfolded follows_def]])
    (blast intro: run_protocol_embed [of step step2 h, OF assms(2)] assms(3))+

section \<open>Parts that make only certain calls\<close>

text \<open>A program all of whose calls the protocol allows without leaving its state.\<close>

lemma follows_only:
  assumes "only P m" "\<And>c r. P c \<Longrightarrow> \<not> quiet (c, r) \<Longrightarrow> step s (c, r) = Some s"
  shows "follows step s m p (\<lambda>r s' p'. s' = s \<and> kept p p' \<and> m p = (r, p'))"
proof -
  have "run_protocol step s (acts es) = Some s" if "\<forall>e \<in> set es. P (fst e)" for es
    using that by (induction es) (auto simp: assms(2))
  moreover obtain r es p' where "m p = (r, p')" "trc p' = trc p @ es" "\<forall>e \<in> set es. P (fst e)" "kept p p'"
    using only_sat [OF assms(1), of p] by (rule satE) blast
  ultimately show ?thesis unfolding follows_def by (intro satI [of _ _ es]) simp_all
qed

end
