(* ===== verification/Forward.thy ===== *)
theory Forward
  imports Distribute Protocol
begin

text \<open>
  What the server does with a message, as a protocol: the conversation with one
  client, the round over all clients, and recording before forwarding.  The programs
  of theory \<open>Distribute\<close> are shown to follow these protocols whatever the environment
  answers.
\<close>

section \<open>The conversation with a client\<close>

datatype phase = Start | Opened int | Ready int | Connected int | Unlocked int | Closing int | Finished | Stuck

text \<open>
  A socket, an option, a connection to the client's address, a look at its lock file,
  the message when there is no lock file, and the end of the connection; a failure
  ends the conversation, with the socket closed.
\<close>

fun conversation :: "string \<times> in_addr \<times> 16 word \<Rightarrow> 8 word list \<Rightarrow> phase protocol" where
  "conversation (lock, ip, q) m ph (c, r) =
     (case ph of
        Start \<Rightarrow> if c = Socket then Some (if rv r = EXIT_FAIL_CODE then Finished else Opened (rv r)) else None
      | Opened s \<Rightarrow> if c = Setsockopt s then Some (if rv r = EXIT_FAIL_CODE then Closing s else Ready s) else None
      | Ready s \<Rightarrow> if c = Connect s ip q then Some (if rv r = EXIT_FAIL_CODE then Closing s else Connected s) else None
      | Connected s \<Rightarrow> if c = Access lock then Some (if rv r = 0 then Closing s else Unlocked s) else None
      | Unlocked s \<Rightarrow> if c = Send s m then Some (Closing s) else None
      | Closing s \<Rightarrow> if c = Close s then Some Finished else None
      | Finished \<Rightarrow> None
      | Stuck \<Rightarrow> None)"

text \<open>The replay request that comes from the client's own address.\<close>

definition own_replay :: "tcpInfo list \<Rightarrow> 8 word list \<Rightarrow> nat \<Rightarrow> bool" where
  "own_replay t m i \<longleftrightarrow> PacketHead (replay_of (buf_prefix 14 m)) = PLAYBACKHEADER \<and>
     textOf (address (t ! i)) = textOf (acceptedAddress (t ! 0))"

lemma peers_okD:
  assumes "peers_ok t" "i < length t"
  shows "cstr (address (t ! i)) = Inr (textOf (address (t ! i)))" "inet_addr (address (t ! i)) = Inr (fst (snd (target t i)))"
    "cstr (acceptedAddress (t ! i)) = Inr (textOf (acceptedAddress (t ! i)))" "0 < length t"
    "htons (word_of_int (port (t ! i))) = snd (snd (target t i))"
  using assms by (auto simp: peers_ok_def peer_ok_def cstr_textOf target_def dest!: nth_mem)

lemma own_replay_test:
  assumes "peers_ok t" "i < length t"
  obtains d where "strcmp (address (t ! i)) (acceptedAddress (t ! 0)) = Inr d"
    "PacketHead (replay_of (buf_prefix 14 m)) = PLAYBACKHEADER \<Longrightarrow> d = 0 \<longleftrightarrow> own_replay t m i"
proof -
  note c = peers_okD(1) [OF assms] peers_okD(3) [OF assms(1) peers_okD(4) [OF assms]]
  show ?thesis
    using lexcmp_0_iff [OF cstr_no_nul [OF c(1)] cstr_no_nul [OF c(2)]]
    by (intro that [OF strcmp_cstr [OF c]]) (simp add: own_replay_def)
qed

lemma not_quiet [simp]:
  "\<not> quiet (Socket, r)" "\<not> quiet (Setsockopt s, r)" "\<not> quiet (Connect s a q, r)" "\<not> quiet (Access n, r)"
  "\<not> quiet (Send s m, r)" "\<not> quiet (Close s, r)" "\<not> quiet (PthreadCreate i, r)" "\<not> quiet (Fwrite f m, r)"
  "\<not> quiet (Fclose f, r)" "\<not> quiet (Bind s a q, r)" "\<not> quiet (Listen s k, r)" "\<not> quiet (Accept s, r)" "\<not> quiet (Recv s k, r)"
  "\<not> quiet (Fork, r)" "quiet (Log l g as, r)" "quiet (Printf x, r)" "quiet (Usleep k, r)"
  by (simp_all add: quiet_def)

text \<open>The outcome of a conversation: it is over, or the thread waits for an answer.\<close>

definition talked :: "tcpInfo list \<Rightarrow> unit cres \<Rightarrow> phase \<Rightarrow> tcpInfo list \<Rightarrow> bool" where
  "talked t r ph t' \<longleftrightarrow> agree t t' \<and>
     (r = Inr () \<and> ph = Finished \<or> r = Inl Blocked \<and> ph \<noteq> Finished \<and> ph \<noteq> Stuck)"

definition opened :: "tcpInfo list \<Rightarrow> int cres \<Rightarrow> phase \<Rightarrow> tcpInfo list \<Rightarrow> bool" where
  "opened t r ph t' \<longleftrightarrow> agree t t' \<and>
     (case r of Inr s \<Rightarrow> ph = (if s = EXIT_FAIL_CODE then Finished else Connected s)
      | Inl e \<Rightarrow> e = Blocked \<and> ph \<noteq> Finished \<and> ph \<noteq> Stuck)"

lemma socket_obeys:
  assumes "peers_ok t" "i < length t" "0 < i"
  shows "obeys (conversation (target t i) m) Start t (distribute_client_socket i) (opened t)"
proof -
  obtain lock ip q where tg: "target t i = (lock, ip, q)" by (metis prod_cases3)
  note ok = peers_okD [OF assms(1,2), unfolded tg fst_conv snd_conv]
  show ?thesis unfolding distribute_client_socket_def tg
    by (auto intro!: obeys_intros simp: ok text_of_def assms(2,3) agree_update opened_def)
qed

lemma client_obeys:
  assumes "peers_ok t" "i < length t" "0 < i" "\<not> own_replay t m i"
  shows "obeys (conversation (target t i) m) Start t (distribute_client_send m i) (talked t)"
  unfolding distribute_client_send_def
proof (intro obeys_log_seq obeys_bindI [OF socket_obeys [OF assms(1-3)]], goal_cases)
  case (1 e ph t')
  then show ?case by (auto simp: opened_def talked_def)
next
  case (2 fd ph t')
  obtain lock ip q where tg: "target t i = (lock, ip, q)" by (metis prod_cases3)
  from 2 have a: "agree t t'" and ph: "ph = (if fd = EXIT_FAIL_CODE then Finished else Connected fd)"
    by (simp_all add: opened_def)
  have l: "i < length t'" "t' \<noteq> []" "0 < length t" using assms(2) agree_length [OF a] by auto
  note n = agree_nth(1,3) [OF a assms(2)] agree_nth(2) [OF a l(3)]
  have shm: "shm_name t' i = Inr lock"
    using peers_ok_shm [OF assms(1,2)] by (simp add: tg shm_name_def n l assms(2))
  obtain d where d: "strcmp (address (t ! i)) (acceptedAddress (t ! 0)) = Inr d"
      "PacketHead (replay_of (buf_prefix 14 m)) = PLAYBACKHEADER \<Longrightarrow> d \<noteq> 0"
    using own_replay_test [OF assms(1,2), of m] assms(4) by auto
  have lock: "obeys st s t' (bindM (shm_file i) f) Q" if "obeys st s t' (f lock) Q"
    for st :: "phase protocol" and s f and Q :: "unit cres \<Rightarrow> _"
    using that shm by (auto simp: obeys_def follows_def intro: sat_shm)
  show ?case unfolding tg ph
    by (auto intro!: obeys_intros lock simp: l n d text_of_def peers_okD(1) [OF assms(1,2)] seq_norm talked_def a)
qed

section \<open>The round over the clients\<close>

text \<open>
  The clients get their conversation one after the other, in the order of the table;
  a thread that is not created stops the round.
\<close>

fun client_round :: "tcpInfo list \<Rightarrow> 8 word list \<Rightarrow> (nat \<times> phase \<times> nat list) protocol" where
  "client_round t m (i, Finished, []) e = None"
| "client_round t m (i, Finished, j # js) (c, r) =
     (if c = PthreadCreate j then Some (j, if rv r = 0 then Start else Stuck, js) else None)"
| "client_round t m (i, Stuck, js) (c, r) = (if c = Close (acceptfd (t ! 0)) then Some (i, Stuck, js) else None)"
| "client_round t m (i, ph, js) e = map_option (\<lambda>ph. (i, ph, js)) (conversation (target t i) m ph e)"

lemma round_conversation:
  assumes "conversation (target t i) m ph e = Some ph'"
  shows "client_round t m (i, ph, js) e = Some (i, ph', js)"
  using assms by (cases "target t i"; cases e; cases ph) (auto split: if_splits)

text \<open>The outcome of a round.\<close>

definition went_round :: "tcpInfo list \<Rightarrow> unit cres \<Rightarrow> nat \<times> phase \<times> nat list \<Rightarrow> tcpInfo list \<Rightarrow> bool" where
  "went_round t r s t' \<longleftrightarrow> agree t t' \<and>
     (case s of (i, ph, js) \<Rightarrow>
        r = (if ph = Finished \<and> js = [] then Inr () else if ph = Stuck then Inl (if js = [] then Uninit else Deadlock) else Inl Blocked))"

lemma went_round_simps:
  "went_round t r (i, ph, js) t' \<longleftrightarrow> agree t t' \<and>
     r = (if ph = Finished \<and> js = [] then Inr () else if ph = Stuck then Inl (if js = [] then Uninit else Deadlock) else Inl Blocked)"
  by (simp add: went_round_def)

lemma agree_peers_ok: "agree t t' \<Longrightarrow> peers_ok t \<Longrightarrow> peers_ok t'"
proof -
  assume a: "agree t t'" and p: "peers_ok t"
  have "peer_ok (t' ! i)" if "i < length t'" for i
  proof -
    have "i < length t" using that agree_length [OF a] by simp
    then show ?thesis using agree_nth [OF a, of i] p by (simp add: peers_ok_def peer_ok_def)
  qed
  then show "peers_ok t'" using p agree_nth(4) [OF a, of 0] agree_length [OF a] by (auto simp: peers_ok_def all_set_conv_all_nth)
qed

lemma agree_own_replay: "agree t t' \<Longrightarrow> i < length t \<Longrightarrow> own_replay t' m i = own_replay t m i"
  using agree_nth(1) [of t t' i] agree_nth(2) [of t t' 0] by (cases "length t = 0") (auto simp: own_replay_def)

lemma clients_obey:
  assumes "peers_ok t" "\<forall>j \<in> set js. 0 < j \<and> j < length t \<and> \<not> own_replay t m j" "agree t t'"
  shows "obeys (client_round t m) (i, Finished, js) t' (run_clients m js) (went_round t)"
  using assms(2,3)
proof (induction js arbitrary: i t')
  case Nil
  then show ?case by (auto intro!: obeys_intros simp: went_round_simps)
next
  case (Cons j js)
  note a = Cons.prems(2)
  have ok: "peers_ok t'" by (rule agree_peers_ok [OF a assms(1)])
  then have l: "t' \<noteq> []" "t' ! 0 = t ! 0" using a by (simp_all add: agree_def peers_ok_def)
  have j: "j < length t" "0 < j" "\<not> own_replay t m j" using Cons.prems(1) by simp_all
  have "obeys (conversation (target t' j) m) Start t' (distribute_client_send m j) (talked t')"
    by (rule client_obeys [OF ok]) (simp_all add: agree_length [OF a] agree_own_replay [OF a] j)
  then have "obeys (conversation (target t j) m) Start t' (distribute_client_send m j) (talked t')"
    by (simp only: agree_target [OF a j(1)])
  then have "obeys (client_round t m) (j, Start, js) t' (distribute_client_send m j)
      (\<lambda>r s t''. \<exists>ph. s = (j, ph, js) \<and> talked t' r ph t'')"
    by (rule obeys_embed) (auto intro: round_conversation)
  then have "obeys (client_round t m) (j, Start, js) t' (bindM (distribute_client_send m j) (\<lambda>_. run_clients m js)) (went_round t)"
  proof (rule obeys_bindI, goal_cases)
    case (1 e s t'')
    then show ?case using agree_trans [OF a] by (auto simp: talked_def went_round_simps)
  next
    case (2 x s t'')
    then have "agree t t''" "s = (j, Finished, js)" using agree_trans [OF a] by (auto simp: talked_def)
    with Cons.IH Cons.prems(1) show ?case by simp
  qed
  then show ?case by (auto intro!: obeys_intros simp: seqM_def [of "distribute_client_send m j"] seq_norm l went_round_simps a)
qed

section \<open>A message that is recorded and forwarded\<close>

text \<open>
  First the calls that open the record's file, none of them on the network, then the
  message into it, and only then the round over the clients.
\<close>

datatype stage = Recording | Recorded int | Forwarding "nat \<times> phase \<times> nat list"

definition client_indices :: "tcpInfo list \<Rightarrow> nat list" where
  "client_indices t = [1..<Suc (nat (clientNum (t ! 0)))]"

fun distribution :: "tcpInfo list \<Rightarrow> 8 word list \<Rightarrow> stage protocol" where
  "distribution t m Recording (c, r) =
     (case c of Fwrite f b \<Rightarrow> if b = m then Some (Recorded f) else None
      | _ \<Rightarrow> if local_call c then Some Recording else None)"
| "distribution t m (Recorded f) (c, r) =
     (if c = Fclose f then Some (Forwarding (0, Finished, client_indices t)) else None)"
| "distribution t m (Forwarding s) e = map_option Forwarding (client_round t m s e)"

lemma length_client_indices [simp]: "length (client_indices t) = nat (clientNum (t ! 0))"
  by (simp add: client_indices_def)

lemma client_indices_ok: "peers_ok t \<Longrightarrow> j \<in> set (client_indices t) \<Longrightarrow> 0 < j \<and> j < length t"
  by (auto simp: client_indices_def peers_ok_def)

lemma distribution_local: "local_call c \<Longrightarrow> distribution t m Recording (c, r) = Some Recording"
  by (auto simp: local_call_def split: call.splits)

text \<open>The process that handles a message: a line in the log, and the flag set.\<close>

definition flagged :: "int \<Rightarrow> proc \<Rightarrow> proc" where
  "flagged v p = p\<lparr>trc := trc p @ [(Log INFO ''%d %s'' [D 170, S ''distribute received message''], no_ret)],
     distributeTcpInfo := (distributeTcpInfo p)[0 := (distributeTcpInfo p ! 0)\<lparr>flag := v\<rparr>]\<rparr>"

lemma set_flag: "distributeTcpInfo p \<noteq> [] \<Longrightarrow> set_tcpM 0 (flag_update (\<lambda>_. v)) p =
    (Inr (), p\<lparr>distributeTcpInfo := (distributeTcpInfo p)[0 := (distributeTcpInfo p ! 0)\<lparr>flag := v\<rparr>]\<rparr>)"
  by (simp add: set_tcpM_def tcpM_def bindM_def prog_run)

lemma handle_recorded:
  "kind_of m = Record_Forward \<Longrightarrow> distributeTcpInfo p \<noteq> [] \<Longrightarrow> handle_message m p = distribute_run m (flagged DISTRIBUTE p)"
  by (simp add: handle_message_def LogWrite_def seqM_def bindM_def prog_run set_flag flagged_def)

lemma flagged_ok:
  assumes "peers_ok t"
  shows "peers_ok (t[0 := (t ! 0)\<lparr>flag := v\<rparr>])"
  using assms peers_ok_update [OF assms, of 0 "flag_update (\<lambda>_. v)"] by (auto simp: peers_ok_def peer_ok_def)

text \<open>The outcome of a message, by the stage that was reached.\<close>

definition message_outcome :: "int cres \<Rightarrow> unit cres \<Rightarrow> stage \<Rightarrow> bool" where
  "message_outcome file r s \<longleftrightarrow>
     (case s of Recording \<Rightarrow> (case file of Inl e \<Rightarrow> r = Inl e | Inr f \<Rightarrow> f = 0 \<and> r = Inr ())
      | Recorded f \<Rightarrow> False
      | Forwarding (i, ph, js) \<Rightarrow> (\<exists>f. file = Inr f \<and> f \<noteq> 0) \<and>
          r = (if ph = Finished \<and> js = [] then Inr () else if ph = Stuck then Inl (if js = [] then Uninit else Deadlock)
               else Inl Blocked))"

text \<open>Recording and then the round, as one sequence.\<close>

definition all_clients :: "tcpInfo list \<Rightarrow> 8 word list \<Rightarrow> unit prog" where
  "all_clients t m =
     seqM (LogWrite DEBUG ''%d %s'' [D 230, S ''distribute-client thread mutex init''])
     (seqM (run_clients m (client_indices t)) (LogWrite DEBUG ''%d %s'' [D 246, S ''distribute-client thread mutex destroy'']))"

lemma distribute_run_recorded:
  assumes "distributeTcpInfo p = t" "t \<noteq> []" "flag (t ! 0) = DISTRIBUTE" "length m \<le> MAX_BUFFER_SIZE"
  shows "distribute_run m p = bindM initDataRecord (\<lambda>file.
    if file = 0 then LogWrite ERROR ''%d %s:'' [D 216, S ''distribute initDataRecord failed'']
    else seqM (emit (Fwrite file m)) (seqM (emit (Fclose file)) (all_clients t m))) p"
  using assms
  by (auto simp: distribute_run_def all_clients_def client_indices_def tcpM_def bindM_assoc seqM_def bindM_def prog_run LogWrite_def
      split: sum.splits prod.splits)

lemma distribute_run_follows:
  assumes "distributeTcpInfo p = t" "peers_ok t" "flag (t ! 0) = DISTRIBUTE" "kind_of m = Record_Forward"
    and "length m \<le> MAX_BUFFER_SIZE"
  shows "follows (distribution t m) Recording (distribute_run m) p (\<lambda>r s p'. message_outcome (fst (initDataRecord p)) r s)"
proof -
  let ?st = "distribution t m"
  let ?n = "\<lambda>file. if file = 0 then LogWrite ERROR ''%d %s:'' [D 216, S ''distribute initDataRecord failed'']
    else seqM (emit (Fwrite file m)) (seqM (emit (Fclose file)) (all_clients t m))"
  have eq: "distribute_run m p = bindM initDataRecord ?n p"
    using assms(2) by (intro distribute_run_recorded assms(1,3,5)) (auto simp: peers_ok_def)
  have rec: "follows ?st Recording initDataRecord p (\<lambda>r s p'. s = Recording \<and> kept p p' \<and> initDataRecord p = (r, p'))"
    by (rule follows_only [OF initDataRecord_only]) (rule distribution_local)
  have "follows ?st Recording (bindM initDataRecord ?n) p (\<lambda>r s p'. message_outcome (fst (initDataRecord p)) r s)"
  proof (rule follows_bind, rule follows_mono [OF rec], elim conjE)
    fix r :: "int cres" and s p'
    assume s: "s = Recording" "kept p p'" "initDataRecord p = (r, p')"
    then have t: "distributeTcpInfo p' = t" using assms(1) by (simp add: kept_def)
    have "obeys (client_round t m) (0, Finished, client_indices t) t (run_clients m (client_indices t)) (went_round t)"
      using clients_obey [OF assms(2), of "client_indices t" m t 0] client_indices_ok [OF assms(2)] recorded_not_replay [OF assms(4)]
      by (auto simp: own_replay_def)
    then have fwd: "obeys ?st (Forwarding (0, Finished, client_indices t)) t (run_clients m (client_indices t))
        (\<lambda>r s t'. \<exists>u. s = Forwarding u \<and> went_round t r u t')"
      by (rule obeys_embed) auto
    have all: "obeys ?st (Forwarding (0, Finished, client_indices t)) t (all_clients t m) (\<lambda>r s t'. \<exists>u. s = Forwarding u \<and> went_round t r u t')"
      unfolding all_clients_def seqM_def [of "run_clients m (client_indices t)"]
      by (rule obeys_log_seq, rule obeys_bindI [OF fwd]) (simp_all add: obeys_log)
    have "obeys ?st (Forwarding (0, Finished, client_indices t)) t (all_clients t m) (\<lambda>r s t'. message_outcome (Inr f) r s)" if "f \<noteq> 0" for f
      by (rule obeys_mono [OF all]) (use that in \<open>auto simp: message_outcome_def went_round_def\<close>)
    then have "obeys ?st Recording t (?n f) (\<lambda>r s t'. message_outcome (Inr f) r s)" for f
      by (cases "f = 0") (auto intro!: obeys_log obeys_emit_seq simp: message_outcome_def [of _ _ Recording])
    from obeysD [OF this t] show "case r of Inl e \<Rightarrow> message_outcome (fst (initDataRecord p)) (Inl e) s
        | Inr f \<Rightarrow> follows ?st s (?n f) p' (\<lambda>r s p'. message_outcome (fst (initDataRecord p)) r s)"
      using s by (cases r) (simp_all add: message_outcome_def [of _ _ Recording])
  qed
  then show ?thesis by (simp only: follows_def sat_def eq)
qed

text \<open>
  C1. A message to record and forward: whatever the environment answers, nothing goes to
  the network before the message is in the record's file; then each client in turn
  gets its conversation, with the message sent exactly when its lock file is not
  found, and with every socket closed again.  When the record cannot be opened nothing
  is forwarded; when a thread is not created the round stops there, waiting for the
  mutex or joining a thread that does not exist; otherwise the handling ends when
  every client had its turn.
\<close>

theorem message_protocol:
  assumes "peers_ok (distributeTcpInfo p)" "kind_of m = Record_Forward" "length m \<le> MAX_BUFFER_SIZE"
  shows "\<exists>r es p' s. handle_message m p = (r, p') \<and> trc p' = trc p @ es \<and>
    run_protocol (distribution (distributeTcpInfo (flagged DISTRIBUTE p)) m) Recording (acts es) = Some s \<and>
    message_outcome (fst (initDataRecord (flagged DISTRIBUTE p))) r s"
proof -
  let ?p = "flagged DISTRIBUTE p"
  have l: "distributeTcpInfo p \<noteq> []" using assms(1) by (auto simp: peers_ok_def)
  then have "peers_ok (distributeTcpInfo ?p)" "flag (distributeTcpInfo ?p ! 0) = DISTRIBUTE"
    using flagged_ok [OF assms(1)] by (simp_all add: flagged_def)
  from distribute_run_follows [OF refl this assms(2,3)] obtain r es p' s where
    r: "distribute_run m ?p = (r, p')" "trc p' = trc ?p @ es"
      "run_protocol (distribution (distributeTcpInfo ?p) m) Recording (acts es) = Some s"
      "message_outcome (fst (initDataRecord ?p)) r s" by (rule followsE)
  let ?e = "(Log INFO ''%d %s'' [D 170, S ''distribute received message''], no_ret)"
  have "trc p' = trc p @ ?e # es" "acts (?e # es) = acts es" using r(2) by (simp_all add: flagged_def)
  with r show ?thesis by (intro exI [of _ r] exI [of _ "?e # es"] exI [of _ p'] exI [of _ s]) (simp add: handle_recorded [OF assms(2) l])
qed

lemma demo_addresses:
  "inet_addr (pad 128 ''192.168.30.3'') = Inr [192, 168, 30, 3]" "inet_addr (pad 128 ''10.0.0.7'') = Inr [10, 0, 0, 7]"
proof -
  have d: "dotted [192, 168, 30, 3] = ''192.168.30.3''" "dotted [10, 0, 0, 7] = ''10.0.0.7''"
    by (simp_all add: dotted_def sprintf_d_eq itoa_word_step itoa_lower_digits_def)
  have p: "pad 128 ''192.168.30.3'' = dotted [192, 168, 30, 3] @ NUL # replicate 115 NUL"
    "pad 128 ''10.0.0.7'' = dotted [10, 0, 0, 7] @ NUL # replicate 119 NUL"
    by (simp_all add: d pad_def flip: replicate_Suc)
  show "inet_addr (pad 128 ''192.168.30.3'') = Inr [192, 168, 30, 3]" "inet_addr (pad 128 ''10.0.0.7'') = Inr [10, 0, 0, 7]"
    by (simp_all only: p inet_addr_dotted list.size)
qed

lemma demo_ok: "peers_ok demo_table"
  using demo_addresses by (simp add: peers_ok_def peer_ok_def demo_table_def pad_def textOf_def)

lemma demo_kind: "kind_of [0xEB] = Record_Forward"
  by (simp add: kind_of_def header_tests)

theorem message_protocol_witness:
  "\<exists>r es p' s. handle_message [0xEB] (boot good_record demo_table) = (r, p') \<and> trc p' = [] @ es \<and>
    run_protocol (distribution (distributeTcpInfo (flagged 1 (boot good_record demo_table))) [0xEB]) Recording (acts es) = Some s \<and>
    message_outcome (fst (initDataRecord (flagged 1 (boot good_record demo_table)))) r s"
  using message_protocol [of "boot good_record demo_table" "[0xEB]"] demo_ok demo_kind by simp

section \<open>Delivery\<close>

text \<open>The answers of a client that can be reached and has no lock file, and what is done then.\<close>

definition reachable :: "ret list \<Rightarrow> bool" where
  "reachable rs \<longleftrightarrow> length rs = 6 \<and> rv (rs ! 0) = 0 \<and> rv (rs ! 1) \<noteq> EXIT_FAIL_CODE \<and> rv (rs ! 2) \<noteq> EXIT_FAIL_CODE \<and>
     rv (rs ! 3) \<noteq> EXIT_FAIL_CODE \<and> rv (rs ! 4) \<noteq> 0"

definition delivery :: "tcpInfo list \<Rightarrow> 8 word list \<Rightarrow> nat \<Rightarrow> ret list \<Rightarrow> event list" where
  "delivery t m i rs =
     (let fd = rv (rs ! 1); (lock, ip, q) = target t i
      in [(PthreadCreate i, rs ! 0), (Socket, rs ! 1), (Setsockopt fd, rs ! 2), (Connect fd ip q, rs ! 3), (Access lock, rs ! 4),
          (Send fd m, rs ! 5), (Close fd, no_ret)])"

lemma shm_bind_run: "shm_name (distributeTcpInfo p) i = Inr lock \<Longrightarrow> bindM (shm_file i) f p = f lock p"
  by (simp add: bindM_def shm_file_eq)

lemma client_delivers:
  assumes "distributeTcpInfo p = t" "peers_ok t" "i < length t" "0 < i" "\<not> own_replay t m i"
    and "reachable rs" "inp p = tl rs @ rest"
  shows "\<exists>es p'. distribute_client_send m i p = (Inr (), p') \<and> inp p' = rest \<and> trc p' = trc p @ es \<and>
    (PthreadCreate i, rs ! 0) # acts es = delivery t m i rs \<and> agree t (distributeTcpInfo p')"
proof -
  obtain c s o' k a d where rs: "rs = [c, s, o', k, a, d]"
    using assms(6) by (auto simp: reachable_def numeral_eq_Suc length_Suc_conv)
  obtain lock ip q where tg: "target t i = (lock, ip, q)" by (metis prod_cases3)
  note ok = peers_okD [OF assms(2,3), unfolded tg fst_conv snd_conv]
  have ne: "t \<noteq> []" using assms(3) by auto
  have shm: "shm_name (t[i := (t ! i)\<lparr>acceptfd := rv s\<rparr>]) i = Inr lock"
    using peers_ok_shm [OF assms(2,3)] assms(3) by (simp add: tg shm_name_def)
  obtain x where x: "strcmp (address (t ! i)) (acceptedAddress (t ! 0)) = Inr x"
      "PacketHead (replay_of (buf_prefix 14 m)) = PLAYBACKHEADER \<Longrightarrow> x \<noteq> 0"
    using own_replay_test [OF assms(2,3), of m] assms(5) by auto
  show ?thesis
    using assms(1,3,4,6,7) agree_update [OF assms(4), of t "rv s"]
    by (cases "PacketHead (replay_of (buf_prefix 14 m)) = PLAYBACKHEADER"; cases "rv d = EXIT_FAIL_CODE"; cases "0 < rv d")
      (simp_all add: distribute_client_send_def distribute_client_socket_def ask_bind_run step_run shm_bind_run bindM_assoc seqM_assoc rs
        reachable_def ok text_of_def shm seq_norm delivery_def Let_def tg x ne)
qed

lemma clients_deliver:
  assumes "peers_ok t" "\<forall>j \<in> set js. 0 < j \<and> j < length t \<and> \<not> own_replay t m j"
    and "agree t (distributeTcpInfo p)" "length bs = length js" "\<forall>rs \<in> set bs. reachable rs" "inp p = concat bs @ rest"
  shows "\<exists>es p'. run_clients m js p = (Inr (), p') \<and> inp p' = rest \<and> trc p' = trc p @ es \<and>
    acts es = concat (map2 (delivery t m) js bs) \<and> agree t (distributeTcpInfo p')"
  using assms(2-)
proof (induction js arbitrary: bs p)
  case Nil
  then show ?case by (simp add: prog_run)
next
  case (Cons j js)
  let ?t = "distributeTcpInfo p"
  note a = Cons.prems(2)
  from Cons.prems(3) obtain rs cs where bs: "bs = rs # cs" by (cases bs) auto
  have rs: "reachable rs" using Cons.prems(4) bs by simp
  then have "rs \<noteq> []" by (auto simp: reachable_def)
  then have hd: "rs = rs ! 0 # tl rs" by (cases rs) simp_all
  have j: "0 < j" "j < length t" "\<not> own_replay t m j" using Cons.prems(1) by simp_all
  have i: "inp p = rs ! 0 # tl rs @ concat cs @ rest" using Cons.prems(5) bs hd
    by (metis append_assoc append_Cons concat.simps(2))
  then have c: "inp (called (PthreadCreate j) p) = tl rs @ concat cs @ rest" "hd (inp p) = rs ! 0" "inp p \<noteq> []" by simp_all
  have d: "distributeTcpInfo (called (PthreadCreate j) p) = ?t" by simp
  have o: "\<not> own_replay ?t m j" "j < length ?t" using agree_own_replay [OF a j(2)] agree_length [OF a] j by simp_all
  obtain es q where q: "distribute_client_send m j (called (PthreadCreate j) p) = (Inr (), q)" "inp q = concat cs @ rest"
      "trc q = trc p @ (PthreadCreate j, rs ! 0) # es" "(PthreadCreate j, rs ! 0) # acts es = delivery ?t m j rs" "agree ?t (distributeTcpInfo q)"
    using client_delivers [OF d agree_peers_ok [OF a assms(1)] o(2) j(1) o(1) rs c(1)] by (auto simp: c)
  have "\<forall>j \<in> set js. 0 < j \<and> j < length t \<and> \<not> own_replay t m j" "length cs = length js" "\<forall>rs \<in> set cs. reachable rs"
    using Cons.prems bs by simp_all
  from Cons.IH [OF this(1) agree_trans [OF a q(5)] this(2,3) q(2)] obtain fs p' where
    f: "run_clients m js q = (Inr (), p')" "inp p' = rest" "trc p' = trc q @ fs" "acts fs = concat (map2 (delivery t m) js cs)"
      "agree t (distributeTcpInfo p')" by blast
  have "run_clients m (j # js) p = (Inr (), p')"
    using rs f(1) q(1)
    by (simp add: ask_bind_run c reachable_def seqM_def [of "distribute_client_send m j"] bindM_def [of "distribute_client_send m j"])
  moreover have "acts ((PthreadCreate j, rs ! 0) # es @ fs) = concat (map2 (delivery t m) (j # js) bs)"
    using q(4) f(4) agree_target [OF a j(2)] by (simp add: bs delivery_def)
  ultimately show ?case using f q(3) by (intro exI [of _ "(PthreadCreate j, rs ! 0) # es @ fs"] exI [of _ p']) simp
qed

lemma target_flagged: "target (t[0 := (t ! 0)\<lparr>flag := v\<rparr>]) i = target t i"
  by (cases "0 < length t"; cases "i = 0") (simp_all add: target_def)

lemma delivery_flagged: "delivery (t[0 := (t ! 0)\<lparr>flag := v\<rparr>]) m = delivery t m"
  by (intro ext) (simp add: delivery_def target_flagged)

text \<open>
  C2. Delivery: when the record can be opened and every client is reachable and has no
  lock file, a message to record and forward is written to the record's file, which
  is closed, and then sent on a connection of its own to every client of the table,
  in order, each connection being closed again; and the handling returns.
\<close>

theorem delivered_to_all:
  assumes "peers_ok (distributeTcpInfo p)" "kind_of m = Record_Forward" "length m \<le> MAX_BUFFER_SIZE"
    and "record_env as (tzoff p) dir exists day now fd" "inp p = as @ concat bs @ rest"
    and "length bs = length (client_indices (distributeTcpInfo p))" "\<forall>rs \<in> set bs. reachable rs"
  shows "\<exists>es p' rec. handle_message m p = (Inr (), p') \<and> inp p' = rest \<and> trc p' = trc p @ es \<and>
    acts es = rec @ [(Fopen (record_path dir day (tzoff p) now (next_uuid exists (uuid p))) ''w+'', last as),
      (Fwrite fd m, no_ret), (Fclose fd, no_ret)] @ concat (map2 (delivery (distributeTcpInfo p) m) (client_indices (distributeTcpInfo p)) bs)"
proof -
  let ?p = "flagged DISTRIBUTE p" and ?t = "distributeTcpInfo (flagged DISTRIBUTE p)"
  let ?js = "client_indices (distributeTcpInfo p)" and ?f = "Fopen (record_path dir day (tzoff p) now (next_uuid exists (uuid p))) ''w+''"
  have l: "distributeTcpInfo p \<noteq> []" using assms(1) by (auto simp: peers_ok_def)
  have t: "?t \<noteq> []" "?t = (distributeTcpInfo p)[0 := (distributeTcpInfo p ! 0)\<lparr>flag := DISTRIBUTE\<rparr>]" "peers_ok ?t"
    "flag (?t ! 0) = DISTRIBUTE" "client_indices ?t = ?js"
    using l flagged_ok [OF assms(1)] by (simp_all add: flagged_def client_indices_def)
  have "tzoff ?p = tzoff p" "inp ?p = inp p" "uuid ?p = uuid p" by (simp_all add: flagged_def)
  with assms(4,5) initDataRecord_run [of as ?p dir exists day now fd "concat bs @ rest"] obtain es where
    r: "initDataRecord ?p = (Inr fd, ?p\<lparr>inp := concat bs @ rest, uuid := next_uuid exists (uuid p), trc := trc ?p @ es @ [(?f, last as)]\<rparr>)"
    by auto
  define q where "q = emitted (Log DEBUG ''%d %s'' [D 230, S ''distribute-client thread mutex init'']) (emitted (Fclose fd)
    (emitted (Fwrite fd m) (?p\<lparr>inp := concat bs @ rest, uuid := next_uuid exists (uuid p), trc := trc ?p @ es @ [(?f, last as)]\<rparr>)))"
  have q: "distributeTcpInfo q = ?t" "inp q = concat bs @ rest" by (simp_all add: q_def)
  have j: "\<forall>j \<in> set ?js. 0 < j \<and> j < length ?t \<and> \<not> own_replay ?t m j"
    using client_indices_ok [OF t(3)] recorded_not_replay [OF assms(2)] by (auto simp: own_replay_def t(5))
  obtain fs p' where f: "run_clients m ?js q = (Inr (), p')" "inp p' = rest" "trc p' = trc q @ fs"
      "acts fs = concat (map2 (delivery ?t m) ?js bs)"
    using clients_deliver [OF t(3) j, of q bs rest] assms(6,7) q by auto
  have fd: "fd \<noteq> 0" using assms(4) by (auto simp: record_env_def)
  let ?p' = "emitted (Log DEBUG ''%d %s'' [D 246, S ''distribute-client thread mutex destroy'']) p'"
  let ?e = "(Log INFO ''%d %s'' [D 170, S ''distribute received message''], no_ret) # es @
    [(?f, last as), (Fwrite fd m, no_ret), (Fclose fd, no_ret),
     (Log DEBUG ''%d %s'' [D 230, S ''distribute-client thread mutex init''], no_ret)] @ fs @
    [(Log DEBUG ''%d %s'' [D 246, S ''distribute-client thread mutex destroy''], no_ret)]"
  have "distribute_run m ?p = (Inr (), ?p')"
    unfolding distribute_run_recorded [OF refl t(1,4) assms(3)] all_clients_def bindM_def [of initDataRecord] r t(5) sum.case prod.case
    using fd f(1)
    by (simp add: step_run seqM_def [of "run_clients m x" for x] bindM_def [of "run_clients m x" for x] flip: q_def)
  then have 1: "handle_message m p = (Inr (), ?p')" by (simp add: handle_recorded [OF assms(2) l])
  have 2: "trc ?p' = trc p @ ?e" by (simp add: f(3) q_def) (simp add: flagged_def)
  have 3: "acts ?e = acts es @ [(?f, last as), (Fwrite fd m, no_ret), (Fclose fd, no_ret)] @ concat (map2 (delivery (distributeTcpInfo p) m) ?js bs)"
    by (simp add: f(4) t(2) delivery_flagged quiet_def)
  show ?thesis
    by (rule exI [of _ ?e], rule exI [of _ ?p'], rule exI [of _ "acts es"], intro conjI 1 2 3) (simp add: f(2))
qed

definition good_client :: "ret list" where
  "good_client = [no_ret, no_ret\<lparr>rv := 7\<rparr>, no_ret, no_ret, no_ret\<lparr>rv := -1\<rparr>, no_ret\<lparr>rv := 1\<rparr>]"

lemma good_client_reachable: "reachable good_client"
  by (simp add: reachable_def good_client_def EXIT_FAIL_CODE_def)

theorem delivered_to_all_witness:
  "\<exists>es p' rec. handle_message [0xEB] (boot (good_record @ concat [good_client] @ []) demo_table) = (Inr (), p') \<and> inp p' = [] \<and>
    trc p' = [] @ es \<and>
    acts es = rec @ [(Fopen (record_path ''./data'' 1667900000 0 1667900000 (next_uuid False 0)) ''w+'', last good_record),
      (Fwrite 6 [0xEB], no_ret), (Fclose 6, no_ret)] @ concat (map2 (delivery demo_table [0xEB]) (client_indices demo_table) [good_client])"
  using delivered_to_all [of "boot (good_record @ concat [good_client] @ []) demo_table" "[0xEB]" good_record "''./data''" False
    1667900000 1667900000 6 "[good_client]" "[]"] demo_ok demo_kind good_record_env good_client_reachable
  by (simp add: demo_table_def)

end
