(* ===== verification/Serve.thy ===== *)
theory Serve
  imports Forward
begin

text \<open>
  The server around the distribution of a message: replay requests and useless
  messages, the loops that receive and accept, the invariant of the table of peers,
  and the start of the server.
\<close>

section \<open>Replay requests and useless messages\<close>

definition replay_lines :: "event list" where
  "replay_lines = [(Log INFO ''%d %s'' [D 170, S ''distribute received message''], no_ret),
     (Log INFO ''%d %s'' [D 181, S ''distribute received playback signal, not record''], no_ret)]"

definition replay_flagged :: "proc \<Rightarrow> proc" where
  "replay_flagged p = p\<lparr>trc := trc p @ replay_lines,
     distributeTcpInfo := (distributeTcpInfo p)[0 := (distributeTcpInfo p ! 0)\<lparr>flag := PLAYBACK\<rparr>]\<rparr>"

lemma replay_lines_simps [simp]: "acts replay_lines = []" "\<forall>e \<in> set replay_lines. \<exists>l g as. fst e = Log l g as"
  by (simp_all add: replay_lines_def)

lemma handle_replay: "kind_of m = Replay \<Longrightarrow> distributeTcpInfo p \<noteq> [] \<Longrightarrow> handle_message m p = distribute_run m (replay_flagged p)"
  by (simp add: handle_message_def LogWrite_def seqM_def bindM_def prog_run set_flag replay_flagged_def replay_lines_def)

lemma distribute_run_replay:
  assumes "distributeTcpInfo p = t" "t \<noteq> []" "flag (t ! 0) \<noteq> DISTRIBUTE"
  shows "distribute_run m p = (if MAX_BUFFER_SIZE < length m then (Inl OutOfBounds, p) else all_clients t m p)"
  using assms by (simp add: distribute_run_def all_clients_def client_indices_def step_run prog_run)

text \<open>The calls that write to a file or make a directory.\<close>

definition writes :: "call \<Rightarrow> bool" where
  "writes c \<longleftrightarrow> (case c of Fwrite _ _ \<Rightarrow> True | Mkdir _ \<Rightarrow> True | _ \<Rightarrow> False)"

lemma writes_simps [simp]:
  "\<not> writes (Log l g as)" "\<not> writes (Printf x)" "\<not> writes Socket" "\<not> writes (Setsockopt s)" "\<not> writes (Connect s a q)"
  "\<not> writes (Access x)" "\<not> writes (Send s m)" "\<not> writes (Close s)" "\<not> writes (PthreadCreate i)" "\<not> writes (Creat x)" "\<not> writes (Remove x)"
  by (simp_all add: writes_def)

lemma play_not_writes: "play_call c \<Longrightarrow> \<not> writes c"
  by (cases c) (simp_all add: writes_def)

lemma remove_lock_calls: "(\<And>l g as. P (Log l g as)) \<Longrightarrow> P (Remove f) \<Longrightarrow> (\<And>e. calls P (k e)) \<Longrightarrow> calls P (remove_lock f n k)"
  by (auto simp: remove_lock_def intro!: calls_intros)

lemma playback_run_writes: "calls (\<lambda>c. \<not> writes c) (playback_run m i)"
proof -
  have "calls (\<lambda>c. \<not> writes c) (myscandirServe a b i c)" for a b c
    by (rule only_calls [OF only_mono [OF myscandirServe_only]]) (rule play_not_writes)
  moreover have "calls (\<lambda>c. \<not> writes c) (shm_file i)" by (rule only_calls [OF shm_file_only])
  ultimately show ?thesis by (auto simp: playback_run_def Let_def intro!: calls_intros remove_lock_calls)
qed

lemma client_send_writes: "calls (\<lambda>c. \<not> writes c) (distribute_client_send m i)"
  by (auto simp: distribute_client_send_def distribute_client_socket_def
      intro!: calls_intros playback_run_writes only_calls [OF shm_file_only])

lemma all_clients_writes: "calls (\<lambda>c. \<not> writes c) (all_clients t m)"
proof -
  have "calls (\<lambda>c. \<not> writes c) (run_clients m js)" for js
    by (induction js) (auto intro!: calls_intros client_send_writes)
  then show ?thesis by (auto simp: all_clients_def intro!: calls_intros)
qed

text \<open>
  C19. A replay request is not recorded: whatever the environment answers, handling it
  writes nothing to any file and makes no directory.
\<close>

theorem replay_not_recorded:
  assumes "kind_of m = Replay" "distributeTcpInfo p \<noteq> []"
  shows "\<exists>r es p'. handle_message m p = (r, p') \<and> trc p' = trc p @ es \<and> (\<forall>e \<in> set es. \<not> writes (fst e))"
proof -
  let ?p = "replay_flagged p"
  have "distributeTcpInfo ?p \<noteq> []" "flag (distributeTcpInfo ?p ! 0) \<noteq> DISTRIBUTE" "trc ?p = trc p @ replay_lines"
    using assms(2) by (simp_all add: replay_flagged_def)
  note d = distribute_run_replay [OF refl this(1,2), of m] and t = this(3)
  from calls_sat [OF all_clients_writes] obtain r es p' where
    r: "all_clients (distributeTcpInfo ?p) m ?p = (r, p')" "trc p' = trc ?p @ es" "\<forall>e \<in> set es. \<not> writes (fst e)"
    by (rule satE) blast
  have w: "\<forall>e \<in> set replay_lines. \<not> writes (fst e)" using replay_lines_simps(2) by fastforce
  show ?thesis
  proof (cases "MAX_BUFFER_SIZE < length m")
    case True
    with d t w show ?thesis by (simp add: handle_replay [OF assms])
  next
    case False
    with d t w r show ?thesis by (auto simp: handle_replay [OF assms] intro!: exI [of _ "replay_lines @ es"])
  qed
qed

theorem replay_not_recorded_witness:
  "\<exists>r es p'. handle_message [0x88, 0x88, 0x88, 0x88] (boot [] demo_table) = (r, p') \<and> trc p' = [] @ es \<and>
    (\<forall>e \<in> set es. \<not> writes (fst e))"
  using replay_not_recorded [of "[0x88, 0x88, 0x88, 0x88]" "boot [] demo_table"]
  by (simp add: kind_of_def header_tests demo_table_def)

text \<open>
  C36. A replay request is forwarded like a message: to every client whose address is not
  the one the request came from, in the usual conversation, so that all of them get
  it when they have no lock file.
\<close>

theorem replay_forwarded:
  assumes "kind_of m = Replay" "peers_ok (distributeTcpInfo p)" "length m \<le> MAX_BUFFER_SIZE" "t = distributeTcpInfo (replay_flagged p)"
    and "\<forall>i \<in> set (client_indices t). textOf (address (t ! i)) \<noteq> textOf (acceptedAddress (t ! 0))"
  shows "\<exists>r es p' s. handle_message m p = (r, p') \<and> trc p' = trc p @ es \<and>
    run_protocol (client_round t m) (0, Finished, client_indices t) (acts es) = Some s \<and> went_round t r s (distributeTcpInfo p')"
proof -
  have l: "distributeTcpInfo p \<noteq> []" using assms(2) by (auto simp: peers_ok_def)
  then have t: "t \<noteq> []" "flag (t ! 0) \<noteq> DISTRIBUTE" "peers_ok t" "trc (replay_flagged p) = trc p @ replay_lines"
    using flagged_ok [OF assms(2), of PLAYBACK] by (simp_all add: replay_flagged_def assms(4))
  have c: "obeys (client_round t m) (0, Finished, client_indices t) t (run_clients m (client_indices t)) (went_round t)"
    using clients_obey [OF t(3), of "client_indices t" m t 0] client_indices_ok [OF t(3)] assms(5) by (auto simp: own_replay_def)
  have "obeys (client_round t m) (0, Finished, client_indices t) t (all_clients t m) (went_round t)"
    unfolding all_clients_def seqM_def [of "run_clients m (client_indices t)"]
    by (rule obeys_log_seq, rule obeys_bindI [OF c]) (simp_all add: obeys_log)
  from obeysD [OF this assms(4) [symmetric]] obtain r es p' s where
    r: "all_clients t m (replay_flagged p) = (r, p')" "trc p' = trc (replay_flagged p) @ es"
      "run_protocol (client_round t m) (0, Finished, client_indices t) (acts es) = Some s" "went_round t r s (distributeTcpInfo p')"
    by (rule followsE)
  have "handle_message m p = (r, p')"
    using distribute_run_replay [OF assms(4) [symmetric] t(1,2), of m] assms(3) r(1) by (simp add: handle_replay [OF assms(1) l])
  then show ?thesis using r(2-) t(4) by (intro exI [of _ r] exI [of _ "replay_lines @ es"] exI [of _ p'] exI [of _ s]) simp
qed

definition other_table :: "tcpInfo list" where
  "other_table = [(demo_table ! 0)\<lparr>acceptedAddress := pad 128 ''10.0.0.9''\<rparr>, demo_table ! 1]"

lemma other_ok: "peers_ok other_table"
  using demo_addresses by (simp add: peers_ok_def peer_ok_def other_table_def demo_table_def pad_def textOf_def)

theorem replay_forwarded_witness:
  "\<exists>r es p' s. handle_message [0x88, 0x88, 0x88, 0x88] (boot [] other_table) = (r, p') \<and> trc p' = [] @ es \<and>
    run_protocol (client_round (distributeTcpInfo (replay_flagged (boot [] other_table))) [0x88, 0x88, 0x88, 0x88])
      (0, Finished, client_indices (distributeTcpInfo (replay_flagged (boot [] other_table)))) (acts es) = Some s \<and>
    went_round (distributeTcpInfo (replay_flagged (boot [] other_table))) r s (distributeTcpInfo p')"
proof -
  have "kind_of [0x88, 0x88, 0x88, 0x88] = Replay" by (simp add: kind_of_def header_tests)
  moreover have "\<forall>i \<in> set (client_indices (distributeTcpInfo (replay_flagged (boot [] other_table)))).
      textOf (address (distributeTcpInfo (replay_flagged (boot [] other_table)) ! i)) \<noteq>
      textOf (acceptedAddress (distributeTcpInfo (replay_flagged (boot [] other_table)) ! 0))"
    by (simp add: replay_flagged_def other_table_def demo_table_def client_indices_def textOf_def pad_def)
  ultimately show ?thesis
    using replay_forwarded [of "[0x88, 0x88, 0x88, 0x88]" "boot [] other_table", OF _ _ _ refl] other_ok by simp
qed

text \<open>A message that is neither leaves the process as it was, but for two lines in the log.\<close>

lemma useless_discarded:
  assumes "kind_of m = Useless"
  shows "handle_message m p = (Inr (), p\<lparr>trc := trc p @ [(Log INFO ''%d %s'' [D 170, S ''distribute received message''], no_ret),
    (Log INFO ''%d %s'' [D 186, S ''distribute received useless message, discard''], no_ret)]\<rparr>)"
  using assms by (simp add: handle_message_def LogWrite_def seqM_def bindM_def prog_run)

section \<open>The loops\<close>

text \<open>
  A loop whose rounds consume an answer before the next round: its fuel does not
  matter once it exceeds the answers there are, and the loop satisfies its equation.
\<close>

locale consuming_loop =
  fixes loop :: "nat \<Rightarrow> 'a prog" and body :: "'a prog \<Rightarrow> 'a prog"
  assumes step: "loop (Suc n) = body (loop n)"
    and consumes: "(\<And>q. length (inp q) < length (inp p) \<Longrightarrow> k q = k' q) \<Longrightarrow> body k p = body k' p"
begin

lemma same: "length (inp p) < n \<Longrightarrow> length (inp p) < n' \<Longrightarrow> loop n p = loop n' p"
proof (induction n arbitrary: n' p)
  case (Suc n)
  then obtain k where k: "n' = Suc k" by (cases n') auto
  have "body (loop n) p = body (loop k) p"
    by (rule consumes, rule Suc.IH) (use Suc.prems k in simp_all)
  then show ?case by (simp add: k step)
qed simp

lemma enough: "loop (Suc (length (inp p)) + n) p = fuelled loop p"
  unfolding fuelled_def by (rule same) simp_all

lemma equation: "fuelled loop p = body (fuelled loop) p"
proof -
  have "body (loop (length (inp p))) p = body (fuelled loop) p"
    unfolding fuelled_def by (rule consumes, rule same) simp_all
  then show ?thesis unfolding fuelled_def [of loop p] step .
qed

end

definition receive_body :: "unit prog \<Rightarrow> unit prog" where
  "receive_body k =
     bindM (tcpM 0) (\<lambda>e.
     bindM (ask (Recv (acceptfd e) MAX_BUFFER_SIZE)) (\<lambda>r.
     if rv r = EXIT_FAIL_CODE then
       LogWrite ERROR ''%d %s :%s'' [D 165, S ''distribute receive failed'', StrError (err r)]
     else if rv r > 0 then seqM (handle_message (received r)) k
     else if rv r = 0 then retM ()
     else k))"

lemma handle_calls: "calls (\<lambda>_. True) (handle_message m)"
proof -
  have send: "calls (\<lambda>_. True) (distribute_client_send m i)" for i
    using client_send_writes [of m i] unfolding calls_def by (blast intro: sat_mono)
  have "calls (\<lambda>_. True) (run_clients m js)" for js by (induction js) (auto intro!: calls_intros send)
  moreover have "calls (\<lambda>_. True) initDataRecord" by (rule only_calls [OF only_mono [OF initDataRecord_only]]) simp
  ultimately show ?thesis
    by (auto simp: handle_message_def distribute_run_def intro!: calls_intros split: kind.splits)
qed

lemma calls_length: "calls P m \<Longrightarrow> m p = (r, q) \<Longrightarrow> length (inp q) \<le> length (inp p)"
  by (auto simp: calls_def sat_def) (metis snd_conv)

lemma bindM_same: "(\<And>x q. m p = (Inr x, q) \<Longrightarrow> f x q = g x q) \<Longrightarrow> bindM m f p = bindM m g p"
  by (auto simp: bindM_def split: prod.splits sum.splits)

lemma tcp_bind_same: "(\<And>e. f e p = g e p) \<Longrightarrow> bindM (tcpM i) f p = bindM (tcpM i) g p"
  by (rule bindM_same) (auto simp: tcpM_def bindM_def prog_run split: sum.splits)

lemma ask_bind_same: "(\<And>r q. length (inp p) = Suc (length (inp q)) \<Longrightarrow> f r q = g r q) \<Longrightarrow> bindM (ask c) f p = bindM (ask c) g p"
  by (rule bindM_same) (auto simp: ask_def split: list.splits)

lemma calls_seq_same:
  "calls P m \<Longrightarrow> (\<And>q. length (inp q) \<le> length (inp p) \<Longrightarrow> k q = k' q) \<Longrightarrow> seqM m k p = seqM m k' p"
  unfolding seqM_def by (rule bindM_same) (simp add: calls_length)

interpretation rl: consuming_loop receive_loop receive_body
proof
  show "receive_loop (Suc n) = receive_body (receive_loop n)" for n by (simp add: receive_body_def)
  fix p :: proc and k k' :: "unit prog"
  assume k: "\<And>q. length (inp q) < length (inp p) \<Longrightarrow> k q = k' q"
  show "receive_body k p = receive_body k' p"
    unfolding receive_body_def
    by (rule tcp_bind_same, rule ask_bind_same) (auto intro!: calls_seq_same [OF handle_calls] k)
qed

lemma receive_calls: "calls (\<lambda>_. True) distribute_receive"
proof -
  have "calls (\<lambda>_. True) (receive_loop n)" for n by (induction n) (auto intro!: calls_intros handle_calls)
  then have "calls (\<lambda>_. True) (fuelled receive_loop)"
    unfolding calls_def fuelled_def sat_def by blast
  then show ?thesis by (auto simp: distribute_receive_def intro!: calls_intros)
qed

definition accept_body :: "int \<Rightarrow> unit prog \<Rightarrow> unit prog" where
  "accept_body fd k =
     bindM (ask (Accept fd)) (\<lambda>r.
     if rv r = EXIT_FAIL_CODE then
       seqM (LogWrite ERROR ''%d %s :%s'' [D 64, S ''distribute accept failed'', StrError (err r)]) exit_fail
     else
       let caddr = buf_prefix 6 (dat r); text = inet_ntoa (drop 2 caddr)
       in bindM (tcpM 0) (\<lambda>e.
          bindM (liftM (strcpy (acceptedAddress e) 0 (lit text))) (\<lambda>b.
          seqM (set_tcpM 0 (\<lambda>e. e\<lparr>acceptedAddress := b, acceptfd := rv r\<rparr>))
          (seqM (LogWrite INFO ''%d %s'' [D 69, S ''distribute connection ok''])
          (seqM (LogWrite DEBUG ''%d %s: %d'' [D 71, S ''distribute accept fd get'', D (rv r)])
          (seqM (LogWrite INFO ''%d %s%d %s%s'' [D 74, S ''distribute cport='',
             D (uint (htons (le (take 2 caddr)))), S ''distribute caddr='', S text])
          (bindM (ask Fork) (\<lambda>pid.
           if rv pid = EXIT_FAIL_CODE then
             seqM (LogWrite ERROR ''%d %s :%s'' [D 81, S ''distribute fork error'', StrError (err pid)])
             (bindM (tcpM 0) (\<lambda>e. emit (Close (acceptfd e))))
           else
             seqM
               (if rv pid = 0 then
                  seqM (LogWrite DEBUG ''%d %s'' [D 89, S ''distribute-client receive process created''])
                  distribute_receive
                else retM ())
               k))))))))"

interpretation al: consuming_loop "accept_loop fd" "accept_body fd"
proof
  show "accept_loop fd (Suc n) = accept_body fd (accept_loop fd n)" for n by (simp add: accept_body_def Let_def)
  fix p :: proc and k k' :: "unit prog"
  assume k: "\<And>q. length (inp q) < length (inp p) \<Longrightarrow> k q = k' q"
  have log: "seqM (LogWrite l g as) m q = seqM (LogWrite l g as) n q" if "\<And>q'. length (inp q') = length (inp q) \<Longrightarrow> m q' = n q'" for l g as m n q
    using that by (simp add: step_run)
  have set: "seqM (set_tcpM 0 u) m q = seqM (set_tcpM 0 u) n q" if "\<And>q'. length (inp q') = length (inp q) \<Longrightarrow> m q' = n q'" for u m n q
    unfolding seqM_def using that by (intro bindM_same) (auto simp: set_tcpM_def tcpM_def bindM_def prog_run split: sum.splits)
  have lift: "bindM (liftM x) m q = bindM (liftM x) n q" if "\<And>y. m y q = n y q" for x m n q
    using that by (cases x) simp_all
  have c: "calls (\<lambda>_. True) (seqM (LogWrite DEBUG ''%d %s'' [D 89, S ''distribute-client receive process created'']) distribute_receive)"
    "calls (\<lambda>_. True) (retM ())"
    by (auto intro!: calls_intros receive_calls)
  show "accept_body fd k p = accept_body fd k' p"
    unfolding accept_body_def Let_def
    by (rule ask_bind_same) (auto intro!: tcp_bind_same lift set log ask_bind_same calls_seq_same [OF c(1)] calls_seq_same [OF c(2)] k)
qed


section \<open>The invariant of the table\<close>

lemma keeps_lift [keeps_intros]: "(\<And>x. r = Inr x \<Longrightarrow> keeps (f x)) \<Longrightarrow> keeps (bindM (liftM r) f)"
  by (cases r) (simp_all add: keeps_basic)

lemma keeps_tcp [keeps_intros]:
  assumes "\<And>e. peer_ok e \<Longrightarrow> keeps (f e)"
  shows "keeps (bindM (tcpM i) f)"
  unfolding keeps_def
proof (intro allI impI)
  fix p :: proc
  assume p: "peers_ok (distributeTcpInfo p)"
  show "peers_ok (distributeTcpInfo (snd (bindM (tcpM i) f p)))"
  proof (cases "i < length (distributeTcpInfo p)")
    case True
    then have "keeps (f (distributeTcpInfo p ! i))" using p assms by (simp add: peers_ok_def)
    with True p show ?thesis by (simp add: step_run keeps_def)
  qed (use p in \<open>simp add: tcpM_def bindM_def prog_run getR_def\<close>)
qed

lemma accepted_ok:
  assumes "peer_ok e" "strcpy (acceptedAddress e) 0 (lit x) = Inr b" "peer_ok e'"
  shows "peer_ok (e'\<lparr>acceptedAddress := b, acceptfd := v\<rparr>)"
proof -
  have c: "cstr (lit x) = Inr (textOf (lit x))" by (simp add: cstr_textOf lit_def)
  show ?thesis using assms by (auto simp: peer_ok_def strcpy_eq [OF c] split: if_splits)
qed

lemma keeps_accept: "keeps (accept_loop fd n)"
proof (induction n)
  case (Suc n)
  then show ?case by (auto simp: Let_def exit_fail_def intro!: keeps_intros keeps_receive intro: accepted_ok)
qed (simp add: keeps_basic)

text \<open>
  C3. The invariant of the server: from a table whose entries have addresses that fit
  and one entry for every client, the server keeps such a table through accepting,
  receiving, recording and forwarding.  Since the answers may end anywhere, this holds
  whenever the server waits for an answer.
\<close>

theorem server_invariant:
  assumes "peers_ok (distributeTcpInfo p)"
  shows "peers_ok (distributeTcpInfo (snd (distribute_server p)))"
proof -
  have "keeps (fuelled (accept_loop fd))" for fd
    using keeps_accept unfolding keeps_def fuelled_def by blast
  then have "keeps distribute_server"
    by (auto simp: distribute_server_def exit_fail_def intro!: keeps_intros)
  with assms show ?thesis by (simp add: keeps_def)
qed

theorem server_invariant_witness: "peers_ok (distributeTcpInfo (snd (distribute_server (boot (replicate 9 no_ret) demo_table))))"
  using server_invariant [of "boot (replicate 9 no_ret) demo_table"] demo_ok by simp

section \<open>The start of the server\<close>

text \<open>
  The calls that set up the socket of the server, by what they return: up to the first
  that fails, and then the socket is closed if there is one.
\<close>

definition setup_calls :: "in_addr \<Rightarrow> 16 word \<Rightarrow> ret \<Rightarrow> ret \<Rightarrow> ret \<Rightarrow> ret \<Rightarrow> event list" where
  "setup_calls ip q s u b l =
     (if rv s = EXIT_FAIL_CODE then [(Socket, s)]
      else if rv u = EXIT_FAIL_CODE then [(Socket, s), (Setsockopt (rv s), u), (Close (rv s), no_ret)]
      else if rv b = EXIT_FAIL_CODE then [(Socket, s), (Setsockopt (rv s), u), (Bind (rv s) ip q, b), (Close (rv s), no_ret)]
      else [(Socket, s), (Setsockopt (rv s), u), (Bind (rv s) ip q, b), (Listen (rv s) 5, l)] @
        (if rv l = EXIT_FAIL_CODE then [(Close (rv s), no_ret)] else []))"

lemma server_setup:
  assumes "peers_ok (distributeTcpInfo p)" "target (distributeTcpInfo p) 0 = (lock, ip, q)" "inp p = s # u # b # l # rest"
  shows "\<exists>es p'. trc p' = trc p @ es \<and> distributeTcpInfo p' = distributeTcpInfo p \<and> acts es = setup_calls ip q s u b l \<and>
    (if \<exists>r \<in> {s, u, b, l}. rv r = EXIT_FAIL_CODE then distribute_server p = (Inl (Exit EXIT_FAIL_CODE), p')
     else distribute_server p = fuelled (accept_loop (rv s)) p' \<and> inp p' = rest)"
proof -
  have n: "0 < length (distributeTcpInfo p)" "distributeTcpInfo p \<noteq> []" using assms(1) by (auto simp: peers_ok_def)
  note ok = peers_okD [OF assms(1) n(1), unfolded assms(2) fst_conv snd_conv]
  let ?log = "\<lambda>n x. Log DEBUG ''%d %s'' [D n, S x]"
  let ?es = "[(Socket, s), (Setsockopt (rv s), u), (?log 31 ''distribute socket created'', no_ret), (Bind (rv s) ip q, b),
    (?log 45 ''distribute socket bind'', no_ret), (Listen (rv s) 5, l), (?log 54 ''distribute socket listening'', no_ret)]"
  let ?p = "emitted (?log 54 ''distribute socket listening'') (called (Listen (rv s) 5) (emitted (?log 45 ''distribute socket bind'')
    (called (Bind (rv s) ip q) (emitted (?log 31 ''distribute socket created'') (called (Setsockopt (rv s)) (called Socket p))))))"
  show ?thesis
    using assms(3)
    by (cases "rv s = EXIT_FAIL_CODE"; cases "rv u = EXIT_FAIL_CODE"; cases "rv b = EXIT_FAIL_CODE"; cases "rv l = EXIT_FAIL_CODE")
      (simp_all add: setup_calls_def distribute_server_def ask_bind_run step_run n(2) ok exit_fail_def prog_run,
        rule exI [of _ ?es], rule exI [of _ ?p], simp)
qed

end
