(* ===== verification/Peers.thy ===== *)
theory Peers
  imports Serve
begin

text \<open>
  The two programs at the ends of the server, \<^verbatim>\<open>sender.c\<close> and \<^verbatim>\<open>client.c\<close>, as programs over
  the calls of the operating system.  The lemmas describe what each of them does for
  every sequence of answers, and what becomes of the sender's messages in the server.
\<close>

section \<open>The sender\<close>

text \<open>The bytes of the literal \<^verbatim>\<open>"xyz"\<close> with its terminator.\<close>

definition xyz :: "8 word list" where "xyz = [0x78, 0x79, 0x7A, 0]"

fun sender_loop :: "int \<Rightarrow> nat \<Rightarrow> int prog" where
  "sender_loop fd 0 = failM NoReturn"
| "sender_loop fd (Suc n) =
     bindM (ask (Send fd xyz)) (\<lambda>res.
     seqM (if rv res = EXIT_FAIL_CODE then emit (Printf ''send failed\<newline>'') else retM ())
     (seqM (emit (Sleep 1)) (sender_loop fd n)))"

definition sender_main :: "(int \<Rightarrow> string) \<Rightarrow> int prog" where
  "sender_main strerror =
     bindM (ask Socket) (\<lambda>s.
     seqM (if rv s = EXIT_FAIL_CODE then emit (Printf ''socket failed\<newline>'') else retM ())
     (bindM (ask (Setsockopt (rv s))) (\<lambda>res.
      if rv res = EXIT_FAIL_CODE then
        seqM (emit (Printf ''setsockopt failed\<newline>'')) (seqM (emit (Close (rv s))) exit_fail)
      else
        bindM (liftM (inet_addr (lit ''127.0.0.1''))) (\<lambda>a.
        bindM (ask (Connect (rv s) a (htons 60001))) (\<lambda>res.
        seqM (if rv res = EXIT_FAIL_CODE then emit (Printf (''connect failed: '' @ strerror (err res) @ ''\<newline>'')) else retM ())
        (fuelled (sender_loop (rv s))))))))"

section \<open>The client\<close>

text \<open>An argument of the program: behind the last there is a null pointer.\<close>

definition arg :: "char list list \<Rightarrow> nat \<Rightarrow> char list cres" where
  "arg argv i = (if i < length argv then Inr (argv ! i) else if i = length argv then Inl NullDeref else Inl OutOfBounds)"

text \<open>A received byte is a \<^verbatim>\<open>char\<close>, which is signed, and becomes an \<^verbatim>\<open>int\<close> before it is printed.\<close>

definition byte_line :: "8 word \<Rightarrow> string" where
  "byte_line b = format_number (plain_d\<lparr>p_base := 16, p_spec := CHR ''x''\<rparr>) False (unat (scast b :: 32 word)) @ '' \<newline>''"

fun client_loop :: "int \<Rightarrow> nat \<Rightarrow> int prog" where
  "client_loop fd 0 = failM NoReturn"
| "client_loop fd (Suc n) =
     bindM (ask (Recv fd MAX_BUFFER_SIZE)) (\<lambda>r.
     if rv r = EXIT_FAIL_CODE then seqM (emit (Printf ''receive done\<newline>'')) (retM 0)
     else if rv r > 0 then seqM (forM (received r) (\<lambda>b. emit (Printf (byte_line b)))) (client_loop fd n)
     else client_loop fd n)"

definition client_main :: "char list list \<Rightarrow> int prog" where
  "client_main argv =
     bindM (ask Socket) (\<lambda>s.
     if rv s = EXIT_FAIL_CODE then seqM (emit (Printf ''socket failed\<newline>'')) exit_fail
     else
       bindM (ask (Setsockopt (rv s))) (\<lambda>res.
       if rv res = EXIT_FAIL_CODE then
         seqM (emit (Printf ''setsockopt failed\<newline>'')) (seqM (emit (Close (rv s))) exit_fail)
       else
         bindM (liftM (bindR (arg argv 1) atoi)) (\<lambda>port.
         bindM (liftM (bindR (arg argv 2) inet_addr)) (\<lambda>a.
         bindM (ask (Bind (rv s) a (htons (word_of_int port)))) (\<lambda>res.
         if rv res = EXIT_FAIL_CODE then
           seqM (emit (Printf ''bind failed\<newline>'')) (seqM (emit (Close (rv s))) exit_fail)
         else
           seqM (emit (Printf ''bind done\<newline>''))
           (bindM (ask (Listen (rv s) 5)) (\<lambda>res.
            if rv res = EXIT_FAIL_CODE then
              seqM (emit (Printf ''listen failed\<newline>'')) (seqM (emit (Close (rv s))) exit_fail)
            else
              seqM (emit (Printf ''listen done\<newline>''))
              (bindM (ask (Accept (rv s))) (\<lambda>acc. fuelled (client_loop (rv acc)))))))))))"

section \<open>What becomes of the sender's messages\<close>

lemma xyz_useless: "kind_of xyz = Useless"
  by (simp add: xyz_def kind_of_def header_tests)

definition sends_xyz :: "call \<Rightarrow> bool" where
  "sends_xyz c \<longleftrightarrow> (case c of Send fd m \<Rightarrow> m = xyz | _ \<Rightarrow> True)"

text \<open>A run of the sender: it never returns, and all its messages are the same.\<close>

definition endless :: "int cres \<Rightarrow> event list \<Rightarrow> bool" where
  "endless r es \<longleftrightarrow> (r = Inl Blocked \<or> r = Inl (Exit EXIT_FAIL_CODE)) \<and> (\<forall>e \<in> set es. sends_xyz (fst e))"

lemma endless_simps [simp]:
  "endless (Inl Blocked) []" "endless (Inl (Exit EXIT_FAIL_CODE)) []" "endless r (e # es) \<longleftrightarrow> sends_xyz (fst e) \<and> endless r es"
  by (auto simp: endless_def)

lemma sends_xyz_simps [simp]:
  "sends_xyz (Send fd m) \<longleftrightarrow> m = xyz" "sends_xyz Socket" "sends_xyz (Setsockopt fd)" "sends_xyz (Connect fd a pt)"
  "sends_xyz (Printf x)" "sends_xyz (Sleep k)" "sends_xyz (Close fd)"
  by (simp_all add: sends_xyz_def)

text \<open>The same of a program, for as many answers as there are less than \<open>k\<close>.\<close>

definition runs_on :: "nat \<Rightarrow> int prog \<Rightarrow> bool" where
  "runs_on k m \<longleftrightarrow> (\<forall>p. length (inp p) < k \<longrightarrow> sat m p (\<lambda>r es p'. endless r es))"

named_theorems runs_intros \<open>composition of programs that run on\<close>

lemma runs_ask [runs_intros]: "sends_xyz c \<Longrightarrow> (\<And>r. runs_on (k - 1) (f r)) \<Longrightarrow> runs_on k (bindM (ask c) f)"
  unfolding runs_on_def by (intro allI impI sat_ask_bind) auto

lemma runs_emit [runs_intros]: "sends_xyz c \<Longrightarrow> runs_on k n \<Longrightarrow> runs_on k (seqM (emit c) n)"
  unfolding runs_on_def by (intro allI impI sat_emit_seq) auto

lemma runs_complain [runs_intros]: "runs_on k n \<Longrightarrow> runs_on k (seqM (if b then emit (Printf x) else retM ()) n)"
  using runs_emit [of "Printf x" k n] by (cases b) (simp_all add: seqM_def)

lemma runs_exit [runs_intros]: "runs_on k exit_fail"
  by (auto simp: runs_on_def exit_fail_def intro!: sat_fail)

lemma runs_if [runs_intros]: "runs_on k m \<Longrightarrow> runs_on k n \<Longrightarrow> runs_on k (if b then m else n)"
  by simp

lemma sender_loop_runs: "runs_on n (sender_loop fd n)"
proof (induction n)
  case (Suc n)
  then show ?case unfolding sender_loop.simps by (intro runs_intros) simp_all
qed (simp add: runs_on_def)

lemma sender_fuelled [runs_intros]: "runs_on k (fuelled (sender_loop fd))"
  using sender_loop_runs unfolding runs_on_def fuelled_def sat_def by blast

lemma loopback: "inet_addr (lit ''127.0.0.1'') = Inr [127, 0, 0, 1]"
  using inet_addr_dotted [of "[127, 0, 0, 1]" "[]"] by (simp add: dotted_def sprintf_d_eq itoa_word_step itoa_lower_digits_def lit_def)

lemma sender_runs: "runs_on k (sender_main strerror)"
  unfolding sender_main_def loopback bindM_simps(3) by (intro runs_intros) simp_all



section \<open>What the client prints\<close>

definition printed :: "ret \<Rightarrow> event list" where
  "printed r = (if rv r > 0 then map (\<lambda>b. (Printf (byte_line b), no_ret)) (received r) else [])"

definition client_events :: "int \<Rightarrow> ret list \<Rightarrow> event list" where
  "client_events fd rs = concat (map (\<lambda>r. (Recv fd MAX_BUFFER_SIZE, r) # printed r) rs)"

lemma forM_emit: "forM xs (\<lambda>x. emit (c x)) p = (Inr (), p\<lparr>trc := trc p @ map (\<lambda>x. (c x, no_ret)) xs\<rparr>)"
  by (induction xs arbitrary: p) (simp_all add: prog_run seqM_def bindM_def)

lemma client_loop_run:
  assumes "\<forall>r \<in> set rs. rv r \<noteq> EXIT_FAIL_CODE" "inp p = rs @ rest"
  shows "client_loop fd (length rs + n) p = client_loop fd n (p\<lparr>inp := rest, trc := trc p @ client_events fd rs\<rparr>)"
  using assms
proof (induction rs arbitrary: p)
  case (Cons r rs)
  let ?p = "p\<lparr>inp := rs @ rest, trc := trc p @ (Recv fd MAX_BUFFER_SIZE, r) # printed r\<rparr>"
  have "client_loop fd (length (r # rs) + n) p = client_loop fd (length rs + n) ?p"
    using Cons.prems by (simp add: ask_bind_run called_def seqM_def bindM_def [of "forM x y" for x y] forM_emit printed_def)
  also have "\<dots> = client_loop fd n (?p\<lparr>inp := rest, trc := trc ?p @ client_events fd rs\<rparr>)"
    by (rule Cons.IH) (use Cons.prems in simp_all)
  finally show ?case by (simp add: client_events_def)
qed (auto simp: client_events_def)

text \<open>
  C33. A client whose socket is set up prints every byte it receives, in order, and ends when receiving
  fails; when the peer closes the connection it does not end but asks again for as long as the answer is 0.
\<close>

theorem client_relay:
  assumes "arg argv 1 = Inr b1" "atoi b1 = Inr num" "arg argv 2 = Inr b2" "inet_addr b2 = Inr a"
    and "inp p = s # so # b # l # acc # rs @ rest" "\<forall>r \<in> set (s # so # b # l # rs). rv r \<noteq> EXIT_FAIL_CODE"
    and "rest = [] \<or> rv (hd rest) = EXIT_FAIL_CODE"
  shows "\<exists>p'. client_main argv p = (if rest = [] then Inl Blocked else Inr 0, p') \<and> inp p' = tl rest \<and>
    trc p' = trc p @ [(Socket, s), (Setsockopt (rv s), so), (Bind (rv s) a (htons (word_of_int num)), b), (Printf ''bind done\<newline>'', no_ret),
      (Listen (rv s) 5, l), (Printf ''listen done\<newline>'', no_ret), (Accept (rv s), acc)] @ client_events (rv acc) rs @
      (if rest = [] then [] else [(Recv (rv acc) MAX_BUFFER_SIZE, hd rest), (Printf ''receive done\<newline>'', no_ret)])"
proof -
  define q where "q = called (Accept (rv s)) (emitted (Printf ''listen done\<newline>'') (called (Listen (rv s) 5) (emitted (Printf ''bind done\<newline>'')
    (called (Bind (rv s) a (htons (word_of_int num))) (called (Setsockopt (rv s)) (called Socket p))))))"
  have m: "client_main argv p = fuelled (client_loop (rv acc)) q"
    using assms by (simp add: client_main_def ask_bind_run step_run q_def)
  have q: "inp q = rs @ rest" "trc q = trc p @ [(Socket, s), (Setsockopt (rv s), so), (Bind (rv s) a (htons (word_of_int num)), b),
      (Printf ''bind done\<newline>'', no_ret), (Listen (rv s) 5, l), (Printf ''listen done\<newline>'', no_ret), (Accept (rv s), acc)]"
    using assms(5) by (simp_all add: q_def)
  have "fuelled (client_loop (rv acc)) q = client_loop (rv acc) (Suc (length rest)) (q\<lparr>inp := rest, trc := trc q @ client_events (rv acc) rs\<rparr>)"
    using client_loop_run [of rs q rest "rv acc" "Suc (length rest)"] assms(6) q(1) by (simp add: fuelled_def)
  with assms(7) show ?thesis unfolding m
    by (cases rest) (simp_all add: q(2) bindM_def ask_def seqM_def prog_run)
qed

text \<open>Two bytes, the end of the connection twice, and a failure: the second byte is printed as a negative \<^verbatim>\<open>int\<close>.\<close>

theorem client_relay_witness:
  "\<exists>p'. client_main [[], lit ''9999'', lit ''127.0.0.1''] (boot ([no_ret\<lparr>rv := 3\<rparr>, no_ret, no_ret, no_ret, no_ret\<lparr>rv := 4\<rparr>,
       no_ret\<lparr>rv := 2, dat := [0x41, 0x80]\<rparr>, no_ret, no_ret, no_ret\<lparr>rv := -1\<rparr>]) []) = (Inr 0, p') \<and>
   map fst (drop 7 (trc p')) = [Recv 4 MAX_BUFFER_SIZE, Printf ''41 \<newline>'', Printf ''ffffff80 \<newline>'', Recv 4 MAX_BUFFER_SIZE,
     Recv 4 MAX_BUFFER_SIZE, Recv 4 MAX_BUFFER_SIZE, Printf ''receive done\<newline>'']"
proof -
  let ?r = "no_ret\<lparr>rv := 2, dat := [0x41, 0x80]\<rparr>"
  have b: "byte_line 0x41 = ''41 \<newline>''" "byte_line 0x80 = ''ffffff80 \<newline>''"
    by (simp_all add: byte_line_def format_number_def plain_d_def itoa_word_step itoa_lower_digits_def)
  have a: "atoi (lit ''9999'') = Inr 9999"
    using atoi_printed [of 9999 NUL "[]"] isdigit_not_special(1) by (auto simp: sprintf_d_eq itoa_word_step itoa_lower_digits_def lit_def)
  have r: "received ?r = [0x41, 0x80]" by (simp add: received_def buf_prefix_def)
  show ?thesis
    using client_relay [of "[[], lit ''9999'', lit ''127.0.0.1'']" "lit ''9999''" 9999 "lit ''127.0.0.1''" "[127, 0, 0, 1]",
      OF _ a _ loopback, of "boot ([no_ret\<lparr>rv := 3\<rparr>, no_ret, no_ret, no_ret, no_ret\<lparr>rv := 4\<rparr>] @ [?r, no_ret, no_ret] @ [no_ret\<lparr>rv := -1\<rparr>]) []"
        "no_ret\<lparr>rv := 3\<rparr>" no_ret no_ret no_ret "no_ret\<lparr>rv := 4\<rparr>" "[?r, no_ret, no_ret]" "[no_ret\<lparr>rv := -1\<rparr>]"]
    by (auto simp: arg_def EXIT_FAIL_CODE_def client_events_def printed_def r [simplified] b)
qed

end
