(* ===== verification/Table.thy ===== *)
theory Table
  imports Distribute
begin

text \<open>
  The table of peers that the server reads from its configuration: what
  \<open>parseFile_distributeTcpInfo\<close> makes of a file, and up to which number of clients.
\<close>

section \<open>Keys in arrays\<close>

lemma strcmp_prefix: "NUL \<notin> set k \<Longrightarrow> strcmp (k @ NUL # r) x = strcmp (k @ [NUL]) x"
  by (induction k arbitrary: x) (case_tac x; simp)+

lemma info_buf_eq:
  assumes "cstr b = Inr k"
  shows "info_buf b info = info_value k info"
proof -
  from assms obtain r where b: "b = k @ NUL # r" "NUL \<notin> set k" by (rule cstr_InrE)
  then have "getInfo_ConfigFile b info = getInfo_ConfigFile (lit k) info"
    by (induction info) (simp_all add: strcmp_prefix [of k r] lit_def cong: if_cong)
  then show ?thesis by (simp add: info_buf_def info_value_def)
qed

section \<open>The entry of a client\<close>

definition peer :: "string \<Rightarrow> int \<Rightarrow> tcpInfo" where
  "peer a q = zero_tcp\<lparr>address := pad 128 a, port := q\<rparr>"

definition client_key :: "nat \<Rightarrow> string" where
  "client_key i = ''client'' @ sprintf_d (int i)"

lemma decimal_4: "i \<le> 9999 \<Longrightarrow> length (sprintf_d (int i)) \<le> 4"
  using decimal_length [of i 4] by (simp add: sprintf_d_eq)

lemma client_base: "strncpy (replicate 20 NUL) 0 (lit ''client'') 6 = Inr (pad 20 ''client'')"
  by code_simp

lemma parse_client_eq:
  assumes "i \<le> 9999"
  shows "parse_client info i =
    bindR (info_value (client_key i @ ''-address'') info) (\<lambda>a. bindR (strcpy (replicate 128 NUL) 0 a) (\<lambda>a.
    bindR (info_value (client_key i @ ''-port'') info) (\<lambda>q. bindR (atoi q) (\<lambda>q.
    Inr (zero_tcp\<lparr>address := a, port := q\<rparr>, pad 20 (client_key i))))))"
proof -
  have l: "length (sprintf_d (int i)) \<le> 4" by (rule decimal_4 [OF assms])
  have k: "NUL \<notin> set (client_key i)" "length (client_key i) \<le> 10" using l by (simp_all add: client_key_def)
  have 1: "sprintf_to (replicate 5 NUL) (sprintf_d (int i)) = Inr (pad 5 (sprintf_d (int i)))"
    using l by (simp add: pad_sprintf)
  have 2: "strcat (pad 20 ''client'') (pad 5 (sprintf_d (int i))) = Inr (pad 20 (client_key i))"
    using pad_strcat [of "''client''" "pad 5 (sprintf_d (int i))" "sprintf_d (int i)" 20] l by (simp add: client_key_def)
  have 3: "strcpy (replicate 20 NUL) 0 (pad 20 (client_key i)) = Inr (pad 20 (client_key i))"
    using pad_strcpy [of "pad 20 (client_key i)" "client_key i" 20] k by simp
  have 4: "strcat (pad 20 (client_key i)) (lit s) = Inr (pad 20 (client_key i @ s))" "cstr (pad 20 (client_key i @ s)) = Inr (client_key i @ s)"
    if "NUL \<notin> set s" "length s \<le> 8" for s
    using pad_strcat [of "client_key i" "lit s" s 20] k that by simp_all
  show ?thesis
    by (simp add: parse_client_def client_base 1 2 3 4 info_buf_eq [OF 4(2)])
qed

lemma decimal_less: "v < 10 ^ length (decimal v)"
proof (induction v rule: less_induct)
  case (less v)
  show ?case
  proof (cases "v < 10")
    case True
    then show ?thesis by (subst decimal_rec) simp
  next
    case False
    then have "v div 10 < 10 ^ length (decimal (v div 10))" using less by simp
    with False show ?thesis by (subst decimal_rec) (simp add: div_less_iff_less_mult mult.commute)
  qed
qed

text \<open>
  The key of a client is built in an array with room for four digits: the entry of
  client 10000 and beyond is written outside it, whatever the configuration says.
\<close>

lemma client_number_overflow:
  assumes "10000 \<le> i" "i < 2 ^ 31"
  shows "parse_client info i = Inl OutOfBounds"
proof -
  have "\<not> length (decimal i) < 5"
  proof
    assume "length (decimal i) < 5"
    then have "i < 10 ^ 4" using decimal_less [of i] power_increasing [of "length (decimal i)" 4 "10 :: nat"] by linarith
    with assms show False by simp
  qed
  then show ?thesis by (simp add: parse_client_def client_base pad_sprintf sprintf_d_eq)
qed

section \<open>The table\<close>

text \<open>A configuration that describes the server and its clients.\<close>

definition int32 :: "int \<Rightarrow> bool" where
  "int32 x \<longleftrightarrow> - (2 ^ 31) \<le> x \<and> x < 2 ^ 31"

definition describes :: "(string \<times> string) list \<Rightarrow> string \<times> int \<Rightarrow> (string \<times> int) list \<Rightarrow> bool" where
  "describes es server clients \<longleftrightarrow>
     map_of es ''client-num'' = Some (sprintf_d (int (length clients))) \<and>
     map_of es ''distribute-address'' = Some (fst server) \<and>
     map_of es ''distribute-port'' = Some (sprintf_d (snd server)) \<and> int32 (snd server) \<and>
     (\<forall>i < length clients.
        map_of es (client_key (Suc i) @ ''-address'') = Some (fst (clients ! i)) \<and>
        map_of es (client_key (Suc i) @ ''-port'') = Some (sprintf_d (snd (clients ! i))) \<and> int32 (snd (clients ! i)))"

lemma int32_length: "int32 x \<Longrightarrow> length (sprintf_d x) < 128"
  using sprintf_d_length [of x] by (simp add: int32_def)

lemma atoi_int32: "int32 x \<Longrightarrow> 50 \<le> n \<Longrightarrow> atoi (pad n (sprintf_d x)) = Inr x"
  by (simp add: int32_def atoi_pad)

lemma described_client:
  assumes "\<forall>kv \<in> set (entries c). fits kv" "describes (entries c) server clients" "i < length clients" "length clients \<le> 9999"
  shows "parse_client (map packed (entries c)) (Suc i) =
    Inr (peer (fst (clients ! i)) (snd (clients ! i)), pad 20 (client_key (Suc i)))"
    and "cstr (pad 128 (fst (clients ! i))) = Inr (fst (clients ! i))"
proof -
  have k: "NUL \<notin> set (client_key (Suc i))" "length (client_key (Suc i)) \<le> 10"
    using decimal_4 [of "Suc i"] assms(3,4) by (simp_all add: client_key_def)
  have d: "map_of (entries c) (client_key (Suc i) @ ''-address'') = Some (fst (clients ! i))"
    "map_of (entries c) (client_key (Suc i) @ ''-port'') = Some (sprintf_d (snd (clients ! i)))" "int32 (snd (clients ! i))"
    using assms(2,3) by (simp_all add: describes_def)
  note v = entry_value [OF assms(1) d(1)]
  from v show c: "cstr (pad 128 (fst (clients ! i))) = Inr (fst (clients ! i))" by simp
  show "parse_client (map packed (entries c)) (Suc i) =
      Inr (peer (fst (clients ! i)) (snd (clients ! i)), pad 20 (client_key (Suc i)))"
    using k assms(3,4) v
    by (simp add: parse_client_eq info_value_entries [OF assms(1)] d pad_strcpy [OF c] atoi_int32 int32_length peer_def)
qed

lemma parse_clients_run:
  assumes "\<forall>i \<in> set is. i < length t \<and> parse_client info i = Inr (c i, pad 20 (client_key i)) \<and> i \<le> 9999 \<and> (\<exists>a. cstr (address (c i)) = Inr a)"
  shows "\<exists>es p'. parse_clients info is t p = (Inr (fold (\<lambda>i t. t[i := c i]) is t), p') \<and> inp p' = inp p \<and> trc p' = trc p @ es \<and> acts es = []"
  using assms
proof (induction "is" arbitrary: t p)
  case Nil
  then show ?case by (simp add: prog_run)
next
  case (Cons i "is")
  then obtain a where i: "i < length t" "parse_client info i = Inr (c i, pad 20 (client_key i))" "i \<le> 9999" "cstr (address (c i)) = Inr a"
    by auto
  have n: "cstr (pad 20 (client_key i)) = Inr (client_key i)" using decimal_4 [OF i(3)] by (simp add: client_key_def)
  let ?e = "\<lambda>p. emitted (Log DEBUG ''%d %s %s :%d'' [D 374, S (client_key i), S ''port is'', D (port (c i))])
    (emitted (Log DEBUG ''%d %s %s :%s'' [D 373, S (client_key i), S ''address is'', S a]) p)"
  have "parse_clients info (i # is) t p = parse_clients info is (t[i := c i]) (?e p)"
    using i n by (simp add: text_of_def step_run)
  moreover obtain es p' where "parse_clients info is (t[i := c i]) (?e p) = (Inr (fold (\<lambda>i t. t[i := c i]) is (t[i := c i])), p')"
      "inp p' = inp p" "trc p' = trc (?e p) @ es" "acts es = []"
    using Cons.IH [of "t[i := c i]" "?e p"] Cons.prems by auto
  ultimately show ?case by (auto simp: quiet_def)
qed

lemma fold_update:
  "length (fold (\<lambda>i t. t[i := c i]) is t) = length t"
  "j < length t \<Longrightarrow> fold (\<lambda>i t. t[i := c i]) is t ! j = (if j \<in> set is then c j else t ! j)"
  by (induction "is" arbitrary: t) (auto simp: nth_list_update)

lemma filled_table:
  "fold (\<lambda>i t. t[i := c i]) [1..<Suc n] (e # replicate n z) = e # map (\<lambda>i. c (Suc i)) [0..<n]"
  by (rule nth_equalityI) (auto simp: fold_update nth_Cons split: nat.split)

lemma peer_ok_peer:
  assumes "cstr (pad 128 a) = Inr a" "length a < 122" "\<exists>ip. inet_addr (pad 128 a) = Inr ip"
  shows "peer_ok (peer a q)" "peer_ok ((peer a q)\<lparr>clientNum := n\<rparr>)"
proof -
  have a: "NUL \<notin> set a" by (rule cstr_no_nul [OF assms(1)])
  then have "textOf (pad 128 a) = a" using assms(2) by simp
  moreover have "NUL \<in> set (pad 128 a)" "length (pad 128 a) = 128" using assms(2) by (simp_all add: pad_def)
  ultimately show "peer_ok (peer a q)" "peer_ok ((peer a q)\<lparr>clientNum := n\<rparr>)"
    using assms by (simp_all add: peer_ok_def peer_def zero_tcp_def)
qed

lemma peers_ok_table:
  assumes "\<forall>x \<in> set (a # map fst clients). cstr (pad 128 x) = Inr x \<and> length x < 122 \<and> (\<exists>ip. inet_addr (pad 128 x) = Inr ip)"
  shows "peers_ok ((peer a q)\<lparr>clientNum := int (length clients)\<rparr> # map (\<lambda>(a, q). peer a q) clients)"
  using assms by (auto simp: peers_ok_def intro!: peer_ok_peer)

lemma described_clients:
  assumes "\<forall>kv \<in> set (entries c). fits kv" "describes (entries c) server clients" "length clients \<le> 9999" "i \<in> set [1..<Suc (length clients)]"
  shows "i < length (m # replicate (length clients) zero_tcp) \<and>
    parse_client (map packed (entries c)) i = Inr (peer (fst (clients ! (i - 1))) (snd (clients ! (i - 1))), pad 20 (client_key i)) \<and>
    i \<le> 9999 \<and> (\<exists>a. cstr (address (peer (fst (clients ! (i - 1))) (snd (clients ! (i - 1))))) = Inr a)"
proof -
  have "0 < i" "i \<le> length clients" using assms(4) by (auto simp del: upt_Suc)
  then obtain j where j: "i = Suc j" "j < length clients" by (cases i) auto
  show ?thesis using described_client [OF assms(1,2) j(2) assms(3)] j assms(3) by (simp add: peer_def)
qed

lemma described_address:
  assumes "\<forall>kv \<in> set (entries c). fits kv" "describes (entries c) (a, q) clients" "length clients \<le> 9999" "x \<in> set (a # map fst clients)"
  shows "cstr (pad 128 x) = Inr x"
proof -
  have "\<forall>x \<in> set clients. cstr (pad 128 (fst x)) = Inr (fst x)"
    using described_client(2) [OF assms(1,2) _ assms(3)] by (simp add: all_set_conv_all_nth)
  moreover have "cstr (pad 128 a) = Inr a"
    using entry_value [OF assms(1), of "''distribute-address''" a] assms(2) by (simp add: describes_def)
  ultimately show ?thesis using assms(4) by auto
qed

lemma parse_table:
  assumes "inp p = w # c # rest" "length (textOf (str w)) < 500" "rv c \<noteq> 0" "\<forall>kv \<in> set (entries (str c)). fits kv"
    and "describes (entries (str c)) (a, q) clients" "length clients \<le> 9999"
  shows "\<exists>es p'. parseFile_distributeTcpInfo p = (Inr (), p') \<and> inp p' = rest \<and> trc p' = trc p @ es \<and>
    acts es = [(Getcwd, w), (Fopen (textOf (str w) @ CONFIGFILE) ''r'', c)] \<and>
    distributeTcpInfo p' = (peer a q)\<lparr>clientNum := int (length clients)\<rparr> # map (\<lambda>(a, q). peer a q) clients"
proof -
  let ?n = "textOf (str w) @ CONFIGFILE" and ?info = "map packed (entries (str c))" and ?k = "length clients"
  have d: "map_of (entries (str c)) ''client-num'' = Some (sprintf_d (int ?k))" "map_of (entries (str c)) ''distribute-address'' = Some a"
    "map_of (entries (str c)) ''distribute-port'' = Some (sprintf_d q)" "int32 q" "int32 (int ?k)"
    using assms(5,6) by (simp_all add: describes_def int32_def)
  note v = entry_value [OF assms(4) d(2)]
  have ca: "cstr (pad 128 a) = Inr a" using v by simp
  let ?m = "(peer a q)\<lparr>clientNum := int ?k\<rparr>"
  let ?cl = "\<lambda>i. peer (fst (clients ! (i - 1))) (snd (clients ! (i - 1)))"
  define l where "l = emitted (Log DEBUG ''%d %s :%d'' [D 348, S ''distribute connected clients number are'', D (int ?k)])
    (emitted (Log DEBUG ''%d %s :%d'' [D 346, S ''distribute port is'', D q]) (emitted (Log DEBUG ''%d %s :%s'' [D 344, S ''distribute address is'', S a])
    (emitted (Log INFO ''%d %s :%d'' [D 332, S ''client number is'', D (int ?k)]) (called (Fopen ?n ''r'') (called Getcwd p)))))"
  from parse_clients_run [of "[1..<Suc ?k]", where t = "?m # replicate ?k zero_tcp" and p = l, OF ballI, OF described_clients [OF assms(4-6), where m = ?m]] obtain es p' where
    p': "parse_clients ?info [1..<Suc ?k] (?m # replicate ?k zero_tcp) l = (Inr (?m # map (\<lambda>i. ?cl (Suc i)) [0..<?k]), p')"
      "inp p' = inp l" "trc p' = trc l @ es" "acts es = []"
    unfolding filled_table by blast
  have t: "map (\<lambda>i. ?cl (Suc i)) [0..<?k] = map (\<lambda>(a, q). peer a q) clients"
    by (rule nth_equalityI) (auto split: prod.splits)
  have 1: "config_path p = (Inr (pad 512 ?n), called Getcwd p)" using config_path_run [of p] assms(1,2) by simp
  have 2: "load_config (pad 512 ?n) (called Getcwd p) = (Inr ?info, called (Fopen ?n ''r'') (called Getcwd p))"
    using load_config_run [of "pad 512 ?n" ?n "called Getcwd p"] assms(1-4) by simp
  have 3: "(replicate (Suc ?k) zero_tcp)[0 := m] = m # replicate ?k zero_tcp" for m by simp
  have 4: "nat (int ?k + 1) = Suc ?k" "nat (int ?k) = ?k" by simp_all
  have r: "parseFile_distributeTcpInfo p = (Inr (), p'\<lparr>distributeTcpInfo := ?m # map (\<lambda>(a, q). peer a q) clients\<rparr>)"
    unfolding parseFile_distributeTcpInfo_def bindM_def [of config_path] 1 prod.case sum.case bindM_def [of "load_config x" for x] 2
    using p'(1) [unfolded t l_def] v
    by (simp add: info_value_entries [OF assms(4)] d atoi_int32 step_run pad_strcpy [OF ca] text_of_def ca Let_def 3 4 peer_def [of a q] setR_def
        bindM_def [of "parse_clients x y z" for x y z] prog_run del: upt_Suc replicate_Suc)
  have tr: "trc l = trc p @ [(Getcwd, w), (Fopen ?n ''r'', c), (Log INFO ''%d %s :%d'' [D 332, S ''client number is'', D (int ?k)], no_ret),
      (Log DEBUG ''%d %s :%s'' [D 344, S ''distribute address is'', S a], no_ret), (Log DEBUG ''%d %s :%d'' [D 346, S ''distribute port is'', D q], no_ret),
      (Log DEBUG ''%d %s :%d'' [D 348, S ''distribute connected clients number are'', D (int ?k)], no_ret)]" (is "_ = _ @ ?es")
    using assms(1) by (simp add: l_def)
  have 5: "inp p' = rest" "acts (?es @ es) = [(Getcwd, w), (Fopen ?n ''r'', c)]"
    using assms(1) p'(2,4) by (simp_all add: l_def quiet_def)
  show ?thesis
    by (rule exI [of _ "?es @ es"], rule exI [of _ "p'\<lparr>distributeTcpInfo := ?m # map (\<lambda>(a, q). peer a q) clients\<rparr>"], intro conjI r)
      (use 5 p'(3) tr in simp_all)
qed

text \<open>
  C7. Reading the configuration gives the table it describes: the server's address and
  port and the number of clients in the first entry, and then an entry for each
  client, with its address and port and everything else zero.  When the addresses are
  internet addresses of less than 122 characters, this is a table the server keeps
  well formed.
\<close>

theorem table_of_config:
  assumes "inp p = w # c # rest" "length (textOf (str w)) < 500" "rv c \<noteq> 0" "\<forall>kv \<in> set (entries (str c)). fits kv"
    and "describes (entries (str c)) (a, q) clients" "length clients \<le> 9999"
  shows "\<exists>es p'. parseFile_distributeTcpInfo p = (Inr (), p') \<and> inp p' = rest \<and> trc p' = trc p @ es \<and>
    acts es = [(Getcwd, w), (Fopen (textOf (str w) @ CONFIGFILE) ''r'', c)] \<and>
    distributeTcpInfo p' = (peer a q)\<lparr>clientNum := int (length clients)\<rparr> # map (\<lambda>(a, q). peer a q) clients \<and>
    ((\<forall>x \<in> set (a # map fst clients). length x < 122 \<and> (\<exists>ip. inet_addr (pad 128 x) = Inr ip)) \<longrightarrow> peers_ok (distributeTcpInfo p'))"
proof -
  obtain es p' where p': "parseFile_distributeTcpInfo p = (Inr (), p')" "inp p' = rest" "trc p' = trc p @ es"
    "acts es = [(Getcwd, w), (Fopen (textOf (str w) @ CONFIGFILE) ''r'', c)]"
    "distributeTcpInfo p' = (peer a q)\<lparr>clientNum := int (length clients)\<rparr> # map (\<lambda>(a, q). peer a q) clients"
    using parse_table [OF assms] by blast
  have "\<forall>x \<in> set (a # map fst clients). cstr (pad 128 x) = Inr x" using described_address [OF assms(4-6)] by blast
  with peers_ok_table have "(\<forall>x \<in> set (a # map fst clients). length x < 122 \<and> (\<exists>ip. inet_addr (pad 128 x) = Inr ip)) \<longrightarrow>
      peers_ok (distributeTcpInfo p')" unfolding p'(5) by blast
  with p' show ?thesis by blast
qed

definition peers_config :: string where
  "peers_config = printConfig [(''client-num'', ''1''), (''distribute-address'', ''192.168.30.3''), (''distribute-port'', ''60003''),
     (''client1-address'', ''10.0.0.7''), (''client1-port'', ''9999'')]"

lemma peers_entries: "entries peers_config = [(''client-num'', ''1''), (''distribute-address'', ''192.168.30.3''), (''distribute-port'', ''60003''),
    (''client1-address'', ''10.0.0.7''), (''client1-port'', ''9999'')]"
  by code_simp

lemma peers_described: "describes (entries peers_config) (''192.168.30.3'', 60003) [(''10.0.0.7'', 9999)]"
  by (simp add: describes_def peers_entries int32_def client_key_def sprintf_d_eq itoa_word_step itoa_lower_digits_def)

theorem table_of_config_witness:
  "\<exists>es p'. parseFile_distributeTcpInfo (boot [no_ret\<lparr>str := ''/srv''\<rparr>, no_ret\<lparr>rv := 5, str := peers_config\<rparr>] []) = (Inr (), p') \<and>
    trc p' = [] @ es \<and>
    distributeTcpInfo p' = [(peer ''192.168.30.3'' 60003)\<lparr>clientNum := 1\<rparr>, peer ''10.0.0.7'' 9999]"
  using table_of_config [of "boot [no_ret\<lparr>str := ''/srv''\<rparr>, no_ret\<lparr>rv := 5, str := peers_config\<rparr>] []" "no_ret\<lparr>str := ''/srv''\<rparr>"
      "no_ret\<lparr>rv := 5, str := peers_config\<rparr>" "[]" "''192.168.30.3''" 60003 "[(''10.0.0.7'', 9999)]"] peers_described
  by (auto simp: textOf_def peers_entries fits_def)

end
