(* ===== verification/Handoff.thy ===== *)
theory Handoff
  imports Prelude
begin

text \<open>
  The interleaving of \<open>distribute_run\<close> with the threads it creates (\<^verbatim>\<open>util.c\<close>).  The loop
  takes the mutex \<open>mute\<close>, writes the client's index into the parameter that all threads
  share and creates the thread; the thread reads the index as often as it likes and
  gives the mutex back as its last action.  The steps below are those of the loop and
  of the threads in any order; the lemmas show that the threads nevertheless run one
  after the other, each with its own index, which is how theory \<open>Distribute\<close> runs them.
\<close>

section \<open>States and steps\<close>

datatype main_pc = Lock nat | Set_index nat | Create nat | Join nat | Over

datatype thread = Active | Unlocked | Missing

record handoff =
  mute :: bool
  clientIndex :: nat
  main_pc :: main_pc
  tids :: "thread list"
  uses :: "(nat \<times> nat) list"

text \<open>
  \<open>uses\<close> is a history: which thread used which index.  A thread that \<open>pthread_create\<close> did
  not create is \<open>Missing\<close>; nobody gives its mutex back.
\<close>

definition handoff_start :: handoff where
  "handoff_start = \<lparr>mute = False, clientIndex = 0, main_pc = Lock 0, tids = [], uses = []\<rparr>"

inductive handoff_step :: "nat \<Rightarrow> handoff \<Rightarrow> handoff \<Rightarrow> bool" for clientNum :: nat where
  lock: "main_pc s = Lock i \<Longrightarrow> i < clientNum \<Longrightarrow> \<not> mute s \<Longrightarrow>
    handoff_step clientNum s (s\<lparr>mute := True, main_pc := Set_index i\<rparr>)"
| loop_end: "main_pc s = Lock i \<Longrightarrow> \<not> i < clientNum \<Longrightarrow> handoff_step clientNum s (s\<lparr>main_pc := Join 0\<rparr>)"
| set_index: "main_pc s = Set_index i \<Longrightarrow> handoff_step clientNum s (s\<lparr>clientIndex := i + 1, main_pc := Create i\<rparr>)"
| create: "main_pc s = Create i \<Longrightarrow> t = Active \<or> t = Missing \<Longrightarrow>
    handoff_step clientNum s (s\<lparr>tids := tids s @ [t], main_pc := Lock (i + 1)\<rparr>)"
| use_index: "k < length (tids s) \<Longrightarrow> tids s ! k = Active \<Longrightarrow>
    handoff_step clientNum s (s\<lparr>uses := uses s @ [(k, clientIndex s)]\<rparr>)"
| unlock: "k < length (tids s) \<Longrightarrow> tids s ! k = Active \<Longrightarrow>
    handoff_step clientNum s (s\<lparr>tids := (tids s)[k := Unlocked], mute := False\<rparr>)"
| join: "main_pc s = Join k \<Longrightarrow> k < clientNum \<Longrightarrow> tids s ! k = Unlocked \<Longrightarrow>
    handoff_step clientNum s (s\<lparr>main_pc := Join (k + 1)\<rparr>)"
| joined: "main_pc s = Join k \<Longrightarrow> \<not> k < clientNum \<Longrightarrow> handoff_step clientNum s (s\<lparr>main_pc := Over\<rparr>)"

inductive_cases handoff_stepE: "handoff_step n s s'"

inductive handoff_reach :: "nat \<Rightarrow> handoff \<Rightarrow> bool" for clientNum :: nat where
  reach_start: "handoff_reach clientNum handoff_start"
| reach_step: "handoff_reach clientNum s \<Longrightarrow> handoff_step clientNum s s' \<Longrightarrow> handoff_reach clientNum s'"

section \<open>The invariant\<close>

fun created :: "nat \<Rightarrow> main_pc \<Rightarrow> nat" where
  "created n (Lock i) = i"
| "created n (Set_index i) = i"
| "created n (Create i) = i"
| "created n (Join k) = n"
| "created n Over = n"

definition holding :: "main_pc \<Rightarrow> bool" where
  "holding pc \<longleftrightarrow> (case pc of Set_index _ \<Rightarrow> True | Create _ \<Rightarrow> True | _ \<Rightarrow> False)"

definition handoff_inv :: "nat \<Rightarrow> handoff \<Rightarrow> bool" where
  "handoff_inv n s \<longleftrightarrow>
     length (tids s) = created n (main_pc s) \<and> created n (main_pc s) \<le> n \<and>
     (holding (main_pc s) \<longrightarrow> created n (main_pc s) < n) \<and>
     (\<forall>k. Suc k < length (tids s) \<longrightarrow> tids s ! k = Unlocked) \<and>
     (mute s \<longleftrightarrow> holding (main_pc s) \<or> tids s \<noteq> [] \<and> last (tids s) \<noteq> Unlocked) \<and>
     (holding (main_pc s) \<longrightarrow> tids s = [] \<or> last (tids s) = Unlocked) \<and>
     (\<forall>i. main_pc s = Create i \<longrightarrow> clientIndex s = Suc i) \<and>
     (tids s \<noteq> [] \<and> last (tids s) = Active \<longrightarrow> clientIndex s = length (tids s)) \<and>
     (\<forall>k. main_pc s = Join k \<longrightarrow> k \<le> n \<and> (\<forall>j < k. tids s ! j = Unlocked)) \<and>
     (main_pc s = Over \<longrightarrow> (\<forall>j < n. tids s ! j = Unlocked)) \<and>
     (\<forall>(k, v) \<in> set (uses s). v = Suc k \<and> k < length (tids s)) \<and> sorted (map fst (uses s))"

lemma last_nth: "Suc k = length xs \<Longrightarrow> xs ! k = last xs"
  by (cases xs rule: rev_cases) simp_all

lemma invD:
  assumes "handoff_inv n s"
  shows "length (tids s) = created n (main_pc s)" "created n (main_pc s) \<le> n"
    "holding (main_pc s) \<Longrightarrow> created n (main_pc s) < n" "Suc k < length (tids s) \<Longrightarrow> tids s ! k = Unlocked"
    "mute s \<longleftrightarrow> holding (main_pc s) \<or> tids s \<noteq> [] \<and> last (tids s) \<noteq> Unlocked"
    "holding (main_pc s) \<Longrightarrow> tids s = [] \<or> last (tids s) = Unlocked"
    "tids s \<noteq> [] \<Longrightarrow> last (tids s) = Active \<Longrightarrow> clientIndex s = length (tids s)"
    "main_pc s = Over \<Longrightarrow> j < n \<Longrightarrow> tids s ! j = Unlocked" "main_pc s = Join k \<Longrightarrow> k \<le> n"
  using assms unfolding handoff_inv_def by simp_all

lemma inv_active:
  assumes "handoff_inv n s" "k < length (tids s)" "tids s ! k = Active"
  shows "Suc k = length (tids s)" "last (tids s) = Active" "clientIndex s = Suc k" "\<not> holding (main_pc s)" "mute s" "tids s \<noteq> []"
proof -
  have "\<not> Suc k < length (tids s)" using invD(4) [OF assms(1)] assms(3) by force
  with assms(2) show k: "Suc k = length (tids s)" by simp
  then have "tids s ! k = last (tids s)" by (rule last_nth)
  with assms(3) show l: "last (tids s) = Active" by simp
  show e: "tids s \<noteq> []" using k by auto
  show "clientIndex s = Suc k" using invD(7) [OF assms(1) e l] k by simp
  show "\<not> holding (main_pc s)" using invD(6) [OF assms(1)] e l by auto
  show "mute s" using invD(5) [OF assms(1)] e l by simp
qed

lemma inv_step:
  assumes "handoff_inv n s" "handoff_step n s s'"
  shows "handoff_inv n s'"
  using assms(2)
proof (cases rule: handoff_step.cases)
  case (lock i)
  with assms(1) show ?thesis by (auto simp: handoff_inv_def holding_def)
next
  case (loop_end i)
  with assms(1) show ?thesis by (auto simp: handoff_inv_def holding_def)
next
  case (set_index i)
  with assms(1) show ?thesis by (auto simp: handoff_inv_def holding_def)
next
  case (create i t)
  with assms(1) show ?thesis
    by (auto simp: handoff_inv_def holding_def nth_append less_Suc_eq last_nth)
next
  case (use_index k)
  with assms(1) inv_active [OF assms(1) use_index(2,3)] show ?thesis
    by (auto simp: handoff_inv_def sorted_append)
next
  case (unlock k)
  with assms(1) inv_active [OF assms(1) unlock(2,3)] show ?thesis
    by (auto simp: handoff_inv_def nth_list_update last_list_update)
next
  case (join k)
  with assms(1) show ?thesis by (auto simp: handoff_inv_def holding_def less_Suc_eq)
next
  case (joined k)
  with assms(1) show ?thesis by (auto simp: handoff_inv_def holding_def)
qed

lemma reach_inv: "handoff_reach n s \<Longrightarrow> handoff_inv n s"
proof (induction rule: handoff_reach.induct)
  case reach_start
  show ?case by (simp add: handoff_inv_def handoff_start_def holding_def)
next
  case (reach_step s s')
  then show ?case by (blast intro: inv_step)
qed

section \<open>Properties\<close>

text \<open>
  C5. The threads run one after the other: in every interleaving at most one thread is
  between its creation and its last action, each use of the shared index by a thread
  finds the thread's own number, the uses are in the order of the clients, and when
  the function ends all threads have done their work.
\<close>

theorem handoff_serial:
  assumes "handoff_reach n s"
  shows "(\<forall>(k, v) \<in> set (uses s). v = Suc k) \<and> sorted (map fst (uses s)) \<and>
    (\<forall>j < length (tids s). \<forall>k < length (tids s). tids s ! j = Active \<and> tids s ! k = Active \<longrightarrow> j = k) \<and>
    (main_pc s = Over \<longrightarrow> tids s = replicate n Unlocked)"
proof (intro conjI)
  note inv = reach_inv [OF assms]
  show "\<forall>(k, v) \<in> set (uses s). v = Suc k" "sorted (map fst (uses s))" using inv by (auto simp: handoff_inv_def)
  show "\<forall>j < length (tids s). \<forall>k < length (tids s). tids s ! j = Active \<and> tids s ! k = Active \<longrightarrow> j = k"
  proof (intro allI impI)
    fix j k assume "j < length (tids s)" "k < length (tids s)" "tids s ! j = Active \<and> tids s ! k = Active"
    then have "Suc j = length (tids s)" "Suc k = length (tids s)" using inv_active(1) [OF inv] by blast+
    then show "j = k" by simp
  qed
  show "main_pc s = Over \<longrightarrow> tids s = replicate n Unlocked"
    using invD(1,8) [OF inv] by (simp add: list_eq_iff_nth_eq)
qed

fun pc_left :: "nat \<Rightarrow> main_pc \<Rightarrow> nat" where
  "pc_left n (Lock i) = 4 * (n - i) + n + 2"
| "pc_left n (Set_index i) = 4 * (n - i) + n + 1"
| "pc_left n (Create i) = 4 * (n - i) + n"
| "pc_left n (Join k) = n - k + 1"
| "pc_left n Over = 0"

definition steps_left :: "nat \<Rightarrow> handoff \<Rightarrow> nat" where
  "steps_left n s = pc_left n (main_pc s) + length (filter (\<lambda>t. t = Active) (tids s))"

lemma filter_unlock:
  "k < length ts \<Longrightarrow> ts ! k = Active \<Longrightarrow> length (filter (\<lambda>t. t = Active) (ts[k := Unlocked])) < length (filter (\<lambda>t. t = Active) ts)"
proof (induction ts arbitrary: k)
  case (Cons t ts)
  then show ?case by (cases k) auto
qed simp

lemma step_left:
  assumes "handoff_inv n s" "handoff_step n s s'"
  shows "steps_left n s' < steps_left n s \<or> (\<exists>u. s' = s\<lparr>uses := uses s @ [u]\<rparr>)"
  using assms(2)
proof (cases rule: handoff_step.cases)
  case (unlock k)
  then show ?thesis using filter_unlock [of k "tids s"] by (simp add: steps_left_def)
next
  case (create i t)
  then show ?thesis using invD(3) [OF assms(1)] by (auto simp: steps_left_def holding_def)
next
  case (use_index k)
  then show ?thesis by blast
next
  case (join k)
  then show ?thesis by (intro disjI1) (simp add: steps_left_def)
qed (use invD(2) [OF assms(1)] in \<open>simp_all add: steps_left_def\<close>)

lemma one_active:
  assumes "handoff_inv n s"
  shows "length (filter (\<lambda>t. t = Active) (tids s)) \<le> (if \<not> holding (main_pc s) \<and> tids s \<noteq> [] then 1 else 0)"
proof (cases "tids s" rule: rev_cases)
  case (snoc ts t)
  have "ts ! k = Unlocked" if "k < length ts" for k
    using invD(4) [OF assms, of k] that by (simp add: snoc nth_append)
  then have "filter (\<lambda>t. t = Active) ts = []" by (auto simp: filter_empty_conv in_set_conv_nth)
  moreover have "holding (main_pc s) \<Longrightarrow> t = Unlocked" using invD(6) [OF assms] by (simp add: snoc)
  ultimately show ?thesis by (simp add: snoc)
qed simp

lemma inv_left: "handoff_inv n s \<Longrightarrow> steps_left n s \<le> 5 * n + 2"
  using one_active [of n s] invD(1,2,9) [of n s] by (cases "main_pc s"; cases "tids s") (auto simp: steps_left_def holding_def split: if_splits)

text \<open>While a thread is active it can unlock; otherwise the loop can go on.\<close>

lemma other_step:
  assumes "handoff_inv n s" "handoff_step n s s'" "main_pc s' \<noteq> main_pc s \<or> tids s' \<noteq> tids s"
  shows "\<exists>s'. handoff_step n s s' \<and> steps_left n s' < steps_left n s"
proof -
  have "s' \<noteq> s\<lparr>uses := uses s @ [u]\<rparr>" for u using assms(3) by auto
  with step_left [OF assms(1,2)] assms(2) show ?thesis by blast
qed

lemma inv_progress:
  assumes "handoff_inv n s" "main_pc s \<noteq> Over" "Missing \<notin> set (tids s)"
  shows "\<exists>s'. handoff_step n s s' \<and> steps_left n s' < steps_left n s"
proof (cases "Active \<in> set (tids s)")
  case True
  then obtain k where k: "k < length (tids s)" "tids s ! k = Active" by (auto simp: in_set_conv_nth)
  then have "(tids s)[k := Unlocked] \<noteq> tids s" by (metis nth_list_update_eq thread.distinct(1))
  then show ?thesis by (intro other_step [OF assms(1) handoff_step.unlock [OF k]]) simp
next
  case False
  have u: "\<forall>t \<in> set (tids s). t = Unlocked" using False assms(3) by (metis thread.exhaust)
  show ?thesis
  proof (cases "main_pc s")
    case (Lock i)
    then have m: "\<not> mute s" using invD(5) [OF assms(1)] u by (auto simp: holding_def)
    show ?thesis
    proof (cases "i < n")
      case True
      show ?thesis by (rule other_step [OF assms(1) handoff_step.lock [OF Lock True m]]) (simp add: Lock)
    next
      case False
      show ?thesis by (rule other_step [OF assms(1) handoff_step.loop_end [OF Lock False]]) (simp add: Lock)
    qed
  next
    case (Set_index i)
    show ?thesis by (rule other_step [OF assms(1) handoff_step.set_index [OF Set_index]]) (simp add: Set_index)
  next
    case (Create i)
    show ?thesis by (rule other_step [OF assms(1) handoff_step.create [OF Create, of Active]]) (simp_all add: Create)
  next
    case (Join k)
    show ?thesis
    proof (cases "k < n")
      case True
      then have "tids s ! k = Unlocked" using u invD(1) [OF assms(1)] Join by simp
      from other_step [OF assms(1) handoff_step.join [OF Join True this]] show ?thesis by (simp add: Join)
    next
      case False
      show ?thesis by (rule other_step [OF assms(1) handoff_step.joined [OF Join False]]) (simp add: Join)
    qed
  qed (use assms(2) in simp)
qed

lemma inv_stuck:
  assumes "handoff_inv n s" "Missing \<in> set (tids s)" "main_pc s = Lock (length (tids s))" "length (tids s) < n"
  shows "\<not> handoff_step n s s'"
proof
  from assms(2) obtain ts t where ts: "tids s = ts @ [t]" by (cases "tids s" rule: rev_cases) auto
  obtain k where k: "k < length (tids s)" "tids s ! k = Missing" using assms(2) by (auto simp: in_set_conv_nth)
  then have "\<not> Suc k < length (tids s)" using invD(4) [OF assms(1)] by force
  then have "last (tids s) = Missing" using k last_nth [of k "tids s"] by simp
  then have m: "mute s" and a: "\<And>j. j < length (tids s) \<Longrightarrow> tids s ! j \<noteq> Active"
    using invD(5) [OF assms(1)] ts inv_active(2) [OF assms(1)] by auto
  assume "handoff_step n s s'"
  then show False by (rule handoff_stepE) (use m a assms(3,4) in auto)
qed


text \<open>Two clients, the first thread at work.\<close>

lemma handoff_demo:
  "handoff_reach 2 \<lparr>mute = True, clientIndex = 1, main_pc = Lock 1, tids = [Active], uses = []\<rparr>"
proof -
  have 1: "handoff_reach 2 \<lparr>mute = True, clientIndex = 0, main_pc = Set_index 0, tids = [], uses = []\<rparr>"
    using handoff_reach.reach_step [OF reach_start handoff_step.lock [of handoff_start 0 2]] by (simp add: handoff_start_def)
  have 2: "handoff_reach 2 \<lparr>mute = True, clientIndex = 1, main_pc = Create 0, tids = [], uses = []\<rparr>"
    using handoff_reach.reach_step [OF 1 handoff_step.set_index] by simp
  show ?thesis using handoff_reach.reach_step [OF 2 handoff_step.create [of _ 0 Active]] by simp
qed

theorem handoff_serial_witness:
  "handoff_reach 2 \<lparr>mute = True, clientIndex = 1, main_pc = Lock 1, tids = [Active], uses = [(0, 1)]\<rparr> \<and>
   snd (hd (uses \<lparr>mute = True, clientIndex = 1, main_pc = Lock 1, tids = [Active], uses = [(0, 1)]\<rparr>)) = Suc 0"
proof -
  have "handoff_reach 2 \<lparr>mute = True, clientIndex = 1, main_pc = Lock 1, tids = [Active], uses = [(0, 1)]\<rparr>"
    using handoff_reach.reach_step [OF handoff_demo handoff_step.use_index [of 0]] by simp
  with handoff_serial [OF this] show ?thesis by simp
qed


end
