(* ===== verification/ThreadPool.thy ===== *)
theory ThreadPool
  imports ConfigFile
begin

text \<open>
  The thread pool, \<^verbatim>\<open>threadpool.c\<close>: the ring of tasks, the counters, and the steps of
  workers, adders, the adjusting thread and the destroyer.  Everything between
  taking and releasing the pool's lock is one operation on the pool; a thread that
  waits on a condition variable has released the lock and runs its test again when it
  wakes up, for whatever reason.  The memory of the queue holds what \<open>malloc\<close> found
  there, and \<open>free\<close> of anything but an allocated block is a fault.
\<close>

section \<open>The pool\<close>

type_synonym pointer = nat

abbreviation (input) NULL :: pointer where "NULL \<equiv> 0"

record threadpool_task_t =
  task_function :: pointer
  task_arg :: pointer

text \<open>A pointer of the structure: not yet assigned, null, or to a block.\<close>

datatype 'a cell = Wild | Null | To 'a

record threadpool_t =
  threads :: "pointer list cell"
  task_queue :: "threadpool_task_t list cell"
  mutexes :: bool
  min_thr_num :: int
  max_thr_num :: int
  live_thr_num :: int
  busy_thr_num :: int
  wait_exit_thr_num :: int
  queue_front :: int
  queue_rear :: int
  queue_size :: int
  queue_max_size :: int
  shutdown :: bool
  heap :: "pointer list"

text \<open>\<open>mutexes\<close>: the locks and conditions are initialised; \<open>heap\<close>: the allocated blocks tasks point to.\<close>

definition DEFAULT_THREAD_VARY :: int where "DEFAULT_THREAD_VARY = 3"

definition MIN_WAIT_TASK_NUM :: int where "MIN_WAIT_TASK_NUM = 10"

definition deref :: "'a cell \<Rightarrow> 'a cres" where
  "deref c = (case c of Wild \<Rightarrow> Inl Uninit | Null \<Rightarrow> Inl NullDeref | To x \<Rightarrow> Inr x)"

definition free :: "pointer \<Rightarrow> threadpool_t \<Rightarrow> threadpool_t cres" where
  "free a p = (if a \<in> set (heap p) then Inr (p\<lparr>heap := removeAll a (heap p)\<rparr>) else Inl UseAfterFree)"

section \<open>Creation and release\<close>

text \<open>
  \<open>threadpool_free\<close>: the pool itself is gone afterwards.  It looks at \<open>task_queue\<close> and, when
  there are threads, unlocks and destroys the locks.
\<close>

definition threadpool_free :: "threadpool_t option \<Rightarrow> int cres" where
  "threadpool_free pool =
     (case pool of None \<Rightarrow> Inr EXIT_FAIL_CODE
      | Some p \<Rightarrow>
          if task_queue p = Wild then Inl Uninit
          else (case threads p of Wild \<Rightarrow> Inl Uninit | Null \<Rightarrow> Inr 0
                | To _ \<Rightarrow> if mutexes p then Inr 0 else Inl Uninit))"

text \<open>What the environment gives to \<open>threadpool_create\<close>: memory, locks, and the threads' handles.\<close>

record create_env =
  malloc_pool :: bool
  malloc_threads :: bool
  malloc_queue :: "threadpool_task_t list option"
  init_locks :: bool
  handles :: "pointer list"

text \<open>
  The result is the pool with its workers started, at the point where \<open>threadpool_create\<close>
  waits for them to end; or the null pointer that it returns when something failed.
\<close>

definition threadpool_create :: "create_env \<Rightarrow> int \<Rightarrow> int \<Rightarrow> int \<Rightarrow> threadpool_t option cres" where
  "threadpool_create env min_thr max_thr queue_max =
     (let failed = (\<lambda>pool. bindR (threadpool_free pool) (\<lambda>_. Inr None))
      in if \<not> malloc_pool env then failed None
         else
           let p = \<lparr>threads = Wild, task_queue = Wild, mutexes = False, min_thr_num = min_thr, max_thr_num = max_thr,
                    live_thr_num = min_thr, busy_thr_num = 0, wait_exit_thr_num = 0, queue_front = 0, queue_rear = 0,
                    queue_size = 0, queue_max_size = queue_max, shutdown = False, heap = []\<rparr>
           in if \<not> malloc_threads env then failed (Some (p\<lparr>threads := Null\<rparr>))
              else
                let p = p\<lparr>threads := To (replicate (nat max_thr) NULL)\<rparr>
                in case malloc_queue env of None \<Rightarrow> failed (Some (p\<lparr>task_queue := Null\<rparr>))
                   | Some q \<Rightarrow>
                       let p = p\<lparr>task_queue := To q\<rparr>
                       in if \<not> init_locks env then failed (Some p)
                          else
                            bindR (foldR (\<lambda>t i. setR t (int i) (handles env ! i)) (replicate (nat max_thr) NULL) [0..<nat min_thr]) (\<lambda>t.
                            Inr (Some (p\<lparr>mutexes := True, threads := To t\<rparr>))))"

text \<open>
  \<open>threadpool_destroy\<close> raises the flag, joins as many threads as are counted, from the start
  of the array, and releases the pool.
\<close>

datatype destroyer = Absent | Joining nat | Released

definition threadpool_destroy :: "(pointer \<Rightarrow> bool) \<Rightarrow> destroyer \<Rightarrow> threadpool_t \<Rightarrow> (destroyer \<times> threadpool_t) cres" where
  "threadpool_destroy ended d p =
     (case d of Absent \<Rightarrow> Inr (Joining 0, p\<lparr>shutdown := True\<rparr>)
      | Joining i \<Rightarrow>
          if int i < live_thr_num p then
            bindR (deref (threads p)) (\<lambda>ts. bindR (getR ts (int i)) (\<lambda>t.
            if ended t then Inr (Joining (Suc i), p) else Inl Blocked))
          else bindR (threadpool_free (Some p)) (\<lambda>_. Inr (Released, p))
      | Released \<Rightarrow> Inr (Released, p))"

section \<open>Tasks\<close>

definition add_waits :: "threadpool_t \<Rightarrow> bool" where
  "add_waits p \<longleftrightarrow> queue_size p = queue_max_size p \<and> \<not> shutdown p"

text \<open>
  \<open>threadpool_add\<close> behind its wait, with the number of times it unlocks: a pool that is
  shut down is unlocked and then used like any other.
\<close>

definition threadpool_add :: "pointer \<Rightarrow> pointer \<Rightarrow> threadpool_t \<Rightarrow> (threadpool_t \<times> nat) cres" where
  "threadpool_add fn a p =
     bindR (deref (task_queue p)) (\<lambda>q.
     bindR (getR q (queue_rear p)) (\<lambda>slot.
     bindR (if task_arg slot \<noteq> NULL then free (task_arg slot) p else Inr p) (\<lambda>p.
     bindR (setR q (queue_rear p) \<lparr>task_function = fn, task_arg = a\<rparr>) (\<lambda>q.
     Inr (p\<lparr>task_queue := To q, queue_rear := (queue_rear p + 1) mod queue_max_size p, queue_size := queue_size p + 1\<rparr>,
          if shutdown p then 2 else 1)))))"

text \<open>The queue operation of \<open>threadpool_thread\<close>.\<close>

definition take_task :: "threadpool_t \<Rightarrow> (threadpool_task_t \<times> threadpool_t) cres" where
  "take_task p =
     bindR (deref (task_queue p)) (\<lambda>q.
     bindR (getR q (queue_front p)) (\<lambda>task.
     Inr (task, p\<lparr>queue_front := (queue_front p + 1) mod queue_max_size p, queue_size := queue_size p - 1\<rparr>)))"

section \<open>Workers\<close>

text \<open>
  A worker before its test of the queue, waiting on the condition variable, with a
  task it has taken, running the task, or ended.
\<close>

datatype worker = Entering | Sleeping | Took threadpool_task_t | Working threadpool_task_t | Exited

definition worker_test :: "threadpool_t \<Rightarrow> (worker \<times> threadpool_t) cres" where
  "worker_test p =
     (if queue_size p = 0 \<and> \<not> shutdown p then Inr (Sleeping, p)
      else if shutdown p then Inr (Exited, p)
      else bindR (take_task p) (\<lambda>(task, p). Inr (Took task, p)))"

definition worker_wake :: "threadpool_t \<Rightarrow> (worker \<times> threadpool_t) cres" where
  "worker_wake p =
     (if wait_exit_thr_num p > 0 then
        let p = p\<lparr>wait_exit_thr_num := wait_exit_thr_num p - 1\<rparr>
        in if live_thr_num p > min_thr_num p then Inr (Exited, p\<lparr>live_thr_num := live_thr_num p - 1\<rparr>)
           else worker_test p
      else worker_test p)"

fun threadpool_thread :: "worker \<Rightarrow> threadpool_t \<Rightarrow> (worker \<times> threadpool_t) cres" where
  "threadpool_thread Entering p = worker_test p"
| "threadpool_thread Sleeping p = worker_wake p"
| "threadpool_thread (Took t) p = Inr (Working t, p\<lparr>busy_thr_num := busy_thr_num p + 1\<rparr>)"
| "threadpool_thread (Working t) p = Inr (Entering, p\<lparr>busy_thr_num := busy_thr_num p - 1\<rparr>)"
| "threadpool_thread Exited p = Inr (Exited, p)"

section \<open>The adjusting thread\<close>

text \<open>\<open>pthread_kill\<close> with signal 0, by the number it returns.\<close>

definition is_thread_alive :: "(pointer \<Rightarrow> int) \<Rightarrow> pointer \<Rightarrow> bool" where
  "is_thread_alive pthread_kill tid \<longleftrightarrow> pthread_kill tid \<noteq> 3"

text \<open>
  The loop that creates threads, over the indices of the array; \<open>new\<close> gives the handles
  of the threads that are created, and the result tells how many there are.
\<close>

fun grow_loop :: "(pointer \<Rightarrow> int) \<Rightarrow> (nat \<Rightarrow> pointer) \<Rightarrow> nat list \<Rightarrow> nat \<Rightarrow> threadpool_t \<Rightarrow> (nat \<times> threadpool_t) cres" where
  "grow_loop kill new [] added p = Inr (added, p)"
| "grow_loop kill new (i # is) added p =
     (if int added < DEFAULT_THREAD_VARY \<and> live_thr_num p < max_thr_num p then
        bindR (deref (threads p)) (\<lambda>ts.
        bindR (getR ts (int i)) (\<lambda>t.
        if t = NULL \<or> \<not> is_thread_alive kill t then
          bindR (setR ts (int i) (new added)) (\<lambda>ts.
          grow_loop kill new is (Suc added) (p\<lparr>threads := To ts, live_thr_num := live_thr_num p + 1\<rparr>))
        else grow_loop kill new is added p))
      else Inr (added, p))"

text \<open>Where the adjusting thread is, with the values it has read.\<close>

datatype adjuster = Idle | Awake | Looked int int | Counted int int int | Checked int int

section \<open>The threads together\<close>

record pool_sys =
  pool :: threadpool_t
  workers :: "worker list"
  adjust :: adjuster
  destroyer :: destroyer
  added :: "threadpool_task_t list"
  taken :: "threadpool_task_t list"

text \<open>
  The steps of all threads in any order, until the pool is released.  The handle of a
  thread is one more than its place in the list of workers.  \<open>open_pool\<close> tells whether
  \<open>threadpool_create\<close> has returned, so that its caller can add tasks and destroy the pool;
  \<open>h\<close> is what is allocated when a task is added, after what the tasks and the caller did.
\<close>

definition ended :: "worker list \<Rightarrow> pointer \<Rightarrow> bool" where
  "ended ws t \<longleftrightarrow> 0 < t \<and> t \<le> length ws \<and> ws ! (t - 1) = Exited"

inductive pool_step :: "bool \<Rightarrow> pool_sys \<Rightarrow> pool_sys \<Rightarrow> bool" for open_pool :: bool where
  work: "destroyer s \<noteq> Released \<Longrightarrow> k < length (workers s) \<Longrightarrow> threadpool_thread (workers s ! k) (pool s) = Inr (w, p) \<Longrightarrow>
    pool_step open_pool s (s\<lparr>pool := p, workers := (workers s)[k := w],
      taken := taken s @ (case (workers s ! k, w) of (Took _, _) \<Rightarrow> [] | (_, Took t) \<Rightarrow> [t] | _ \<Rightarrow> [])\<rparr>)"
| add: "destroyer s \<noteq> Released \<Longrightarrow> open_pool \<Longrightarrow> \<not> add_waits (pool s) \<Longrightarrow>
    threadpool_add fn a ((pool s)\<lparr>heap := h\<rparr>) = Inr (p, n) \<Longrightarrow>
    pool_step open_pool s (s\<lparr>pool := p, added := added s @ [\<lparr>task_function = fn, task_arg = a\<rparr>]\<rparr>)"
| awake: "destroyer s \<noteq> Released \<Longrightarrow> adjust s = Idle \<Longrightarrow> \<not> shutdown (pool s) \<Longrightarrow> pool_step open_pool s (s\<lparr>adjust := Awake\<rparr>)"
| look: "destroyer s \<noteq> Released \<Longrightarrow> adjust s = Awake \<Longrightarrow>
    pool_step open_pool s (s\<lparr>adjust := Looked (queue_size (pool s)) (live_thr_num (pool s))\<rparr>)"
| count: "destroyer s \<noteq> Released \<Longrightarrow> adjust s = Looked q l \<Longrightarrow>
    pool_step open_pool s (s\<lparr>adjust := Counted q l (busy_thr_num (pool s))\<rparr>)"
| grow: "destroyer s \<noteq> Released \<Longrightarrow> adjust s = Counted q l b \<Longrightarrow> q \<ge> MIN_WAIT_TASK_NUM \<Longrightarrow> l < max_thr_num (pool s) \<Longrightarrow>
    grow_loop kill (\<lambda>j. Suc (length (workers s) + j)) [0..<nat (max_thr_num (pool s))] 0 (pool s) = Inr (n, p) \<Longrightarrow>
    pool_step open_pool s (s\<lparr>pool := p, workers := workers s @ replicate n Entering, adjust := Checked l b\<rparr>)"
| no_grow: "destroyer s \<noteq> Released \<Longrightarrow> adjust s = Counted q l b \<Longrightarrow> \<not> (q \<ge> MIN_WAIT_TASK_NUM \<and> l < max_thr_num (pool s)) \<Longrightarrow>
    pool_step open_pool s (s\<lparr>adjust := Checked l b\<rparr>)"
| shrink: "destroyer s \<noteq> Released \<Longrightarrow> adjust s = Checked l b \<Longrightarrow> b * 2 < l \<Longrightarrow> l > min_thr_num (pool s) \<Longrightarrow>
    pool_step open_pool s (s\<lparr>pool := (pool s)\<lparr>wait_exit_thr_num := DEFAULT_THREAD_VARY\<rparr>, adjust := Idle\<rparr>)"
| no_shrink: "destroyer s \<noteq> Released \<Longrightarrow> adjust s = Checked l b \<Longrightarrow> \<not> (b * 2 < l \<and> l > min_thr_num (pool s)) \<Longrightarrow>
    pool_step open_pool s (s\<lparr>adjust := Idle\<rparr>)"
| destroy: "destroyer s \<noteq> Released \<Longrightarrow> open_pool \<Longrightarrow>
    threadpool_destroy (ended (workers s)) (destroyer s) (pool s) = Inr (d, p) \<Longrightarrow>
    pool_step open_pool s (s\<lparr>pool := p, destroyer := d\<rparr>)"

definition pool_start :: "threadpool_t \<Rightarrow> pool_sys" where
  "pool_start p = \<lparr>pool = p, workers = replicate (nat (min_thr_num p)) Entering, adjust = Idle, destroyer = Absent, added = [], taken = []\<rparr>"

inductive pool_reach :: "bool \<Rightarrow> pool_sys \<Rightarrow> pool_sys \<Rightarrow> bool" for open_pool :: bool and s0 :: pool_sys where
  pool_refl: "pool_reach open_pool s0 s0"
| pool_trans: "pool_reach open_pool s0 s \<Longrightarrow> pool_step open_pool s s' \<Longrightarrow> pool_reach open_pool s0 s'"

section \<open>The ring as a queue\<close>

text \<open>The interface: a queue that takes items at one end, when there is room, and gives them at the other.\<close>

locale fifo_queue =
  fixes ok :: "'p \<Rightarrow> bool" and items :: "'p \<Rightarrow> 'a list" and room :: "'p \<Rightarrow> bool"
    and put :: "'a \<Rightarrow> 'p \<Rightarrow> 'p cres" and get :: "'p \<Rightarrow> ('a \<times> 'p) cres"
  assumes put_law: "ok p \<Longrightarrow> room p \<Longrightarrow> put x p = Inr p' \<Longrightarrow> ok p' \<and> items p' = items p @ [x]"
    and get_law: "ok p \<Longrightarrow> items p \<noteq> [] \<Longrightarrow> \<exists>x p'. get p = Inr (x, p') \<and> ok p' \<and> items p = x # items p'"
begin

text \<open>What went in is what came out, in this order, and what is still there.\<close>

lemma conserved_put:
  "ok p \<Longrightarrow> ins = outs @ items p \<Longrightarrow> room p \<Longrightarrow> put x p = Inr p' \<Longrightarrow> ok p' \<and> ins @ [x] = outs @ items p'"
  using put_law by fastforce

lemma conserved_get:
  "ok p \<Longrightarrow> ins = outs @ items p \<Longrightarrow> items p \<noteq> [] \<Longrightarrow> get p = Inr (x, p') \<Longrightarrow> ok p' \<and> ins = (outs @ [x]) @ items p'"
  using get_law by fastforce

end

definition ring_ok :: "threadpool_t \<Rightarrow> bool" where
  "ring_ok p \<longleftrightarrow> (case task_queue p of To q \<Rightarrow> int (length q) = queue_max_size p | _ \<Rightarrow> False) \<and> 0 < queue_max_size p \<and>
     0 \<le> queue_front p \<and> queue_front p < queue_max_size p \<and> 0 \<le> queue_size p \<and> queue_size p \<le> queue_max_size p \<and>
     queue_rear p = (queue_front p + queue_size p) mod queue_max_size p"

definition queued :: "threadpool_t \<Rightarrow> threadpool_task_t list" where
  "queued p = (case task_queue p of
     To q \<Rightarrow> map (\<lambda>i. q ! nat ((queue_front p + int i) mod queue_max_size p)) [0..<nat (queue_size p)] | _ \<Rightarrow> [])"

lemma length_queued: "ring_ok p \<Longrightarrow> int (length (queued p)) = queue_size p"
  by (auto simp: ring_ok_def queued_def split: cell.splits)

text \<open>Two places of the ring less than a turn apart are different.\<close>

lemma ring_distinct:
  assumes "(0 :: int) \<le> i" "i < k" "k < n"
  shows "(f + i) mod n \<noteq> (f + k) mod n"
proof
  assume "(f + i) mod n = (f + k) mod n"
  then have "n dvd (f + k) - (f + i)" by (metis mod_eq_dvd_iff)
  then have "n dvd k - i" by simp
  then show False using assms zdvd_imp_le [of n "k - i"] by simp
qed

definition put_task :: "threadpool_task_t \<Rightarrow> threadpool_t \<Rightarrow> threadpool_t cres" where
  "put_task t p = bindR (threadpool_add (task_function t) (task_arg t) p) (\<lambda>(p, n). Inr p)"

lemma add_fields:
  assumes "threadpool_add fn a p = Inr (p', n)"
  obtains q h where "task_queue p = To q" "0 \<le> queue_rear p" "nat (queue_rear p) < length q"
    "p' = p\<lparr>heap := h, task_queue := To (q[nat (queue_rear p) := \<lparr>task_function = fn, task_arg = a\<rparr>]),
       queue_rear := (queue_rear p + 1) mod queue_max_size p, queue_size := queue_size p + 1\<rparr>"
proof -
  have f: "\<exists>h. p1 = p\<lparr>heap := h\<rparr>" if "(if task_arg slot \<noteq> NULL then free (task_arg slot) p else Inr p) = Inr p1" for slot p1
    using that by (auto simp: free_def split: if_splits intro: exI [of _ "heap p"])
  from assms obtain q slot p1 where q: "task_queue p = To q" "getR q (queue_rear p) = Inr slot"
    "(if task_arg slot \<noteq> NULL then free (task_arg slot) p else Inr p) = Inr p1"
    and r: "bindR (setR q (queue_rear p1) \<lparr>task_function = fn, task_arg = a\<rparr>) (\<lambda>q.
      Inr (p1\<lparr>task_queue := To q, queue_rear := (queue_rear p1 + 1) mod queue_max_size p1, queue_size := queue_size p1 + 1\<rparr>,
          if shutdown p1 then 2 else 1)) = Inr (p', n)"
    by (auto simp: threadpool_add_def deref_def bindR_Inr_iff split: cell.splits)
  from f [OF q(3)] obtain h where h: "p1 = p\<lparr>heap := h\<rparr>" by blast
  show ?thesis
  proof (rule that [OF q(1)])
    show "0 \<le> queue_rear p" "nat (queue_rear p) < length q" using q(2) by (simp_all add: getR_def split: if_splits)
    show "p' = p\<lparr>heap := h, task_queue := To (q[nat (queue_rear p) := \<lparr>task_function = fn, task_arg = a\<rparr>]),
       queue_rear := (queue_rear p + 1) mod queue_max_size p, queue_size := queue_size p + 1\<rparr>"
      using r by (simp add: h setR_def bindR_Inr_iff split: if_splits)
  qed
qed

interpretation tq: fifo_queue ring_ok queued "\<lambda>p. queue_size p < queue_max_size p" put_task take_task
proof
  fix p x p'
  assume ok: "ring_ok p" and room: "queue_size p < queue_max_size p" and put: "put_task x p = Inr p'"
  from put obtain n where "threadpool_add (task_function x) (task_arg x) p = Inr (p', n)"
    by (auto simp: put_task_def bindR_Inr_iff)
  then obtain q h where q: "task_queue p = To q" "0 \<le> queue_rear p" "nat (queue_rear p) < length q"
    and "p' = p\<lparr>heap := h, task_queue := To (q[nat (queue_rear p) := \<lparr>task_function = task_function x, task_arg = task_arg x\<rparr>]),
       queue_rear := (queue_rear p + 1) mod queue_max_size p, queue_size := queue_size p + 1\<rparr>"
    by (rule add_fields)
  then have p': "p' = p\<lparr>heap := h, task_queue := To (q[nat (queue_rear p) := x]),
       queue_rear := (queue_rear p + 1) mod queue_max_size p, queue_size := queue_size p + 1\<rparr>" by (cases x) simp
  have l: "0 < queue_max_size p" "0 \<le> queue_size p" and r: "queue_rear p = (queue_front p + queue_size p) mod queue_max_size p"
    using ok by (simp_all add: ring_ok_def)
  have "(q[nat (queue_rear p) := x]) ! nat ((queue_front p + int i) mod queue_max_size p) = q ! nat ((queue_front p + int i) mod queue_max_size p)"
    if "i < nat (queue_size p)" for i
  proof (rule nth_list_update_neq)
    have "int i < queue_size p" using that by simp
    from ring_distinct [OF _ this room, of "queue_front p"]
    show "nat (queue_rear p) \<noteq> nat ((queue_front p + int i) mod queue_max_size p)" using l by (simp add: r eq_nat_nat_iff)
  qed
  moreover have "(q[nat (queue_rear p) := x]) ! nat ((queue_front p + int (nat (queue_size p))) mod queue_max_size p) = x"
    using l q(3) by (simp add: r)
  moreover have "nat (queue_size p + 1) = Suc (nat (queue_size p))" using l by simp
  ultimately have "queued p' = queued p @ [x]" by (simp add: queued_def p' q(1))
  moreover have "ring_ok p'"
    using ok room q(1) by (simp add: ring_ok_def p' mod_add_left_eq add.assoc)
  ultimately show "ring_ok p' \<and> queued p' = queued p @ [x]" by blast
next
  fix p
  assume ok: "ring_ok p" and ne: "queued p \<noteq> []"
  obtain q where q: "task_queue p = To q" "int (length q) = queue_max_size p" using ok by (auto simp: ring_ok_def split: cell.splits)
  have "0 < queue_size p" using ne length_queued [OF ok] by (metis length_greater_0_conv of_nat_0_less_iff)
  then have l: "0 \<le> queue_front p" "queue_front p < queue_max_size p" "0 < queue_size p" "queue_size p \<le> queue_max_size p"
    using ok by (simp_all add: ring_ok_def)
  let ?p = "p\<lparr>queue_front := (queue_front p + 1) mod queue_max_size p, queue_size := queue_size p - 1\<rparr>"
  have t: "take_task p = Inr (q ! nat (queue_front p), ?p)" using l q by (simp add: take_task_def deref_def getR_def nat_less_iff)
  have n: "nat (queue_size p) = Suc (nat (queue_size p - 1))" using l by simp
  have "queued p = q ! nat (queue_front p) # queued ?p"
    unfolding queued_def q(1) cell.case n using l q(1)
    by (simp add: map_upt_Suc mod_add_left_eq add.assoc add.commute [of 1] del: upt_Suc)
  moreover have "ring_ok ?p" using ok l q(1) by (simp add: ring_ok_def mod_add_left_eq)
  ultimately show "\<exists>x p'. take_task p = Inr (x, p') \<and> ring_ok p' \<and> queued p = x # queued p'" using t by blast
qed

section \<open>Invariant of the pool\<close>

definition counts :: "worker list \<Rightarrow> int \<times> int" where
  "counts ws = (int (length (filter (\<lambda>w. w \<noteq> Exited) ws)), int (length (filter (\<lambda>w. \<exists>t. w = Working t) ws)))"

text \<open>
  While the pool is not shut down: the ring is well formed, the tasks taken and the tasks
  queued are the tasks added, in this order, and the counters count what they should.
\<close>

definition pool_inv :: "pool_sys \<Rightarrow> bool" where
  "pool_inv s \<longleftrightarrow> (let p = pool s in \<not> shutdown p \<longrightarrow>
     ring_ok p \<and> added s = taken s @ queued p \<and> counts (workers s) = (live_thr_num p, busy_thr_num p) \<and>
     min_thr_num p \<le> live_thr_num p \<and> live_thr_num p \<le> max_thr_num p \<and>
     0 \<le> wait_exit_thr_num p \<and> wait_exit_thr_num p \<le> DEFAULT_THREAD_VARY)"

lemma counts_simps:
  "counts (ws @ vs) = (fst (counts ws) + fst (counts vs), snd (counts ws) + snd (counts vs))"
  "counts (replicate n Entering) = (int n, 0)"
  by (simp_all add: counts_def)

lemma counts_Cons:
  "counts (w # ws) = (fst (counts ws) + (if w \<noteq> Exited then 1 else 0), snd (counts ws) + (if \<exists>t. w = Working t then 1 else 0))"
  by (simp add: counts_def)

lemma counts_update:
  assumes "k < length ws"
  shows "counts (ws[k := w]) =
    (fst (counts ws) - (if ws ! k \<noteq> Exited then 1 else 0) + (if w \<noteq> Exited then 1 else 0),
     snd (counts ws) - (if \<exists>t. ws ! k = Working t then 1 else 0) + (if \<exists>t. w = Working t then 1 else 0))"
  using assms
proof (induction ws arbitrary: k)
  case (Cons v ws)
  then show ?case by (cases k) (simp_all add: counts_Cons)
qed simp

lemma grow_loop_counts:
  assumes "grow_loop kill new is n p = Inr (m, p')"
  shows "n \<le> m \<and> (live_thr_num p \<le> max_thr_num p \<longrightarrow> live_thr_num p + int (m - n) \<le> max_thr_num p) \<and>
    (\<exists>ts. p' = p\<lparr>threads := ts, live_thr_num := live_thr_num p + int (m - n)\<rparr>)"
  using assms
proof (induction "is" arbitrary: n p)
  case Nil
  then show ?case by (auto intro: exI [of _ "threads p"])
next
  case (Cons i "is")
  show ?case
  proof (cases "int n < DEFAULT_THREAD_VARY \<and> live_thr_num p < max_thr_num p")
    case True
    with Cons.prems obtain ts t where t: "threads p = To ts" "getR ts (int i) = Inr t"
      and r: "(if t = NULL \<or> \<not> is_thread_alive kill t then
          bindR (setR ts (int i) (new n)) (\<lambda>ts.
          grow_loop kill new is (Suc n) (p\<lparr>threads := To ts, live_thr_num := live_thr_num p + 1\<rparr>))
        else grow_loop kill new is n p) = Inr (m, p')"
      by (auto simp: deref_def bindR_Inr_iff split: cell.splits)
    show ?thesis
    proof (cases "t = NULL \<or> \<not> is_thread_alive kill t")
      case new: True
      with r obtain us where "grow_loop kill new is (Suc n) (p\<lparr>threads := To us, live_thr_num := live_thr_num p + 1\<rparr>) = Inr (m, p')"
        by (auto simp: bindR_Inr_iff)
      from Cons.IH [OF this] True show ?thesis by (auto simp: of_nat_diff)
    next
      case False
      with r have "grow_loop kill new is n p = Inr (m, p')" by simp
      then show ?thesis by (rule Cons.IH)
    qed
  next
    case False
    with Cons.prems show ?thesis by (auto intro: exI [of _ "threads p"])
  qed
qed

lemma put_of_add: "threadpool_add fn a p = Inr (p', n) \<Longrightarrow> put_task \<lparr>task_function = fn, task_arg = a\<rparr> p = Inr p'"
  by (simp add: put_task_def)

lemma queued_frame:
  "task_queue p' = task_queue p \<Longrightarrow> queue_front p' = queue_front p \<Longrightarrow> queue_size p' = queue_size p \<Longrightarrow>
   queue_max_size p' = queue_max_size p \<Longrightarrow> queue_rear p' = queue_rear p \<Longrightarrow> queued p' = queued p \<and> ring_ok p' = ring_ok p"
  by (simp add: queued_def ring_ok_def cong: cell.case_cong)

lemma take_frame:
  assumes "take_task p = Inr (t, p')"
  shows "p' = p\<lparr>queue_front := queue_front p', queue_size := queue_size p'\<rparr>"
  using assms by (auto simp: take_task_def bindR_Inr_iff)

lemma worker_test_cases:
  assumes "worker_test p = Inr (w, p')" "\<not> shutdown p" "ring_ok p"
  obtains "w = Sleeping" "p' = p" | t where "w = Took t" "take_task p = Inr (t, p')" "queued p \<noteq> []"
proof (cases "queue_size p = 0")
  case True
  with assms(1,2) show ?thesis by (intro that(1)) (simp_all add: worker_test_def)
next
  case False
  with assms(1,2) obtain t where "w = Took t" "take_task p = Inr (t, p')"
    by (auto simp: worker_test_def bindR_Inr_iff)
  moreover have "queued p \<noteq> []" using False length_queued [OF assms(3)] by auto
  ultimately show ?thesis by (rule that(2))
qed

text \<open>The test of the queue, by a worker that was not running a task.\<close>

lemma inv_test:
  assumes "pool_inv s" "\<not> shutdown (pool s)" "k < length (workers s)" "workers s ! k = Entering \<or> workers s ! k = Sleeping"
    and "worker_test (pool s) = Inr (w, p)"
  shows "pool_inv (s\<lparr>pool := p, workers := (workers s)[k := w], taken := taken s @ (case w of Took t \<Rightarrow> [t] | _ \<Rightarrow> [])\<rparr>)"
proof -
  have i: "ring_ok (pool s)" "added s = taken s @ queued (pool s)" using assms(1,2) by (simp_all add: pool_inv_def Let_def)
  have c: "counts ((workers s)[k := w]) = counts (workers s)" if "w \<noteq> Exited" "\<And>t. w \<noteq> Working t"
    using counts_update [OF assms(3), of w] assms(4) that by auto
  from assms(5,2) i(1) show ?thesis
  proof (cases rule: worker_test_cases)
    case 1
    with assms(1,2) c show ?thesis by (simp add: pool_inv_def Let_def)
  next
    case (2 t)
    note f = take_frame [OF 2(2)]
    have "ring_ok p \<and> added s = (taken s @ [t]) @ queued p" by (rule tq.conserved_get [OF i 2(3,2)])
    moreover have "shutdown p = shutdown (pool s)" "live_thr_num p = live_thr_num (pool s)" "busy_thr_num p = busy_thr_num (pool s)"
      "min_thr_num p = min_thr_num (pool s)" "max_thr_num p = max_thr_num (pool s)" "wait_exit_thr_num p = wait_exit_thr_num (pool s)"
      by (subst f, simp)+
    ultimately show ?thesis using assms(1,2) c 2(1) by (simp add: pool_inv_def Let_def)
  qed
qed

lemma inv_wake:
  assumes "pool_inv s" "\<not> shutdown (pool s)" "k < length (workers s)" "workers s ! k = Sleeping" "worker_wake (pool s) = Inr (w, p)"
  shows "pool_inv (s\<lparr>pool := p, workers := (workers s)[k := w], taken := taken s @ (case w of Took t \<Rightarrow> [t] | _ \<Rightarrow> [])\<rparr>)"
proof (cases "wait_exit_thr_num (pool s) > 0")
  case True
  let ?p = "(pool s)\<lparr>wait_exit_thr_num := wait_exit_thr_num (pool s) - 1\<rparr>"
  have q: "queued (?p\<lparr>live_thr_num := l\<rparr>) = queued (pool s) \<and> ring_ok (?p\<lparr>live_thr_num := l\<rparr>) = ring_ok (pool s)" for l
    by (rule queued_frame) simp_all
  have q': "queued ?p = queued (pool s) \<and> ring_ok ?p = ring_ok (pool s)" by (rule queued_frame) simp_all
  show ?thesis
  proof (cases "live_thr_num (pool s) > min_thr_num (pool s)")
    case exit: True
    with True assms(5) have "w = Exited" "p = ?p\<lparr>live_thr_num := live_thr_num (pool s) - 1\<rparr>"
      by (simp_all add: worker_wake_def Let_def)
    with exit True assms(1-4) q counts_update [OF assms(3), of Exited] show ?thesis by (simp add: pool_inv_def Let_def)
  next
    case False
    have "pool_inv (s\<lparr>pool := ?p\<rparr>)" using assms(1,2) True q' by (simp add: pool_inv_def Let_def)
    moreover have "worker_test ?p = Inr (w, p)" using True False assms(5) by (simp add: worker_wake_def Let_def)
    ultimately show ?thesis using inv_test [of "s\<lparr>pool := ?p\<rparr>" k w p] assms(2-4) by simp
  qed
next
  case False
  with assms(5) have "worker_test (pool s) = Inr (w, p)" by (simp add: worker_wake_def)
  with assms show ?thesis by (intro inv_test) simp_all
qed

lemma inv_work:
  assumes "pool_inv s" "k < length (workers s)" "threadpool_thread (workers s ! k) (pool s) = Inr (w, p)"
  shows "pool_inv (s\<lparr>pool := p, workers := (workers s)[k := w],
      taken := taken s @ (case (workers s ! k, w) of (Took _, _) \<Rightarrow> [] | (_, Took t) \<Rightarrow> [t] | _ \<Rightarrow> [])\<rparr>)"
proof (cases "shutdown p")
  case True
  then show ?thesis by (simp add: pool_inv_def)
next
  case False
  have busy: "queued (q\<lparr>busy_thr_num := b\<rparr>) = queued q \<and> ring_ok (q\<lparr>busy_thr_num := b\<rparr>) = ring_ok q" for q b
    by (rule queued_frame) simp_all
  have sd: "\<not> shutdown (pool s)"
    using assms(3) False by (cases "workers s ! k") (auto simp: worker_wake_def worker_test_def Let_def split: if_splits)
  show ?thesis
  proof (cases "workers s ! k")
    case Entering
    with assms sd show ?thesis using inv_test [OF assms(1) sd assms(2), of w p] by (simp split: worker.splits)
  next
    case Sleeping
    with assms sd show ?thesis using inv_wake [OF assms(1) sd assms(2) Sleeping, of w p] by (simp split: worker.splits)
  next
    case (Took t)
    with assms sd busy [where q = "pool s"] counts_update [OF assms(2), of "Working t"] show ?thesis by (auto simp: pool_inv_def Let_def)
  next
    case (Working t)
    with assms sd busy [where q = "pool s"] counts_update [OF assms(2), of Entering] show ?thesis by (auto simp: pool_inv_def Let_def)
  next
    case Exited
    then have "(workers s)[k := Exited] = workers s" by (metis list_update_id)
    with Exited assms show ?thesis by auto
  qed
qed

lemma inv_heap: "pool_inv s \<Longrightarrow> pool_inv (s\<lparr>pool := (pool s)\<lparr>heap := h\<rparr>\<rparr>)"
  using queued_frame [of "(pool s)\<lparr>heap := h\<rparr>" "pool s"] by (simp add: pool_inv_def Let_def)

lemma inv_add:
  assumes "pool_inv s" "\<not> add_waits (pool s)" "threadpool_add fn a (pool s) = Inr (p, n)"
  shows "pool_inv (s\<lparr>pool := p, added := added s @ [\<lparr>task_function = fn, task_arg = a\<rparr>]\<rparr>)"
proof -
  obtain q h where f: "p = (pool s)\<lparr>heap := h, task_queue := To q,
      queue_rear := (queue_rear (pool s) + 1) mod queue_max_size (pool s), queue_size := queue_size (pool s) + 1\<rparr>"
    using add_fields [OF assms(3)] by metis
  show ?thesis
  proof (cases "shutdown (pool s)")
    case True
    then show ?thesis by (simp add: pool_inv_def f)
  next
    case False
    then have i: "ring_ok (pool s)" "added s = taken s @ queued (pool s)" using assms(1) by (simp_all add: pool_inv_def Let_def)
    have room: "queue_size (pool s) < queue_max_size (pool s)" using assms(2) False i(1) by (auto simp: add_waits_def ring_ok_def)
    have "ring_ok p \<and> added s @ [\<lparr>task_function = fn, task_arg = a\<rparr>] = taken s @ queued p"
      by (rule tq.conserved_put [OF i room put_of_add [OF assms(3)]])
    then show ?thesis using assms(1) False by (simp add: pool_inv_def Let_def f)
  qed
qed

lemma inv_grow:
  assumes "pool_inv s" "grow_loop kill new is 0 (pool s) = Inr (n, p)"
  shows "pool_inv (s\<lparr>pool := p, workers := workers s @ replicate n Entering, adjust := a\<rparr>)"
proof -
  from grow_loop_counts [OF assms(2)] obtain ts where
    b: "live_thr_num (pool s) \<le> max_thr_num (pool s) \<Longrightarrow> live_thr_num (pool s) + int n \<le> max_thr_num (pool s)"
    and p: "p = (pool s)\<lparr>threads := ts, live_thr_num := live_thr_num (pool s) + int n\<rparr>" by auto
  have "queued p = queued (pool s) \<and> ring_ok p = ring_ok (pool s)" unfolding p by (rule queued_frame) simp_all
  with assms(1) b show ?thesis by (auto simp: pool_inv_def Let_def p counts_simps)
qed

lemma pool_inv_step:
  assumes "pool_inv s" "pool_step open_pool s s'"
  shows "pool_inv s'"
  using assms(2)
proof (cases rule: pool_step.cases)
  case (work k w p)
  with inv_work [OF assms(1)] show ?thesis by simp
next
  case (add fn a h p n)
  with inv_add [OF inv_heap [OF assms(1)], of h fn a p n] show ?thesis by (simp add: add_waits_def)
next
  case (grow q l b kill n p)
  with inv_grow [OF assms(1)] show ?thesis by simp
next
  case (shrink l b)
  have "queued ((pool s)\<lparr>wait_exit_thr_num := n\<rparr>) = queued (pool s) \<and> ring_ok ((pool s)\<lparr>wait_exit_thr_num := n\<rparr>) = ring_ok (pool s)" for n
    by (rule queued_frame) simp_all
  with shrink assms(1) show ?thesis by (simp add: pool_inv_def Let_def DEFAULT_THREAD_VARY_def)
next
  case (destroy d p)
  then have "shutdown p \<or> p = pool s"
    by (auto simp: threadpool_destroy_def bindR_Inr_iff split: destroyer.splits if_splits)
  with destroy assms(1) show ?thesis by (auto simp: pool_inv_def Let_def)
qed (use assms(1) in \<open>simp_all add: pool_inv_def\<close>)

text \<open>The start, from \<open>threadpool_create\<close>.\<close>

lemma created_pool:
  assumes "threadpool_create env mn mx qm = Inr (Some p)" "malloc_queue env = Some q"
  obtains ts where "p = \<lparr>threads = To ts, task_queue = To q, mutexes = True, min_thr_num = mn, max_thr_num = mx, live_thr_num = mn,
    busy_thr_num = 0, wait_exit_thr_num = 0, queue_front = 0, queue_rear = 0, queue_size = 0, queue_max_size = qm, shutdown = False, heap = []\<rparr>"
  using assms by (auto simp: threadpool_create_def Let_def bindR_Inr_iff threadpool_free_def split: if_splits option.splits)

lemma start_inv:
  assumes "threadpool_create env mn mx qm = Inr (Some p)" "malloc_queue env = Some q" "int (length q) = qm" "0 < qm" "0 \<le> mn" "mn \<le> mx"
  shows "pool_inv (pool_start p)"
proof -
  from created_pool [OF assms(1,2)] obtain ts where
    p: "p = \<lparr>threads = To ts, task_queue = To q, mutexes = True, min_thr_num = mn, max_thr_num = mx, live_thr_num = mn,
    busy_thr_num = 0, wait_exit_thr_num = 0, queue_front = 0, queue_rear = 0, queue_size = 0, queue_max_size = qm, shutdown = False, heap = []\<rparr>" .
  show ?thesis using assms(3-)
    by (simp add: pool_inv_def pool_start_def p ring_ok_def queued_def counts_simps DEFAULT_THREAD_VARY_def)
qed

lemma reach_pool_inv: "pool_reach open_pool s0 s \<Longrightarrow> pool_inv s0 \<Longrightarrow> pool_inv s"
  by (induction rule: pool_reach.induct) (auto intro: pool_inv_step)

section \<open>Properties\<close>

text \<open>A small pool: one thread at least, two at most, two places for tasks.\<close>

definition small_env :: create_env where
  "small_env = \<lparr>malloc_pool = True, malloc_threads = True, malloc_queue = Some (replicate 2 \<lparr>task_function = 0, task_arg = 0\<rparr>),
     init_locks = True, handles = [1]\<rparr>"

definition small_pool :: threadpool_t where
  "small_pool = \<lparr>threads = To [1, 0], task_queue = To (replicate 2 \<lparr>task_function = 0, task_arg = 0\<rparr>), mutexes = True,
     min_thr_num = 1, max_thr_num = 2, live_thr_num = 1, busy_thr_num = 0, wait_exit_thr_num = 0, queue_front = 0, queue_rear = 0,
     queue_size = 0, queue_max_size = 2, shutdown = False, heap = []\<rparr>"

lemma small_created: "threadpool_create small_env 1 2 2 = Inr (Some small_pool)" by code_simp

lemma small_queue:
  "malloc_queue small_env = Some (replicate 2 \<lparr>task_function = 0, task_arg = 0\<rparr>)"
  "int (length (replicate 2 (\<lparr>task_function = 0, task_arg = 0\<rparr> :: threadpool_task_t))) = 2"
  by (simp_all add: small_env_def)

text \<open>A task is added, and the worker takes it.\<close>

lemma small_run: "\<exists>s. pool_reach True (pool_start small_pool) s \<and> \<not> shutdown (pool s) \<and> taken s = [\<lparr>task_function = 7, task_arg = 0\<rparr>]"
proof -
  let ?t = "\<lparr>task_function = 7, task_arg = 0\<rparr>"
  define s1 where "s1 = (pool_start small_pool)\<lparr>pool := small_pool\<lparr>task_queue := To [?t, \<lparr>task_function = 0, task_arg = 0\<rparr>],
    queue_rear := 1, queue_size := 1\<rparr>, added := [?t]\<rparr>"
  have "pool_step True (pool_start small_pool) s1"
    using pool_step.add [where s = "pool_start small_pool" and open_pool = True and fn = 7 and a = 0 and h = "[]" and n = 1 and p = "pool s1"]
    by (simp add: s1_def pool_start_def small_pool_def add_waits_def threadpool_add_def deref_def getR_def setR_def numeral_2_eq_2)
  moreover define s2 where "s2 = s1\<lparr>pool := (pool s1)\<lparr>queue_front := 1, queue_size := 0\<rparr>, workers := [Took ?t], taken := [?t]\<rparr>"
  have "pool_step True s1 s2"
    using pool_step.work [where s = s1 and open_pool = True and k = 0 and w = "Took ?t" and p = "pool s2"]
    by (simp add: s1_def s2_def pool_start_def small_pool_def worker_test_def take_task_def deref_def getR_def)
  ultimately have "pool_reach True (pool_start small_pool) s2" by (blast intro: pool_reach.intros)
  then show ?thesis by (intro exI [of _ s2]) (simp add: s1_def s2_def pool_start_def small_pool_def)
qed

text \<open>
  C4. Tasks leave the pool in the order in which they were added: in every interleaving of workers,
  adders, the adjusting thread and the destroyer, until the pool is shut down, the tasks added
  are the tasks taken by workers followed by the tasks in the ring, in this order; none is lost, taken twice or overwritten.
\<close>

theorem pool_order:
  assumes "threadpool_create env mn mx qm = Inr (Some p)" "malloc_queue env = Some q" "int (length q) = qm" "0 < qm" "0 \<le> mn" "mn \<le> mx"
    and "pool_reach open_pool (pool_start p) s" "\<not> shutdown (pool s)"
  shows "added s = taken s @ queued (pool s) \<and> int (length (queued (pool s))) = queue_size (pool s)"
proof -
  have "pool_inv s" by (rule reach_pool_inv [OF assms(7) start_inv [OF assms(1-6)]])
  then have "ring_ok (pool s)" "added s = taken s @ queued (pool s)" using assms(8) by (simp_all add: pool_inv_def Let_def)
  with length_queued show ?thesis by blast
qed

theorem pool_order_witness:
  "\<exists>s :: pool_sys. taken s = [\<lparr>task_function = 7, task_arg = 0\<rparr>] \<and> added s = taken s @ queued (pool s) \<and> int (length (queued (pool s))) = queue_size (pool s)"
proof -
  obtain s where s: "pool_reach True (pool_start small_pool) s" "\<not> shutdown (pool s)" "taken s = [\<lparr>task_function = 7, task_arg = 0\<rparr>]"
    using small_run by blast
  have "added s = taken s @ queued (pool s) \<and> int (length (queued (pool s))) = queue_size (pool s)"
    by (rule pool_order [OF small_created small_queue _ _ _ s(1,2)]) simp_all
  with s(3) show ?thesis by blast
qed



text \<open>Before \<open>threadpool_create\<close> returns nobody can add tasks: the adjusting thread finds nothing to do, and the workers sleep.\<close>

definition dormant :: "pool_sys \<Rightarrow> bool" where
  "dormant s \<longleftrightarrow> (let p = pool s in queue_size p = 0 \<and> \<not> shutdown p \<and> wait_exit_thr_num p = 0 \<and> live_thr_num p = min_thr_num p \<and>
     set (workers s) \<subseteq> {Entering, Sleeping} \<and>
     (case adjust s of Looked q l \<Rightarrow> q = 0 \<and> l = min_thr_num p | Counted q l b \<Rightarrow> q = 0 \<and> l = min_thr_num p
      | Checked l b \<Rightarrow> l = min_thr_num p | _ \<Rightarrow> True))"

lemma dormant_step:
  assumes "dormant s" "pool_step False s s'"
  shows "dormant s'"
  using assms(2)
proof (cases rule: pool_step.cases)
  case (work k w p)
  have "workers s ! k \<in> {Entering, Sleeping}" using work assms(1) nth_mem by (fastforce simp: dormant_def Let_def)
  with work assms(1) have "w = Sleeping \<and> p = pool s"
    by (auto simp: dormant_def Let_def worker_wake_def worker_test_def)
  moreover have "set ((workers s)[k := Sleeping]) \<subseteq> {Entering, Sleeping}"
    using assms(1) set_update_subset_insert [of "workers s" k Sleeping] by (auto simp: dormant_def Let_def)
  ultimately show ?thesis using work assms(1) by (simp add: dormant_def Let_def)
qed (use assms(1) in \<open>simp_all add: dormant_def Let_def MIN_WAIT_TASK_NUM_def\<close>)





end
