(* ===== verification/WordScan.thy ===== *)
theory WordScan
  imports Stdio Packet
begin

text \<open>
  The word-at-a-time searches of the bundled C library, \<^verbatim>\<open>glibc-2.27/string/\<close>: \<open>strlen\<close>,
  \<open>strchr\<close> and \<open>memchr\<close> look at eight bytes at once, with an addition or a subtraction that
  shows whether one of them is the byte they look for.  The memory is a mapped region
  that starts at an aligned address, so that the index of a byte tells its alignment;
  reading outside the region is a fault.  The lemmas show that the functions compute
  what the byte by byte functions of theories \<open>CString\<close> and \<open>Stdio\<close> compute.
\<close>

unbundle bit_operations_syntax

section \<open>Reading memory\<close>

definition long_at :: "8 word list \<Rightarrow> nat \<Rightarrow> 64 word cres" where
  "long_at mem i = (if i + 8 \<le> length mem then Inr (le (take 8 (drop i mem))) else Inl OutOfBounds)"

text \<open>The tests of the bytes of a word one after the other: the first that satisfies the condition.\<close>

fun first :: "('a \<Rightarrow> bool) \<Rightarrow> 'a list \<Rightarrow> nat option" where
  "first P [] = None"
| "first P (b # bs) = (if P b then Some 0 else map_option Suc (first P bs))"

section \<open>strlen\<close>

definition himagic :: "64 word" where
  "himagic = push_bit 16 (push_bit 16 0x80808080) OR 0x80808080"

definition lomagic :: "64 word" where
  "lomagic = push_bit 16 (push_bit 16 0x01010101) OR 0x01010101"

definition strlen_test :: "64 word \<Rightarrow> bool" where
  "strlen_test longword \<longleftrightarrow> (longword - lomagic) AND NOT longword AND himagic \<noteq> 0"

function strlen_loop :: "8 word list \<Rightarrow> nat \<Rightarrow> nat \<Rightarrow> nat cres" where
  "strlen_loop mem str i =
     bindR (long_at mem i) (\<lambda>longword.
     if strlen_test longword then
       (case first (\<lambda>b. b = 0) (take 8 (drop i mem)) of
          Some k \<Rightarrow> Inr (i + k - str)
        | None \<Rightarrow> strlen_loop mem str (i + 8))
     else strlen_loop mem str (i + 8))"
  by pat_completeness auto
termination
  by (relation "measure (\<lambda>(mem, str, i). length mem - i)") (auto simp: long_at_def split: if_splits)

function strlen_head :: "8 word list \<Rightarrow> nat \<Rightarrow> nat \<Rightarrow> nat cres" where
  "strlen_head mem str i =
     (if i mod 8 \<noteq> 0 then
        bindR (getR mem (int i)) (\<lambda>b. if b = 0 then Inr (i - str) else strlen_head mem str (i + 1))
      else strlen_loop mem str i)"
  by pat_completeness auto
termination
  by (relation "measure (\<lambda>(mem, str, i). length mem - i)") (auto simp: getR_def split: if_splits)

definition strlen_word :: "8 word list \<Rightarrow> nat \<Rightarrow> nat cres" where
  "strlen_word mem str = strlen_head mem str str"

section \<open>strchr\<close>

definition magic_bits :: "64 word" where
  "magic_bits = drop_bit 1 (push_bit 1 ((- 1) div 0xff * 0xfe)) OR 1"

text \<open>A word each of whose bytes is \<open>c\<close>.\<close>

definition charmask :: "8 word \<Rightarrow> 64 word" where
  "charmask c =
     (let m = ucast c OR push_bit 8 (ucast c); m = m OR push_bit 16 m
      in m OR push_bit 16 (push_bit 16 m))"

definition hole_test :: "64 word \<Rightarrow> bool" where
  "hole_test longword \<longleftrightarrow> ((longword + magic_bits) XOR NOT longword) AND NOT magic_bits \<noteq> 0"

function strchr_loop :: "8 word list \<Rightarrow> 8 word \<Rightarrow> nat \<Rightarrow> nat option cres" where
  "strchr_loop mem c i =
     bindR (long_at mem i) (\<lambda>longword.
     if hole_test longword \<or> hole_test (longword XOR charmask c) then
       (case first (\<lambda>b. b = c \<or> b = 0) (take 8 (drop i mem)) of
          Some k \<Rightarrow> Inr (if mem ! (i + k) = c then Some (i + k) else None)
        | None \<Rightarrow> strchr_loop mem c (i + 8))
     else strchr_loop mem c (i + 8))"
  by pat_completeness auto
termination
  by (relation "measure (\<lambda>(mem, c, i). length mem - i)") (auto simp: long_at_def split: if_splits)

function strchr_head :: "8 word list \<Rightarrow> 8 word \<Rightarrow> nat \<Rightarrow> nat option cres" where
  "strchr_head mem c i =
     (if i mod 8 \<noteq> 0 then
        bindR (getR mem (int i)) (\<lambda>b.
        if b = c then Inr (Some i) else if b = 0 then Inr None else strchr_head mem c (i + 1))
      else strchr_loop mem c i)"
  by pat_completeness auto
termination
  by (relation "measure (\<lambda>(mem, c, i). length mem - i)") (auto simp: getR_def split: if_splits)

definition strchr_word :: "8 word list \<Rightarrow> nat \<Rightarrow> 32 word \<Rightarrow> nat option cres" where
  "strchr_word mem s c_in = strchr_head mem (ucast c_in) s"

section \<open>memchr\<close>

definition repeated_one :: "64 word" where
  "repeated_one = 0x01010101 OR push_bit 1 (push_bit 31 0x01010101)"

definition repeated_c :: "8 word \<Rightarrow> 64 word" where
  "repeated_c c =
     (let m = ucast c OR push_bit 8 (ucast c); m = m OR push_bit 16 m
      in m OR push_bit 1 (push_bit 31 m))"

definition memchr_test :: "64 word \<Rightarrow> bool" where
  "memchr_test longword1 \<longleftrightarrow> ((longword1 - repeated_one) AND NOT longword1) AND push_bit 7 repeated_one \<noteq> 0"

fun memchr_tail :: "8 word list \<Rightarrow> 8 word \<Rightarrow> nat \<Rightarrow> nat \<Rightarrow> nat option cres" where
  "memchr_tail mem c 0 i = Inr None"
| "memchr_tail mem c (Suc n) i =
     bindR (getR mem (int i)) (\<lambda>b. if b = c then Inr (Some i) else memchr_tail mem c n (i + 1))"

function memchr_loop :: "8 word list \<Rightarrow> 8 word \<Rightarrow> nat \<Rightarrow> nat \<Rightarrow> nat option cres" where
  "memchr_loop mem c n i =
     (if n \<ge> 8 then
        bindR (long_at mem i) (\<lambda>longword.
        if memchr_test (longword XOR repeated_c c) then memchr_tail mem c n i
        else memchr_loop mem c (n - 8) (i + 8))
      else memchr_tail mem c n i)"
  by pat_completeness auto
termination
  by (relation "measure (\<lambda>(mem, c, n, i). n)") auto

fun memchr_head :: "8 word list \<Rightarrow> 8 word \<Rightarrow> nat \<Rightarrow> nat \<Rightarrow> nat option cres" where
  "memchr_head mem c 0 i = memchr_loop mem c 0 i"
| "memchr_head mem c (Suc n) i =
     (if i mod 8 \<noteq> 0 then
        bindR (getR mem (int i)) (\<lambda>b. if b = c then Inr (Some i) else memchr_head mem c n (i + 1))
      else memchr_loop mem c (Suc n) i)"

definition memchr_word :: "8 word list \<Rightarrow> nat \<Rightarrow> 32 word \<Rightarrow> nat \<Rightarrow> nat option cres" where
  "memchr_word mem s c_in n = memchr_head mem (ucast c_in) n s"

declare strlen_loop.simps [simp del] strlen_head.simps [simp del] strchr_loop.simps [simp del] strchr_head.simps [simp del]
  memchr_loop.simps [simp del]

section \<open>The tests\<close>

lemma magic_values:
  "himagic = 0x8080808080808080" "lomagic = 0x0101010101010101" "magic_bits = 0x7efefefefefefeff" "repeated_one = 0x0101010101010101"
  by (simp_all add: himagic_def lomagic_def magic_bits_def repeated_one_def)

text \<open>An integer in base 256: its lowest byte and the others.\<close>

lemma base_256:
  assumes "0 \<le> v" "v < 256"
  shows "take_bit 8 (v + 256 * x) = (v :: int)" "drop_bit 8 (v + 256 * x) = x"
  using assms by (simp_all add: take_bit_eq_mod drop_bit_eq_div)

lemma zero_split: "(a :: int) = 0 \<longleftrightarrow> take_bit 8 a = 0 \<and> drop_bit 8 a = 0"
  using bits_ident [of 8 a] by auto

lemma bit_7:
  assumes "0 \<le> v" "v < 256"
  shows "bit v 7 \<longleftrightarrow> 128 \<le> (v :: int)"
proof -
  have "v div 128 = (if v < 128 then 0 else 1)" using assms int_div_pos_eq [of v 128 1 "v - 128"] by simp
  then show ?thesis by (simp add: bit_iff_odd)
qed

text \<open>The subtraction clears the top bit of the lowest byte or finds it clear, unless the byte is zero.\<close>

lemma top_bit:
  assumes "0 \<le> v" "v < 256"
  shows "take_bit 8 (v - 1) AND NOT v AND 128 = 0 \<longleftrightarrow> v \<noteq> (0 :: int)"
proof -
  have "take_bit 8 (v - 1) AND NOT v AND 128 = 0 \<longleftrightarrow> \<not> bit (take_bit 8 (v - 1)) 7 \<or> bit v 7"
    using and_exp_eq_0_iff_not_bit [of "take_bit 8 (v - 1) AND NOT v" 7] by (simp add: and.assoc bit_simps)
  moreover note bit_7 [OF assms]
  moreover have "bit (take_bit 8 (v - 1)) 7 \<longleftrightarrow> v = 0 \<or> 128 < v"
  proof (cases "v = 0")
    case False
    then have "take_bit 8 (v - 1) = v - 1" using assms by (simp add: take_bit_eq_mod)
    then show ?thesis using assms False bit_7 [of "v - 1"] by auto
  qed (simp add: take_bit_eq_mod bit_iff_odd)
  ultimately show ?thesis using assms by auto
qed

lemma test_step:
  assumes v: "0 \<le> v" "v < 256"
  shows "((v + 256 * x) - (1 + 256 * l)) AND NOT (v + 256 * x) AND (128 + 256 * h) = 0 \<longleftrightarrow>
    v \<noteq> 0 \<and> (x - l) AND NOT x AND h = (0 :: int)"
proof -
  let ?X = "v + 256 * x" and ?L = "1 + 256 * l" and ?H = "128 + 256 * h"
  have e: "?X - ?L = (v - 1) + 256 * (x - l)" by (simp add: algebra_simps)
  have t: "take_bit 8 ((?X - ?L) AND NOT ?X AND ?H) = take_bit 8 (v - 1) AND NOT v AND 128"
  proof -
    have "take_bit 8 ((?X - ?L) AND NOT ?X AND ?H) = take_bit 8 (?X - ?L) AND NOT (take_bit 8 ?X) AND take_bit 8 ?H"
      by (rule bit_eqI) (auto simp: bit_simps)
    moreover have "take_bit 8 (?X - ?L) = take_bit 8 (v - 1)"
      using mod_mult_self2 [of "v - 1" 256 "x - l"] unfolding e take_bit_eq_mod by simp
    ultimately show ?thesis using base_256 [OF v, of x] base_256 [of 128 h] by simp
  qed
  have d: "drop_bit 8 ((?X - ?L) AND NOT ?X AND ?H) = (x - l) AND NOT x AND h" if "v \<noteq> 0"
  proof -
    have "drop_bit 8 ((?X - ?L) AND NOT ?X AND ?H) = drop_bit 8 (?X - ?L) AND NOT (drop_bit 8 ?X) AND drop_bit 8 ?H"
      by (rule bit_eqI) (auto simp: bit_simps)
    moreover have "drop_bit 8 (?X - ?L) = x - l" unfolding e by (rule base_256(2)) (use v that in simp_all)
    ultimately show ?thesis using base_256 [OF v, of x] base_256 [of 128 h] by simp
  qed
  show ?thesis unfolding zero_split [of "(?X - ?L) AND NOT ?X AND ?H"] t top_bit [OF v] using d by auto
qed

lemma zero_byte_int:
  "(int (nat_le bs) - int (nat_le (replicate (length bs) 1))) AND NOT (int (nat_le bs)) AND
    int (nat_le (replicate (length bs) 0x80)) = 0 \<longleftrightarrow> 0 \<notin> set bs"
proof (induction bs)
  case (Cons b bs)
  have "0 \<le> uint b" "uint b < 256" using unsigned_less [of b, where 'a = int] by simp_all
  from test_step [OF this, of "int (nat_le bs)" "int (nat_le (replicate (length bs) 1))" "int (nat_le (replicate (length bs) 0x80))"] Cons.IH
  show ?case by (simp add: take_bit_eq_mod unsigned_eq_0_iff)
qed simp

lemma small_word: "0 \<le> k \<Longrightarrow> k < 2 ^ 64 \<Longrightarrow> word_of_int k = (0 :: 64 word) \<longleftrightarrow> k = 0"
  by (auto simp: word_of_int_eq_0_iff dest: zdvd_imp_le)

text \<open>The test of \<open>strlen\<close>, which is also that of \<open>memchr\<close>, is exact.\<close>

lemma strlen_test_exact:
  assumes "length bs = 8"
  shows "strlen_test (le bs) \<longleftrightarrow> 0 \<in> set bs"
proof -
  let ?x = "int (nat_le bs)" and ?h = "0x8080808080808080 :: int"
  let ?t = "(?x - 0x0101010101010101) AND NOT ?x AND ?h"
  have "replicate 8 c = [c, c, c, c, c, c, c, c]" for c :: "8 word" by (simp add: numeral_eq_Suc)
  then have "?t = 0 \<longleftrightarrow> 0 \<notin> set bs" using zero_byte_int [of bs] assms by simp
  moreover have "(le bs - lomagic) AND NOT (le bs) AND himagic = word_of_int ?t"
    by (simp add: le_of_nat magic_values of_int_and_eq of_int_not_eq)
  moreover have "word_of_int ?t = (0 :: 64 word) \<longleftrightarrow> ?t = 0"
  proof -
    have "0 \<le> ?t" by simp
    moreover have "?t \<le> ?h" using AND_upper2 [of ?h "(?x - 0x0101010101010101) AND NOT ?x"] by (simp add: and.assoc)
    ultimately show ?thesis by (intro small_word) simp_all
  qed
  ultimately show ?thesis by (simp add: strlen_test_def)
qed

lemma memchr_test_eq: "memchr_test w \<longleftrightarrow> strlen_test w"
  by (simp add: memchr_test_def strlen_test_def magic_values and.assoc)

text \<open>
  The test of \<open>strchr\<close> fires when there is a zero byte: the addition leaves the hole above
  that byte as it was, since nothing is carried out of the byte.
\<close>

lemma no_carry:
  assumes "0 \<le> lo" "lo + m mod n < n" "even (m div n)" "0 < (n :: int)"
  shows "odd ((lo + n * hi + m) div n) \<longleftrightarrow> odd ((lo + n * hi) div n)"
proof -
  have r: "0 \<le> m mod n" using assms(4) by simp
  have "lo + n * hi + m = n * (hi + m div n) + (lo + m mod n)" using div_mult_mod_eq [of m n] by (simp add: algebra_simps)
  then have "(lo + n * hi + m) div n = hi + m div n" by (rule int_div_pos_eq) (use assms r in simp_all)
  moreover have "(lo + n * hi) div n = hi" by (rule int_div_pos_eq [of _ _ _ lo]) (use assms r in simp_all)
  ultimately show ?thesis using assms(3) by simp
qed

lemma hole_bit:
  assumes "p < 64" "\<not> bit magic_bits p" "odd ((x + 0x7efefefefefefeff) div 2 ^ p) \<longleftrightarrow> odd (x div 2 ^ p)"
  shows "hole_test (word_of_int x)"
proof -
  let ?t = "((word_of_int x + magic_bits) XOR NOT (word_of_int x)) AND NOT magic_bits"
  have "bit (word_of_int k :: 64 word) p \<longleftrightarrow> odd (k div 2 ^ p)" for k
    using assms(1) by (simp add: bit_word_of_int_iff bit_iff_odd [of k])
  moreover have "word_of_int x + magic_bits = word_of_int (x + 0x7efefefefefefeff)" by (simp add: magic_values)
  ultimately have "bit (word_of_int x + magic_bits) p \<longleftrightarrow> bit (word_of_int x :: 64 word) p"
    using assms(3) by metis
  then have "bit ?t p" using assms(1,2) by (simp add: bit_simps)
  then show ?thesis by (auto simp: hole_test_def)
qed

lemma hole_case:
  assumes "p < 64" "\<not> bit magic_bits p" "even (0x7efefefefefefeff div (2 :: int) ^ p)"
    and "0 \<le> lo" "lo + 0x7efefefefefefeff mod 2 ^ p < 2 ^ p"
  shows "hole_test (word_of_int (lo + 2 ^ p * hi))"
  by (rule hole_bit [OF assms(1,2) no_carry [OF assms(4,5,3)]]) simp

lemma nat_le_append: "nat_le (as @ bs) = nat_le as + 256 ^ length as * nat_le bs"
  by (induction as) (simp_all add: algebra_simps)

lemma hole_test_zero:
  assumes "length bs = 8" "0 \<in> set bs"
  shows "hole_test (le bs)"
proof -
  obtain as cs where bs: "bs = as @ 0 # cs" using assms(2) by (auto dest: split_list)
  let ?j = "length as" and ?lo = "int (nat_le as)" and ?hi = "int (nat_le cs)"
  have lo: "0 \<le> ?lo" "?lo < 256 ^ ?j" using nat_le_less [of as] by (simp_all add: less_imp_of_nat_less flip: of_nat_power)
  have "nat_le bs = nat_le as + 256 ^ Suc ?j * nat_le cs" by (simp add: bs nat_le_append mult.assoc)
  then have x: "le bs = word_of_int (?lo + 2 ^ (8 * Suc ?j) * ?hi)" by (simp add: le_of_nat power_add power_mult)
  have "?j < 8" using assms(1) bs by simp
  then consider "?j = 7" | "?j \<in> {0, 1, 2, 3, 4, 5, 6}" by (auto simp: numeral_eq_Suc less_Suc_eq)
  then show ?thesis
  proof cases
    case 1
    then have "cs = []" using assms(1) bs by simp
    then show ?thesis unfolding x using hole_case [of 63 ?lo 0] lo 1 by (simp add: magic_values)
  next
    case 2
    show ?thesis unfolding x by (rule hole_case) (use 2 lo in \<open>auto simp: magic_values\<close>)
  qed
qed

text \<open>Exclusive or with a word of equal bytes works byte by byte.\<close>

lemma xor_step:
  assumes "0 \<le> v" "v < 256" "0 \<le> u" "u < 256"
  shows "(v + 256 * x) XOR (u + 256 * y) = (v XOR u) + 256 * (x XOR y :: int)"
proof -
  have "0 \<le> v XOR u" "v XOR u < 256" using assms XOR_upper [of v 8 u] by simp_all
  from base_256 [OF this, of "x XOR y"] base_256 [OF assms(1,2), of x] base_256 [OF assms(3,4), of y]
  have "take_bit 8 ((v + 256 * x) XOR (u + 256 * y)) = take_bit 8 ((v XOR u) + 256 * (x XOR y))"
    "drop_bit 8 ((v + 256 * x) XOR (u + 256 * y)) = drop_bit 8 ((v XOR u) + 256 * (x XOR y))"
    by (simp_all add: take_bit_xor drop_bit_xor)
  then show ?thesis using bits_ident [of 8] by metis
qed

lemma xor_bytes_int:
  "int (nat_le (map (\<lambda>b. b XOR c) bs)) = int (nat_le bs) XOR int (nat_le (replicate (length bs) c))"
proof (induction bs)
  case (Cons b bs)
  have "0 \<le> uint b" "uint b < 256" "0 \<le> uint c" "uint c < 256"
    using unsigned_less [of b, where 'a = int] unsigned_less [of c, where 'a = int] by simp_all
  from xor_step [OF this] Cons.IH show ?case by (simp add: unsigned_xor_eq of_nat_xor_eq)
qed simp

lemma or_shift:
  assumes "m < 2 ^ k"
  shows "(word_of_nat m :: 64 word) OR push_bit k (word_of_nat m) = word_of_nat (m * (1 + 2 ^ k))"
proof -
  let ?w = "word_of_nat m :: 64 word"
  have "take_bit k ?w = ?w" using assms by (metis of_nat_take_bit take_bit_nat_eq_self)
  then have "bit ?w n \<Longrightarrow> n < k" for n by (metis bit_take_bit_iff)
  then have "?w AND push_bit k ?w = 0" by (intro bit_word_eqI) (fastforce simp: bit_simps)
  then have "?w OR push_bit k ?w = ?w + push_bit k ?w" by (simp add: disjunctive_add_eq_or)
  then show ?thesis by (simp add: push_bit_eq_mult algebra_simps)
qed

lemma charmask_bytes: "charmask c = le (replicate 8 c)" "repeated_c c = le (replicate 8 c)"
proof -
  let ?v = "unat c"
  have v: "?v < 2 ^ 8" using unat_byte [of c] by simp
  have 1: "(ucast c :: 64 word) = word_of_nat ?v" by (simp add: unsigned_word_eqI)
  have 2: "(ucast c :: 64 word) OR push_bit 8 (ucast c) = word_of_nat (?v * 257)" unfolding 1 using or_shift [OF v] by simp
  have 3: "(word_of_nat (?v * 257) :: 64 word) OR push_bit 16 (word_of_nat (?v * 257)) = word_of_nat (?v * 16843009)"
    using or_shift [of "?v * 257" 16] v by (simp add: mult.assoc)
  have 4: "(word_of_nat (?v * 16843009) :: 64 word) OR push_bit 32 (word_of_nat (?v * 16843009)) = word_of_nat (?v * 72340172838076673)"
    using or_shift [of "?v * 16843009" 32] v by (simp add: mult.assoc)
  have "replicate 8 c = [c, c, c, c, c, c, c, c]" by (simp add: numeral_eq_Suc)
  then have 5: "nat_le (replicate 8 c) = ?v * 72340172838076673" by simp
  show "charmask c = le (replicate 8 c)" "repeated_c c = le (replicate 8 c)"
    unfolding charmask_def repeated_c_def Let_def 2 3 le_of_nat 5 push_bit_push_bit using 4 by simp_all
qed

lemma xor_bytes:
  assumes "length bs = 8"
  shows "le bs XOR charmask c = le (map (\<lambda>b. b XOR c) bs)" "le bs XOR repeated_c c = le (map (\<lambda>b. b XOR c) bs)"
proof -
  have l: "(le cs :: 64 word) = word_of_int (int (nat_le cs))" for cs by (simp add: le_of_nat)
  show "le bs XOR charmask c = le (map (\<lambda>b. b XOR c) bs)" "le bs XOR repeated_c c = le (map (\<lambda>b. b XOR c) bs)"
    unfolding charmask_bytes l xor_bytes_int assms by (simp_all only: of_int_xor_eq)
qed

lemma xor_zero: "0 \<in> set (map (\<lambda>b. b XOR c) bs) \<longleftrightarrow> c \<in> set (bs :: 8 word list)"
proof -
  have "b = c" if "b XOR c = 0" for b using arg_cong [OF that, of "\<lambda>x. x XOR c"] by (simp add: xor.assoc)
  then have "b XOR c = 0 \<longleftrightarrow> b = c" for b by auto
  then show ?thesis by (force simp: image_iff)
qed

section \<open>Scanning\<close>

lemma first_None_iff: "first P xs = None \<longleftrightarrow> (\<forall>x \<in> set xs. \<not> P x)"
  by (induction xs) auto

lemma first_append:
  "first P (xs @ ys) = (case first P xs of Some k \<Rightarrow> Some k | None \<Rightarrow> map_option (\<lambda>k. length xs + k) (first P ys))"
  by (induction xs) (auto simp: map_option_case split: option.splits)

lemma first_less: "first P xs = Some k \<Longrightarrow> k < length xs"
  by (induction xs arbitrary: k) (auto split: if_splits)

lemma drop_8: "i + 8 \<le> length mem \<Longrightarrow> drop i mem = take 8 (drop i mem) @ drop (i + 8) mem"
  by (metis add.commute append_take_drop_id drop_drop)

text \<open>The result of a scan: what the first byte that is looked for gives, or a fault when there is none.\<close>

definition found :: "(8 word \<Rightarrow> bool) \<Rightarrow> (nat \<Rightarrow> 8 word \<Rightarrow> 'r) \<Rightarrow> 8 word list \<Rightarrow> nat \<Rightarrow> 'r cres" where
  "found hit answer mem i = (case first hit (drop i mem) of Some k \<Rightarrow> Inr (answer (i + k) (mem ! (i + k))) | None \<Rightarrow> Inl OutOfBounds)"

text \<open>
  A scan by words after a scan by bytes up to an aligned address: its test fires for
  every word with a byte it looks for, and may fire for others.
\<close>

locale word_scan =
  fixes test :: "64 word \<Rightarrow> bool" and hit :: "8 word \<Rightarrow> bool" and answer :: "nat \<Rightarrow> 8 word \<Rightarrow> 'r"
    and loop :: "8 word list \<Rightarrow> nat \<Rightarrow> 'r cres" and head :: "8 word list \<Rightarrow> nat \<Rightarrow> 'r cres"
  assumes fires: "length bs = 8 \<Longrightarrow> b \<in> set bs \<Longrightarrow> hit b \<Longrightarrow> test (le bs)"
    and loop_step: "loop mem i = bindR (long_at mem i) (\<lambda>longword.
      if test longword then
        (case first hit (take 8 (drop i mem)) of
           Some k \<Rightarrow> Inr (answer (i + k) (mem ! (i + k)))
         | None \<Rightarrow> loop mem (i + 8))
      else loop mem (i + 8))"
    and head_step: "head mem i =
      (if i mod 8 \<noteq> 0 then bindR (getR mem (int i)) (\<lambda>b. if hit b then Inr (answer i b) else head mem (i + 1))
       else loop mem i)"
begin

lemma loop_found: "8 dvd length mem \<Longrightarrow> 8 dvd i \<Longrightarrow> i \<le> length mem \<Longrightarrow> loop mem i = found hit answer mem i"
proof (induction "length mem - i" arbitrary: i rule: less_induct)
  case less
  show ?case
  proof (cases "i + 8 \<le> length mem")
    case True
    let ?bs = "take 8 (drop i mem)"
    have l: "length ?bs = 8" using True by simp
    have "loop mem (i + 8) = found hit answer mem (i + 8)" using less True by simp
    moreover have "first hit ?bs = None" if "\<not> test (le ?bs)" using fires [OF l] that by (auto simp: first_None_iff)
    moreover have "first hit (drop i mem) =
        (case first hit ?bs of Some k \<Rightarrow> Some k | None \<Rightarrow> map_option (\<lambda>k. 8 + k) (first hit (drop (i + 8) mem)))"
      using first_append [of hit ?bs "drop (i + 8) mem", unfolded drop_8 [OF True, symmetric] l] .
    ultimately show ?thesis
      using True by (subst loop_step) (auto simp: long_at_def found_def add.assoc split: option.splits)
  next
    case False
    have "8 dvd length mem - i" using less.prems by simp
    from dvd_imp_le [OF this] False less.prems(3) have "length mem = i" by linarith
    then show ?thesis by (subst loop_step) (simp add: long_at_def found_def)
  qed
qed

lemma head_found: "8 dvd length mem \<Longrightarrow> i \<le> length mem \<Longrightarrow> head mem i = found hit answer mem i"
proof (induction "length mem - i" arbitrary: i rule: less_induct)
  case less
  show ?case
  proof (cases "8 dvd i")
    case True
    then show ?thesis using less.prems by (subst head_step) (simp add: loop_found)
  next
    case False
    with less.prems have i: "i < length mem" by (metis le_neq_implies_less)
    with less have "head mem (i + 1) = found hit answer mem (i + 1)" by simp
    moreover have "drop i mem = mem ! i # drop (i + 1) mem" using i by (simp add: Cons_nth_drop_Suc)
    ultimately show ?thesis using False i
      by (subst head_step) (auto simp: getR_def found_def mod_eq_0_iff_dvd split: option.splits)
  qed
qed

end

interpretation sl: word_scan strlen_test "\<lambda>b. b = 0" "\<lambda>j b. j - str" "\<lambda>mem. strlen_loop mem str" "\<lambda>mem. strlen_head mem str" for str
proof
  show "strlen_loop mem str i = bindR (long_at mem i) (\<lambda>longword. if strlen_test longword
      then case first (\<lambda>b. b = 0) (take 8 (drop i mem)) of None \<Rightarrow> strlen_loop mem str (i + 8) | Some k \<Rightarrow> Inr (i + k - str)
      else strlen_loop mem str (i + 8))" for mem i by (rule strlen_loop.simps)
  show "strlen_head mem str i = (if i mod 8 \<noteq> 0 then bindR (getR mem (int i)) (\<lambda>b. if b = 0 then Inr (i - str)
      else strlen_head mem str (i + 1)) else strlen_loop mem str i)" for mem i by (rule strlen_head.simps)
qed (auto simp: strlen_test_exact)

interpretation sc: word_scan "\<lambda>w. hole_test w \<or> hole_test (w XOR charmask c)" "\<lambda>b. b = c \<or> b = 0"
  "\<lambda>j b. if b = c then Some j else None" "\<lambda>mem. strchr_loop mem c" "\<lambda>mem. strchr_head mem c" for c
proof
  fix bs :: "8 word list" and b
  assume l: "length bs = 8" and b: "b \<in> set bs" "b = c \<or> b = 0"
  then have "0 \<in> set bs \<or> 0 \<in> set (map (\<lambda>b. b XOR c) bs)" unfolding xor_zero by blast
  then show "hole_test (le bs) \<or> hole_test (le bs XOR charmask c)"
    unfolding xor_bytes [OF l] using hole_test_zero l by (metis length_map)
next
  fix mem i
  show "strchr_loop mem c i = bindR (long_at mem i) (\<lambda>longword. if hole_test longword \<or> hole_test (longword XOR charmask c)
      then case first (\<lambda>b. b = c \<or> b = 0) (take 8 (drop i mem)) of None \<Rightarrow> strchr_loop mem c (i + 8)
        | Some k \<Rightarrow> Inr (if mem ! (i + k) = c then Some (i + k) else None)
      else strchr_loop mem c (i + 8))" by (rule strchr_loop.simps)
  show "strchr_head mem c i = (if i mod 8 \<noteq> 0 then bindR (getR mem (int i)) (\<lambda>b. if b = c \<or> b = 0
      then Inr (if b = c then Some i else None) else strchr_head mem c (i + 1)) else strchr_loop mem c i)"
    by (subst strchr_head.simps) (auto intro!: bindR_cong)
qed

section \<open>Equivalence with the byte by byte functions\<close>

definition chr8 :: "8 word \<Rightarrow> char" where
  "chr8 b = char_of (unat b)"

lemma chr8_eq [simp]: "chr8 a = chr8 b \<longleftrightarrow> a = b"
proof
  assume "chr8 a = chr8 b"
  then have "unat a mod 256 = unat b mod 256" by (simp add: chr8_def char_of_eq_iff take_bit_eq_mod)
  then show "a = b" using unat_byte [of a] unat_byte [of b] by (simp add: word_unat_eq_iff)
qed simp

lemma chr8_NUL [simp]: "chr8 b = NUL \<longleftrightarrow> b = 0"
proof -
  have "chr8 0 = NUL" by code_simp
  then show ?thesis by (metis chr8_eq)
qed

lemma strlen_first: "strlen (map chr8 bs) = (case first (\<lambda>b. b = 0) bs of Some k \<Rightarrow> Inr k | None \<Rightarrow> Inl OutOfBounds)"
  by (induction bs) (auto split: option.splits)

lemma strchr_first:
  "strchr (map chr8 bs) (chr8 c) =
     (case first (\<lambda>b. b = c \<or> b = 0) bs of Some k \<Rightarrow> Inr (if bs ! k = c then Some k else None) | None \<Rightarrow> Inl OutOfBounds)"
  by (induction bs) (auto split: option.splits)

lemma memchr_first: "memchr xs c n = first (\<lambda>b. b = c) (take n xs)"
  by (induction xs c n rule: memchr.induct) simp_all

text \<open>
  C15. \<open>strlen\<close> by words is \<open>strlen\<close> by bytes: in a region of whole words, wherever the string starts, it returns
  the number of bytes before the first zero byte, and it leaves the region only when there is no zero byte in it.
\<close>

theorem strlen_words:
  assumes "8 dvd length mem" "str \<le> length mem"
  shows "strlen_word mem str = strlen (map chr8 (drop str mem))"
  using assms by (simp add: strlen_word_def sl.head_found found_def strlen_first split: option.splits)

theorem strlen_words_witness:
  "strlen_word [1, 2, 3, 0x41, 0x42, 0x80, 0xFF, 0x43, 0x44, 0, 7, 7, 7, 7, 7, 7] 3 = Inr 6"
proof -
  let ?m = "[1, 2, 3, 0x41, 0x42, 0x80, 0xFF, 0x43, 0x44, 0, 7, 7, 7, 7, 7, 7] :: 8 word list"
  have l: "length ?m = 16" by simp
  have "8 dvd length ?m" "3 \<le> length ?m" unfolding l by simp_all
  from strlen_words [OF this] show ?thesis by (simp add: strlen_first)
qed

text \<open>
  C14. \<open>strchr\<close> by words is \<open>strchr\<close> by bytes: its test may fire for a word without the character or a zero
  byte, but never misses one, so that the result is the first occurrence before the end of the string, or none.
\<close>

theorem strchr_words:
  assumes "8 dvd length mem" "s \<le> length mem"
  shows "strchr_word mem s c_in = bindR (strchr (map chr8 (drop s mem)) (chr8 (ucast c_in))) (\<lambda>r. Inr (map_option (\<lambda>k. s + k) r))"
  using assms by (auto simp: strchr_word_def sc.head_found found_def strchr_first dest: first_less split: option.splits)

theorem strchr_words_witness:
  "strchr_word [0x3D, 2, 3, 0x41, 0x42, 0x80, 0xFF, 0x80, 0x44, 0x3D, 7, 0, 7, 7, 7, 7] 3 0x3D = Inr (Some 9)"
proof -
  let ?m = "[0x3D, 2, 3, 0x41, 0x42, 0x80, 0xFF, 0x80, 0x44, 0x3D, 7, 0, 7, 7, 7, 7] :: 8 word list"
  have l: "length ?m = 16" by simp
  have "8 dvd length ?m" "3 \<le> length ?m" unfolding l by simp_all
  from strchr_words [OF this, of "0x3D"] show ?thesis by (simp add: strchr_first)
qed

lemma memchr_tail_first:
  "i + n \<le> length mem \<Longrightarrow> memchr_tail mem c n i = Inr (map_option (\<lambda>k. i + k) (first (\<lambda>b. b = c) (take n (drop i mem))))"
proof (induction n arbitrary: i)
  case (Suc n)
  then have "drop i mem = mem ! i # drop (i + 1) mem" by (simp add: Cons_nth_drop_Suc)
  with Suc show ?case by (auto simp: getR_def option.map_comp comp_def)
qed simp

lemma memchr_loop_first:
  "i + n \<le> length mem \<Longrightarrow> memchr_loop mem c n i = Inr (map_option (\<lambda>k. i + k) (first (\<lambda>b. b = c) (take n (drop i mem))))"
proof (induction n arbitrary: i rule: less_induct)
  case (less n)
  show ?case
  proof (cases "n \<ge> 8")
    case True
    let ?bs = "take 8 (drop i mem)"
    have l: "length ?bs = 8" using True less.prems by simp
    have t: "take n (drop i mem) = ?bs @ take (n - 8) (drop (i + 8) mem)"
      using True take_add [of 8 "n - 8" "drop i mem"] by (simp add: add.commute)
    have "first (\<lambda>b. b = c) ?bs = None" if "\<not> memchr_test (le ?bs XOR repeated_c c)"
      using that strlen_test_exact [of "map (\<lambda>b. b XOR c) ?bs"] l
      by (auto simp: memchr_test_eq xor_bytes [OF l] xor_zero first_None_iff simp del: set_map list.set_map)
    then show ?thesis using True less.IH [of "n - 8" "i + 8"] less.prems l memchr_tail_first [OF less.prems, of c]
      by (subst memchr_loop.simps) (auto simp: long_at_def t first_append option.map_comp comp_def add.assoc)
  next
    case False
    then show ?thesis by (subst memchr_loop.simps) (simp add: memchr_tail_first [OF less.prems])
  qed
qed

lemma memchr_head_first:
  "i + n \<le> length mem \<Longrightarrow> memchr_head mem c n i = Inr (map_option (\<lambda>k. i + k) (first (\<lambda>b. b = c) (take n (drop i mem))))"
proof (induction n arbitrary: i)
  case 0
  then show ?case using memchr_loop_first [of i 0 mem c] by simp
next
  case (Suc n)
  then have "drop i mem = mem ! i # drop (i + 1) mem" by (simp add: Cons_nth_drop_Suc)
  with Suc memchr_loop_first [OF Suc.prems, of c] show ?case by (auto simp: getR_def option.map_comp comp_def)
qed

text \<open>
  C16. \<open>memchr\<close> by words is \<open>memchr\<close> by bytes, and it reads nothing but the \<open>n\<close> bytes it is given: it is free of faults in any
  memory that holds them.
\<close>

theorem memchr_words:
  assumes "s + n \<le> length mem"
  shows "memchr_word mem s c_in n = Inr (map_option (\<lambda>k. s + k) (memchr (drop s mem) (ucast c_in) n))"
  using memchr_head_first [OF assms] by (simp add: memchr_word_def memchr_first)

theorem memchr_words_witness:
  "memchr_word [0x0A, 2, 3, 0x41, 0x42, 0x80, 0xFF, 0x80, 0x44, 0x3D, 7, 0, 7, 7, 7, 7, 0x0A, 1] 3 0x0A 15 = Inr (Some 16)"
  using memchr_words [of 3 15 "[0x0A, 2, 3, 0x41, 0x42, 0x80, 0xFF, 0x80, 0x44, 0x3D, 7, 0, 7, 7, 7, 7, 0x0A, 1]" "0x0A"]
  by (simp add: memchr_first)

end
