(* ===== verification/WordCopy.thy ===== *)
theory WordCopy
  imports WordScan
begin

text \<open>
  Copying and filling by words: \<open>memset\<close> and \<open>memcpy\<close> of the bundled C library
  (\<^verbatim>\<open>glibc-2.27/string/memset.c\<close>, \<^verbatim>\<open>memcpy.c\<close>, \<^verbatim>\<open>wordcopy.c\<close>, \<^verbatim>\<open>sysdeps/generic/memcopy.h\<close>).  The copy
  loops are unrolled and entered in the middle, with one word (or two, when source and
  destination are aligned differently) read ahead and held in a register.  A register
  that was not assigned is \<open>None\<close>.  Source and destination are two regions whose indices
  tell the alignment.  The lemmas show that the functions do what \<open>memset\<close> and \<open>memcpy\<close> of
  theory \<open>CString\<close> do.
\<close>

section \<open>Words in memory\<close>

definition load :: "8 word list \<Rightarrow> int \<Rightarrow> 64 word cres" where
  "load src p = (if p < 0 then Inl OutOfBounds else long_at src (nat p))"

definition put :: "8 word list \<Rightarrow> int \<Rightarrow> 64 word \<Rightarrow> 8 word list cres" where
  "put dst p w = (if p < 0 then Inl OutOfBounds else store dst (nat p) (le_bytes 8 w))"

definition reg :: "64 word option \<Rightarrow> 64 word cres" where
  "reg a = (case a of None \<Rightarrow> Inl Uninit | Some w \<Rightarrow> Inr w)"

section \<open>memset\<close>

fun set_bytes :: "8 word list \<Rightarrow> int \<Rightarrow> 8 word \<Rightarrow> nat \<Rightarrow> 8 word list cres" where
  "set_bytes dst dstp c 0 = Inr dst"
| "set_bytes dst dstp c (Suc len) = bindR (setR dst dstp c) (\<lambda>dst. set_bytes dst (dstp + 1) c len)"

fun set_words :: "8 word list \<Rightarrow> int \<Rightarrow> 64 word \<Rightarrow> nat \<Rightarrow> 8 word list cres" where
  "set_words dst dstp cccc 0 = Inr dst"
| "set_words dst dstp cccc (Suc xlen) = bindR (put dst dstp cccc) (\<lambda>dst. set_words dst (dstp + 8) cccc xlen)"

text \<open>Eight words in each round.\<close>

fun set_blocks :: "8 word list \<Rightarrow> int \<Rightarrow> 64 word \<Rightarrow> nat \<Rightarrow> 8 word list cres" where
  "set_blocks dst dstp cccc 0 = Inr dst"
| "set_blocks dst dstp cccc (Suc xlen) =
     bindR (set_words dst dstp cccc 8) (\<lambda>dst. set_blocks dst (dstp + 8 * 8) cccc xlen)"

lemma neg_mod_8:
  fixes p :: int
  shows "0 \<le> - p mod 8" "0 < - p mod 8 \<longleftrightarrow> p mod 8 \<noteq> 0" "p mod 8 \<noteq> 0 \<Longrightarrow> (- p - 1) mod 8 = - p mod 8 - 1"
proof -
  have e: "- p - 1 = - (p + 1)" by simp
  have r: "0 \<le> p mod 8" "p mod 8 < 8" by simp_all
  have "(p + 1) mod 8 = (p mod 8 + 1) mod 8" by (simp add: mod_simps)
  also have "\<dots> = (if p mod 8 = 7 then 0 else p mod 8 + 1)"
    using r by (cases "p mod 8 = 7") (simp_all add: mod_pos_pos_trivial)
  finally show "p mod 8 \<noteq> 0 \<Longrightarrow> (- p - 1) mod 8 = - p mod 8 - 1"
    using r unfolding e zmod_zminus1_eq_if by (simp split: if_splits)
  show "0 \<le> - p mod 8" "0 < - p mod 8 \<longleftrightarrow> p mod 8 \<noteq> 0" using r by (auto simp: zmod_zminus1_eq_if)
qed

text \<open>The loop that aligns the pointer; it returns the memory, the pointer and the length left.\<close>

function set_align :: "8 word list \<Rightarrow> int \<Rightarrow> 8 word \<Rightarrow> nat \<Rightarrow> (8 word list \<times> int \<times> nat) cres" where
  "set_align dst dstp c len =
     (if dstp mod 8 \<noteq> 0 then bindR (setR dst dstp c) (\<lambda>dst. set_align dst (dstp + 1) c (len - 1))
      else Inr (dst, dstp, len))"
  by pat_completeness auto
termination
  by (relation "measure (\<lambda>(dst, dstp, c, len). nat (- dstp mod 8))")
    (simp_all add: neg_mod_8 nat_less_iff)

text \<open>The word \<open>cccc\<close> is computed as \<open>strchr\<close> computes its \<open>charmask\<close>; a byte written is the low byte of \<open>c\<close>.\<close>

definition memset_word :: "8 word list \<Rightarrow> nat \<Rightarrow> 32 word \<Rightarrow> nat \<Rightarrow> 8 word list cres" where
  "memset_word dst d c len =
     bindR (if len \<ge> 8 then
        let cccc = charmask (ucast c)
        in bindR (set_align dst (int d) (ucast c) len) (\<lambda>(dst, dstp, len).
           bindR (set_blocks dst dstp cccc (len div (8 * 8))) (\<lambda>dst.
           let dstp = dstp + 8 * 8 * int (len div (8 * 8)); len = len mod (8 * 8)
           in bindR (set_words dst dstp cccc (len div 8)) (\<lambda>dst.
              Inr (dst, dstp + 8 * int (len div 8), len mod 8))))
      else Inr (dst, int d, len))
     (\<lambda>(dst, dstp, len). set_bytes dst dstp (ucast c) len)"

section \<open>memcpy\<close>

fun BYTE_COPY_FWD :: "8 word list \<Rightarrow> int \<Rightarrow> 8 word list \<Rightarrow> int \<Rightarrow> nat \<Rightarrow> 8 word list cres" where
  "BYTE_COPY_FWD dst dst_bp src src_bp 0 = Inr dst"
| "BYTE_COPY_FWD dst dst_bp src src_bp (Suc nbytes) =
     bindR (getR src src_bp) (\<lambda>x. bindR (setR dst dst_bp x) (\<lambda>dst. BYTE_COPY_FWD dst (dst_bp + 1) src (src_bp + 1) nbytes))"

text \<open>
  The body of the loop from the label \<open>do\<close>\<open>j\<close> to its end: step \<open>i = 8 - j\<close> reads word \<open>i\<close> into
  \<open>a0\<close> or \<open>a1\<close> and writes the other register to word \<open>i\<close>.
\<close>

fun fwd_from :: "8 word list \<Rightarrow> int \<Rightarrow> int \<Rightarrow> nat \<Rightarrow> 64 word option \<times> 64 word option \<Rightarrow> 8 word list \<Rightarrow>
    ((64 word option \<times> 64 word option) \<times> 8 word list) cres" where
  "fwd_from src srcp dstp 0 a dst = Inr (a, dst)"
| "fwd_from src srcp dstp (Suc j) (a0, a1) dst =
     (let i = 7 - int j
      in bindR (load src (srcp + 8 * i)) (\<lambda>w.
         bindR (reg (if even i then a1 else a0)) (\<lambda>v.
         bindR (put dst (dstp + 8 * i) v) (\<lambda>dst.
         fwd_from src srcp dstp j (if even i then (Some w, a1) else (a0, Some w)) dst))))"

text \<open>The loop and \<open>do0\<close>.  A length that does not reach zero in steps of 8 would wrap around.\<close>

function fwd_loop :: "8 word list \<Rightarrow> int \<Rightarrow> int \<Rightarrow> nat \<Rightarrow> nat \<Rightarrow> 64 word option \<times> 64 word option \<Rightarrow> 8 word list \<Rightarrow> 8 word list cres" where
  "fwd_loop src srcp dstp j len a dst =
     bindR (fwd_from src srcp dstp j a dst) (\<lambda>(a, dst).
     if len < 8 then Inl NoReturn
     else if len = 8 then bindR (reg (snd a)) (put dst (dstp + 64))
     else fwd_loop src (srcp + 64) (dstp + 64) 8 (len - 8) a dst)"
  by pat_completeness auto
termination
  by (relation "measure (\<lambda>(src, srcp, dstp, j, len, a, dst). len)") auto

text \<open>
  The switch on \<open>len % 8\<close>: each case reads the first word into \<open>a0\<close> or \<open>a1\<close>, moves the pointers
  and jumps to its label.  \<open>OP_T_THRES <= 3 * OPSIZ\<close> holds, so that the two tests of \<open>len\<close> are made.
\<close>

definition wordcopy_fwd_aligned :: "8 word list \<Rightarrow> int \<Rightarrow> 8 word list \<Rightarrow> int \<Rightarrow> nat \<Rightarrow> 8 word list cres" where
  "wordcopy_fwd_aligned dst dstp src srcp len =
     (let r = len mod 8
      in if r = 0 \<and> len = 0 then Inr dst
      else bindR (load src srcp) (\<lambda>w.
        if r = 2 then fwd_loop src (srcp - 6 * 8) (dstp - 7 * 8) 1 (len + 6) (Some w, None) dst
        else if r = 3 then fwd_loop src (srcp - 5 * 8) (dstp - 6 * 8) 2 (len + 5) (None, Some w) dst
        else if r = 4 then fwd_loop src (srcp - 4 * 8) (dstp - 5 * 8) 3 (len + 4) (Some w, None) dst
        else if r = 5 then fwd_loop src (srcp - 3 * 8) (dstp - 4 * 8) 4 (len + 3) (None, Some w) dst
        else if r = 6 then fwd_loop src (srcp - 2 * 8) (dstp - 3 * 8) 5 (len + 2) (Some w, None) dst
        else if r = 7 then fwd_loop src (srcp - 1 * 8) (dstp - 2 * 8) 6 (len + 1) (None, Some w) dst
        else if r = 0 then fwd_loop src (srcp - 0 * 8) (dstp - 1 * 8) 7 len (Some w, None) dst
        else if len - 1 = 0 then put dst (dstp - 0 * 8) w
        else fwd_loop src (srcp + 1 * 8) (dstp - 0 * 8) 8 (len - 1) (None, Some w) dst))"

definition MERGE :: "64 word \<Rightarrow> nat \<Rightarrow> 64 word \<Rightarrow> nat \<Rightarrow> 64 word" where
  "MERGE w0 sh_1 w1 sh_2 = drop_bit sh_1 w0 OR push_bit sh_2 w1"

text \<open>
  The same for a source that is not aligned, with four registers: step \<open>i = 4 - j\<close> reads word \<open>i\<close>
  into \<open>a\<close>\<open>i\<close> and writes the merge of the two words read before.
\<close>

fun dest_from :: "nat \<Rightarrow> 8 word list \<Rightarrow> int \<Rightarrow> int \<Rightarrow> nat \<Rightarrow> 64 word option list \<Rightarrow> 8 word list \<Rightarrow>
    (64 word option list \<times> 8 word list) cres" where
  "dest_from sh src srcp dstp 0 a dst = Inr (a, dst)"
| "dest_from sh src srcp dstp (Suc j) a dst =
     (let i = 3 - j
      in bindR (load src (srcp + 8 * int i)) (\<lambda>w.
         bindR (reg (a ! ((i + 2) mod 4))) (\<lambda>x.
         bindR (reg (a ! ((i + 3) mod 4))) (\<lambda>y.
         bindR (put dst (dstp + 8 * int i) (MERGE x sh y (64 - sh))) (\<lambda>dst.
         dest_from sh src srcp dstp j (a[i := Some w]) dst)))))"

function dest_loop :: "nat \<Rightarrow> 8 word list \<Rightarrow> int \<Rightarrow> int \<Rightarrow> nat \<Rightarrow> nat \<Rightarrow> 64 word option list \<Rightarrow> 8 word list \<Rightarrow> 8 word list cres" where
  "dest_loop sh src srcp dstp j len a dst =
     bindR (dest_from sh src srcp dstp j a dst) (\<lambda>(a, dst).
     if len < 4 then Inl NoReturn
     else if len = 4 then
       bindR (reg (a ! 2)) (\<lambda>x. bindR (reg (a ! 3)) (\<lambda>y. put dst (dstp + 32) (MERGE x sh y (64 - sh))))
     else dest_loop sh src (srcp + 32) (dstp + 32) 4 (len - 4) a dst)"
  by pat_completeness auto
termination
  by (relation "measure (\<lambda>(sh, src, srcp, dstp, j, len, a, dst). len)") auto

definition wordcopy_fwd_dest_aligned :: "8 word list \<Rightarrow> int \<Rightarrow> 8 word list \<Rightarrow> int \<Rightarrow> nat \<Rightarrow> 8 word list cres" where
  "wordcopy_fwd_dest_aligned dst dstp src srcp len =
     (let sh_1 = 8 * nat (srcp mod 8); sh_2 = 8 * 8 - sh_1; srcp = srcp - srcp mod 8; r = len mod 4
      in if r = 0 \<and> len = 0 then Inr dst
      else bindR (load src srcp) (\<lambda>w. bindR (load src (srcp + 8)) (\<lambda>v.
        if r = 2 then dest_loop sh_1 src (srcp - 1 * 8) (dstp - 3 * 8) 1 (len + 2) [None, Some w, Some v, None] dst
        else if r = 3 then dest_loop sh_1 src (srcp - 0 * 8) (dstp - 2 * 8) 2 (len + 1) [Some w, Some v, None, None] dst
        else if r = 0 then dest_loop sh_1 src (srcp + 1 * 8) (dstp - 1 * 8) 3 (len + 0) [Some v, None, None, Some w] dst
        else if len - 1 = 0 then put dst (dstp - 0 * 8) (MERGE w sh_1 v sh_2)
        else dest_loop sh_1 src (srcp + 2 * 8) (dstp - 0 * 8) 4 (len - 1) [None, None, Some w, Some v] dst)))"

definition WORD_COPY_FWD :: "8 word list \<Rightarrow> int \<Rightarrow> 8 word list \<Rightarrow> int \<Rightarrow> nat \<Rightarrow> (8 word list \<times> int \<times> int \<times> nat) cres" where
  "WORD_COPY_FWD dst dst_bp src src_bp nbytes =
     bindR (if src_bp mod 8 = 0 then wordcopy_fwd_aligned dst dst_bp src src_bp (nbytes div 8)
            else wordcopy_fwd_dest_aligned dst dst_bp src src_bp (nbytes div 8))
     (\<lambda>dst. Inr (dst, dst_bp + int (nbytes - nbytes mod 8), src_bp + int (nbytes - nbytes mod 8), nbytes mod 8))"

definition OP_T_THRES :: nat where
  "OP_T_THRES = 16"

definition memcpy_word :: "8 word list \<Rightarrow> nat \<Rightarrow> 8 word list \<Rightarrow> nat \<Rightarrow> nat \<Rightarrow> 8 word list cres" where
  "memcpy_word dst d src s len =
     bindR (if len \<ge> OP_T_THRES then
        let n = nat (- int d mod 8); len = len - n
        in bindR (BYTE_COPY_FWD dst (int d) src (int s) n) (\<lambda>dst.
           WORD_COPY_FWD dst (int d + int n) src (int s + int n) len)
      else Inr (dst, int d, int s, len))
     (\<lambda>(dst, dstp, srcp, len). BYTE_COPY_FWD dst dstp src srcp len)"

section \<open>Adjacent blocks\<close>

definition patch :: "'a list \<Rightarrow> nat \<Rightarrow> 'a list \<Rightarrow> 'a list" where
  "patch dst q bs = take q dst @ bs @ drop (q + length bs) dst"

lemma store_patch: "store dst q bs = (if q + length bs \<le> length dst then Inr (patch dst q bs) else Inl OutOfBounds)"
  by (simp add: store_def patch_def)

lemma length_patch [simp]: "q + length bs \<le> length dst \<Longrightarrow> length (patch dst q bs) = length dst"
  by (simp add: patch_def)

lemma patch_nil [simp]: "patch dst q [] = dst"
  by (simp add: patch_def)

lemma patch_patch:
  "q + length as + length bs \<le> length dst \<Longrightarrow> r = q + length as \<Longrightarrow> patch (patch dst q as) r bs = patch dst q (as @ bs)"
  by (simp add: patch_def ac_simps)

lemma patch_one: "q < length dst \<Longrightarrow> dst[q := x] = patch dst q [x]"
  by (simp add: patch_def upd_conv_take_nth_drop)

lemma put_eq: "q + 8 \<le> length dst \<Longrightarrow> put dst (int q) w = Inr (patch dst q (le_bytes 8 w))"
  by (simp add: put_def store_patch del: le_bytes.simps)

lemma load_eq: "p + 8 \<le> length src \<Longrightarrow> load src (int p) = Inr (le (take 8 (drop p src)))"
  by (simp add: load_def long_at_def)

lemma le_bytes_take [simp]: "p + 8 \<le> length src \<Longrightarrow> le_bytes 8 (le (take 8 (drop p src)) :: 64 word) = take 8 (drop p src)"
  using le_bytes_le [of "take 8 (drop p src)", where 'a = 64] by (simp del: le_bytes.simps)

section \<open>memset by words\<close>

lemma set_bytes_eq: "q + n \<le> length dst \<Longrightarrow> set_bytes dst (int q) c n = Inr (patch dst q (replicate n c))"
proof (induction n arbitrary: dst q)
  case (Suc n)
  from Suc.IH [of "Suc q" "patch dst q [c]"] Suc.prems show ?case
    by (simp add: patch_one patch_patch add.commute)
qed simp

lemma charmask_replicate: "le_bytes 8 (charmask c) = replicate 8 c"
  using le_bytes_le [of "replicate 8 c", where 'a = 64] by (simp add: charmask_bytes del: le_bytes.simps)

lemma set_words_eq:
  "q + 8 * n \<le> length dst \<Longrightarrow> set_words dst (int q) (charmask c) n = Inr (patch dst q (replicate (8 * n) c))"
proof (induction n arbitrary: dst q)
  case (Suc n)
  from Suc.IH [of "q + 8" "patch dst q (replicate 8 c)"] Suc.prems show ?case
    by (simp add: put_eq charmask_replicate patch_patch flip: replicate_add del: le_bytes.simps)
qed simp

lemma set_blocks_eq:
  "q + 64 * n \<le> length dst \<Longrightarrow> set_blocks dst (int q) (charmask c) n = Inr (patch dst q (replicate (64 * n) c))"
proof (induction n arbitrary: dst q)
  case (Suc n)
  from Suc.IH [of "q + 64" "patch dst q (replicate 64 c)"] Suc.prems set_words_eq [of q 8 dst c] show ?case
    by (simp add: patch_patch flip: replicate_add del: set_words.simps)
qed simp

lemma align_mod: "(q + nat (- int q mod 8)) mod 8 = 0"
proof -
  have "int (q + nat (- int q mod 8)) mod 8 = 0" by (simp add: mod_simps)
  then have "int ((q + nat (- int q mod 8)) mod 8) = 0" by (simp only: zmod_int of_nat_numeral)
  then show ?thesis by (simp only: of_nat_eq_0_iff)
qed

lemma set_align_eq:
  "q + h \<le> length dst \<Longrightarrow> h = nat (- int q mod 8) \<Longrightarrow>
   set_align dst (int q) c len = Inr (patch dst q (replicate h c), int (q + h), len - h)"
proof (induction h arbitrary: dst q len)
  case 0
  from 0(2) neg_mod_8(1,2) [of "int q"] have "int q mod 8 = 0" by linarith
  then show ?case by simp
next
  case (Suc h)
  from Suc.prems(2) have m: "- int q mod 8 = int h + 1" by linarith
  then have "int q mod 8 \<noteq> 0" using neg_mod_8(2) [of "int q"] by linarith
  moreover have "- int (Suc q) = - int q - 1" by simp
  with neg_mod_8(3) [OF calculation] m have "h = nat (- int (Suc q) mod 8)" by (simp only: nat_int add_diff_cancel_right')
  with Suc.prems(1) have "set_align (patch dst q [c]) (int (Suc q)) c (len - 1) =
      Inr (patch (patch dst q [c]) (Suc q) (replicate h c), int (Suc q + h), len - 1 - h)"
    by (intro Suc.IH) simp_all
  ultimately show ?case using Suc.prems(1)
    by (subst set_align.simps) (simp add: patch_one patch_patch add.commute del: set_align.simps)
qed

lemma patch_replicate:
  "q + m + n \<le> length dst \<Longrightarrow> r = q + m \<Longrightarrow>
   patch (patch dst q (replicate m c)) r (replicate n c) = patch dst q (replicate (m + n) c)"
  by (simp add: patch_patch replicate_add)

lemma memset_word_eq:
  assumes "d + len \<le> length dst"
  shows "memset_word dst d c len = memset dst d (ucast c) len"
proof (cases "8 \<le> len")
  case True
  define h where "h = nat (- int d mod 8)"
  have h: "h < 8" by (simp add: h_def nat_less_iff)
  define m where "m = len - h"
  have m: "64 * (m div 64) + 8 * (m mod 64 div 8) + m mod 64 mod 8 = m"
    using mult_div_mod_eq [of 64 m] mult_div_mod_eq [of 8 "m mod 64"] by linarith
  have l: "len = h + m" using True h by (simp add: m_def)
  let ?x = "64 * (m div 64)" and ?y = "8 * (m mod 64 div 8)" and ?z = "m mod 64 mod 8"
  have b: "d + h + ?x + ?y + ?z \<le> length dst" using assms l m by linarith
  let ?c = "ucast c :: 8 word"
  have 1: "set_align dst (int d) ?c len = Inr (patch dst d (replicate h ?c), int (d + h), m)"
    using set_align_eq [of d h dst ?c len] b by (simp add: h_def m_def)
  have 2: "set_blocks (patch dst d (replicate h ?c)) (int (d + h)) (charmask ?c) (m div 64) =
      Inr (patch dst d (replicate (h + ?x) ?c))"
    using set_blocks_eq [of "d + h" "m div 64" "patch dst d (replicate h ?c)" ?c] b by (simp add: patch_replicate)
  have 3: "set_words (patch dst d (replicate (h + ?x) ?c)) (int (d + h + ?x)) (charmask ?c) (m mod 64 div 8) =
      Inr (patch dst d (replicate (h + ?x + ?y) ?c))"
    using set_words_eq [of "d + h + ?x" "m mod 64 div 8" "patch dst d (replicate (h + ?x) ?c)" ?c] b by (simp add: patch_replicate)
  have 4: "set_bytes (patch dst d (replicate (h + ?x + ?y) ?c)) (int (d + h + ?x + ?y)) ?c ?z =
      Inr (patch dst d (replicate len ?c))"
    using set_bytes_eq [of "d + h + ?x + ?y" ?z "patch dst d (replicate (h + ?x + ?y) ?c)" ?c] b m l
    by (simp add: patch_replicate add.assoc)
  have "memset_word dst d c len = Inr (patch dst d (replicate len ?c))"
    using 1 2 3 4 True by (simp add: memset_word_def Let_def del: set_align.simps)
  then show ?thesis using assms by (simp add: memset_def store_patch)
next
  case False
  then show ?thesis using assms by (simp add: memset_word_def memset_def store_patch set_bytes_eq)
qed

section \<open>memcpy by words\<close>

lemma take_drop_add: "take n (drop s src) @ take m (drop (s + n) src) = take (n + m) (drop s src)"
  by (simp add: take_add) (simp add: add.commute)

lemma BYTE_COPY_FWD_eq:
  "d + n \<le> length dst \<Longrightarrow> s + n \<le> length src \<Longrightarrow>
   BYTE_COPY_FWD dst (int d) src (int s) n = Inr (patch dst d (take n (drop s src)))"
proof (induction n arbitrary: dst d s)
  case (Suc n)
  from Suc.prems have "[src ! s] @ take n (drop (s + 1) src) = take (Suc n) (drop s src)"
    using take_drop_add [of 1 s src n] by (simp add: take_Suc hd_drop_conv_nth)
  with Suc.IH [of "Suc d" "patch dst d [src ! s]" "Suc s"] Suc.prems show ?case
    by (simp add: patch_one patch_patch add.commute)
qed simp

text \<open>
  The loops without the unrolling: a register holds the word to write, or the two words to
  merge, while the next one is read.
\<close>

fun pipe :: "8 word list \<Rightarrow> int \<Rightarrow> int \<Rightarrow> nat \<Rightarrow> 64 word \<Rightarrow> 8 word list \<Rightarrow> 8 word list cres" where
  "pipe src p q 0 v dst = put dst q v"
| "pipe src p q (Suc m) v dst =
     bindR (load src p) (\<lambda>w. bindR (put dst q v) (\<lambda>dst. pipe src (p + 8) (q + 8) m w dst))"

fun merge_pipe :: "nat \<Rightarrow> 8 word list \<Rightarrow> int \<Rightarrow> int \<Rightarrow> nat \<Rightarrow> 64 word \<Rightarrow> 64 word \<Rightarrow> 8 word list \<Rightarrow> 8 word list cres" where
  "merge_pipe sh src p q 0 x y dst = put dst q (MERGE x sh y (64 - sh))"
| "merge_pipe sh src p q (Suc m) x y dst =
     bindR (load src p) (\<lambda>w. bindR (put dst q (MERGE x sh y (64 - sh))) (\<lambda>dst. merge_pipe sh src (p + 8) (q + 8) m y w dst))"

lemma fwd_from_pipe:
  assumes "\<And>a0 w dst. K ((a0, Some w), dst) = pipe src (srcp + 64) (dstp + 64) m w dst"
  shows "j \<le> 8 \<Longrightarrow> (if even j then snd a else fst a) = Some v \<Longrightarrow>
    bindR (fwd_from src srcp dstp j a dst) K =
    pipe src (srcp + 8 * (8 - int j)) (dstp + 8 * (8 - int j)) (j + m) v dst"
proof (induction j arbitrary: a v dst)
  case 0
  with assms show ?case by (cases a) simp
next
  case (Suc j)
  obtain a0 a1 where a: "a = (a0, a1)" by (cases a)
  have e: "even (7 - int j) \<longleftrightarrow> odd j" by simp
  have s: "8 * (8 - int (Suc j)) = 8 * (7 - int j)" "x + 8 * (7 - int j) + 8 = x + 8 * (8 - int j)" for x by simp_all
  from Suc.prems a have p: "(if odd j then a1 else a0) = Some v" by (auto split: if_splits)
  show ?case
    using Suc.prems(1) p
    unfolding a fwd_from.simps Let_def e s add_Suc pipe.simps
    by (simp add: reg_def bindR_assoc Suc.IH s cong: bindR_cong del: pipe.simps)
qed

lemma multiple_le: "n mod k = 0 \<Longrightarrow> 0 < n \<Longrightarrow> k \<le> (n :: nat)"
  by (simp add: dvd_imp_le mod_eq_0_iff_dvd)

lemma fwd_loop_pipe:
  "len mod 8 = 0 \<Longrightarrow> 0 < len \<Longrightarrow> j \<le> 8 \<Longrightarrow> (if even j then snd a else fst a) = Some v \<Longrightarrow>
   fwd_loop src srcp dstp j len a dst =
   pipe src (srcp + 8 * (8 - int j)) (dstp + 8 * (8 - int j)) (j + (len - 8)) v dst"
proof (induction len arbitrary: srcp dstp j a v dst rule: less_induct)
  case (less len)
  have l: "8 \<le> len" by (rule multiple_le [OF less.prems(1,2)])
  show ?case
    unfolding fwd_loop.simps [of src srcp dstp j len a dst]
  proof (rule fwd_from_pipe [OF _ less.prems(3,4)], goal_cases)
    case (1 a0 w dst)
    show ?case
    proof (cases "len = 8")
      case True
      then show ?thesis by (simp add: reg_def)
    next
      case False
      with l less.prems(1) have "(len - 8) mod 8 = 0" "0 < len - 8" by (simp_all add: le_mod_geq)
      moreover from multiple_le [OF this] have "8 + (len - 16) = len - 8" by linarith
      ultimately show ?thesis
        using less.IH [of "len - 8" 8 "(a0, Some w)" w "srcp + 64" "dstp + 64" dst] l False by (simp del: fwd_loop.simps)
    qed
  qed
qed

lemma dest_from_pipe:
  assumes "\<And>a x y dst. length a = 4 \<Longrightarrow> a ! 2 = Some x \<Longrightarrow> a ! 3 = Some y \<Longrightarrow>
      K (a, dst) = merge_pipe sh src (srcp + 32) (dstp + 32) m x y dst"
  shows "j \<le> 4 \<Longrightarrow> length a = 4 \<Longrightarrow> a ! ((6 - j) mod 4) = Some x \<Longrightarrow> a ! ((7 - j) mod 4) = Some y \<Longrightarrow>
    bindR (dest_from sh src srcp dstp j a dst) K =
    merge_pipe sh src (srcp + 8 * (4 - int j)) (dstp + 8 * (4 - int j)) (j + m) x y dst"
proof (induction j arbitrary: a x y dst)
  case 0
  with assms show ?case by simp
next
  case (Suc j)
  have s: "8 * (4 - int (Suc j)) = 8 * int (3 - j)" "z + 8 * int (3 - j) + 8 = z + 8 * (4 - int j)" for z
    using Suc.prems(1) by (simp_all add: of_nat_diff)
  have "j \<in> {0, 1, 2, 3}" using Suc.prems(1) by auto
  then have i: "a ! ((3 - j + 2) mod 4) = Some x" "a ! ((3 - j + 3) mod 4) = Some y"
    and n: "a[3 - j := Some w] ! ((6 - j) mod 4) = Some y" "a[3 - j := Some w] ! ((7 - j) mod 4) = Some w" for w
    using Suc.prems(2,3,4) by (auto simp flip: numeral_2_eq_2 numeral_3_eq_3)
  show ?case
    using Suc.prems(1,2)
    unfolding dest_from.simps Let_def i s add_Suc merge_pipe.simps
    by (simp add: reg_def bindR_assoc Suc.IH n s cong: bindR_cong del: merge_pipe.simps)
qed

lemma dest_loop_pipe:
  "len mod 4 = 0 \<Longrightarrow> 0 < len \<Longrightarrow> j \<le> 4 \<Longrightarrow> length a = 4 \<Longrightarrow>
   a ! ((6 - j) mod 4) = Some x \<Longrightarrow> a ! ((7 - j) mod 4) = Some y \<Longrightarrow>
   dest_loop sh src srcp dstp j len a dst =
   merge_pipe sh src (srcp + 8 * (4 - int j)) (dstp + 8 * (4 - int j)) (j + (len - 4)) x y dst"
proof (induction len arbitrary: srcp dstp j a x y dst rule: less_induct)
  case (less len)
  have l: "4 \<le> len" by (rule multiple_le [OF less.prems(1,2)])
  show ?case
    unfolding dest_loop.simps [of sh src srcp dstp j len a dst]
  proof (rule dest_from_pipe [OF _ less.prems(3-6)], goal_cases)
    case (1 a x y dst)
    show ?case
    proof (cases "len = 4")
      case True
      then show ?thesis using 1 by (simp add: reg_def)
    next
      case False
      with l less.prems(1) have "(len - 4) mod 4 = 0" "0 < len - 4" by (simp_all add: le_mod_geq)
      moreover from multiple_le [OF this] have "4 + (len - 8) = len - 4" by linarith
      ultimately show ?thesis
        using less.IH [of "len - 4" 4 a x y "srcp + 32" "dstp + 32" dst] l False 1 by (simp del: dest_loop.simps)
    qed
  qed
qed

lemma drop_bit_le:
  assumes "length as + length cs \<le> 8"
  shows "drop_bit (8 * length as) (le (as @ cs) :: 64 word) = le cs"
proof -
  have p: "(2 :: nat) ^ (8 * length as) = 256 ^ length as" by (simp add: power_mult)
  have "unat (drop_bit (8 * length as) (le (as @ cs) :: 64 word)) = nat_le (as @ cs) div 256 ^ length as"
    using assms unat_le [of "as @ cs", where 'a = 64] by (simp only: unat_drop_bit_eq) (simp add: drop_bit_eq_div p)
  also have "\<dots> = nat_le cs" using nat_le_less [of as] by (simp add: nat_le_append)
  also have "\<dots> = unat (le cs :: 64 word)" using assms unat_le [of cs, where 'a = 64] by simp
  finally show ?thesis by (simp only: unsigned_word_eqI)
qed

lemma push_bit_le:
  assumes "length bs + n = 8"
  shows "push_bit (8 * n) (le (bs @ cs) :: 64 word) = word_of_nat (256 ^ n * nat_le bs)"
proof -
  have "256 ^ n * (256 ^ length bs * nat_le cs) = 2 ^ 64 * nat_le cs"
    using assms by (simp add: mult.assoc [symmetric] power_add [symmetric] add.commute)
  then have "256 ^ n * nat_le (bs @ cs) = 256 ^ n * nat_le bs + 2 ^ 64 * nat_le cs"
    by (simp add: nat_le_append distrib_left)
  moreover have "(word_of_nat (2 ^ 64 * nat_le cs) :: 64 word) = 0" by (simp only: word_of_nat_eq_0_iff) simp
  ultimately have "(word_of_nat (256 ^ n * nat_le (bs @ cs)) :: 64 word) = word_of_nat (256 ^ n * nat_le bs)"
    by (simp only: of_nat_add add_0_right)
  moreover have "(2 :: 64 word) ^ (8 * n) = 256 ^ n" by (simp add: power_mult)
  ultimately show ?thesis unfolding le_of_nat push_bit_eq_mult by (simp add: mult.commute)
qed

lemma MERGE_bytes:
  assumes "length as = 8" "length bs = 8" "k \<le> 8"
  shows "MERGE (le as) (8 * k) (le bs) (64 - 8 * k) = le (drop k as @ take k bs)"
proof -
  let ?x = "drop_bit (8 * k) (le as :: 64 word)" and ?y = "push_bit (64 - 8 * k) (le bs :: 64 word)"
  have "?x OR ?y = ?x + ?y"
    by (rule disjunctive_add [symmetric]) (auto simp: bit_simps dest: bit_imp_le_length)
  moreover have "?x = le (drop k as)"
    using drop_bit_le [of "take k as" "drop k as"] assms by (simp add: min_def)
  moreover have "?y = word_of_nat (256 ^ (8 - k) * nat_le (take k bs))"
    using push_bit_le [of "take k bs" "8 - k" "drop k bs"] assms by (simp add: min_def diff_mult_distrib2)
  ultimately show ?thesis
    using assms by (simp add: MERGE_def le_of_nat nat_le_append)
qed

lemma pipe_eq:
  "p + 8 * Suc m \<le> length src \<Longrightarrow> q + 8 * Suc m \<le> length dst \<Longrightarrow>
   pipe src (int p + 8) (int q) m (le (take 8 (drop p src))) dst = Inr (patch dst q (take (8 * Suc m) (drop p src)))"
proof (induction m arbitrary: p q dst)
  case 0
  then show ?case by (simp add: put_eq del: le_bytes.simps)
next
  case (Suc m)
  let ?w = "take 8 (drop p src)"
  from Suc.prems have "load src (int p + 8) = Inr (le (take 8 (drop (p + 8) src)))"
    using load_eq [of "p + 8" src] by simp
  moreover from Suc.prems have "put dst (int q) (le ?w) = Inr (patch dst q ?w)" by (simp add: put_eq del: le_bytes.simps)
  moreover have "pipe src (int (p + 8) + 8) (int (q + 8)) m (le (take 8 (drop (p + 8) src))) (patch dst q ?w) =
      Inr (patch (patch dst q ?w) (q + 8) (take (8 * Suc m) (drop (p + 8) src)))"
    using Suc.prems by (intro Suc.IH) simp_all
  ultimately show ?case
    using Suc.prems take_drop_add [of 8 p src "8 * Suc m"] by (simp add: patch_patch)
qed

lemma MERGE_take:
  assumes "p + 16 \<le> length src" "k \<le> 8"
  shows "le_bytes 8 (MERGE (le (take 8 (drop p src))) (8 * k) (le (take 8 (drop (p + 8) src))) (64 - 8 * k)) =
    take 8 (drop (p + k) src)"
proof -
  have "drop k (take 8 (drop p src)) @ take k (take 8 (drop (p + 8) src)) = take 8 (drop (p + k) src)"
    using assms take_drop_add [of "8 - k" "p + k" src k] by (simp add: drop_take min_def add.commute)
  then show ?thesis
    using assms MERGE_bytes [of "take 8 (drop p src)" "take 8 (drop (p + 8) src)" k] by (simp del: le_bytes.simps)
qed

lemma merge_pipe_eq:
  "p + 8 * (m + 2) \<le> length src \<Longrightarrow> q + 8 * Suc m \<le> length dst \<Longrightarrow> k \<le> 8 \<Longrightarrow>
   merge_pipe (8 * k) src (int p + 16) (int q) m (le (take 8 (drop p src))) (le (take 8 (drop (p + 8) src))) dst =
   Inr (patch dst q (take (8 * Suc m) (drop (p + k) src)))"
proof (induction m arbitrary: p q dst)
  case 0
  then show ?case by (simp add: put_eq MERGE_take del: le_bytes.simps)
next
  case (Suc m)
  let ?w = "take 8 (drop (p + k) src)"
  from Suc.prems have "load src (int p + 16) = Inr (le (take 8 (drop (p + 8 + 8) src)))"
    using load_eq [of "p + 16" src] by (simp add: add.commute)
  moreover from Suc.prems have "put dst (int q) (MERGE (le (take 8 (drop p src))) (8 * k) (le (take 8 (drop (p + 8) src))) (64 - 8 * k)) =
      Inr (patch dst q ?w)" by (simp add: put_eq MERGE_take del: le_bytes.simps)
  moreover have "merge_pipe (8 * k) src (int (p + 8) + 16) (int (q + 8)) m (le (take 8 (drop (p + 8) src)))
      (le (take 8 (drop (p + 8 + 8) src))) (patch dst q ?w) =
      Inr (patch (patch dst q ?w) (q + 8) (take (8 * Suc m) (drop (p + k + 8) src)))"
    using Suc.prems Suc.IH [of "p + 8" "q + 8" "patch dst q ?w"] by (simp only: length_patch ac_simps) simp
  ultimately show ?case
    using Suc.prems take_drop_add [of 8 "p + k" src "8 * Suc m"] by (simp add: patch_patch)
qed

lemma fwd_enter:
  assumes "len = 8 * Suc t" "j \<le> 8" "(if even j then snd a else fst a) = Some w"
    "p = srcp + 8 * (8 - int j)" "q = dstp + 8 * (8 - int j)" "m = j + 8 * t"
  shows "fwd_loop src srcp dstp j len a dst = pipe src p q m w dst"
  using assms fwd_loop_pipe [of len j a w src srcp dstp dst] by (simp del: fwd_loop.simps)

lemma wordcopy_fwd_aligned_pipe:
  assumes "load src srcp = Inr w"
  shows "wordcopy_fwd_aligned dst dstp src srcp (Suc m) = pipe src (srcp + 8) dstp m w dst"
proof -
  define t where "t = Suc m div 8"
  have n: "Suc m = 8 * t + Suc m mod 8" by (simp add: t_def)
  note f = wordcopy_fwd_aligned_def Let_def assms add.commute
  have "Suc m mod 8 \<in> {2, 3, 4, 5, 6, 7} \<union> {0, 1}" by auto
  then consider "Suc m mod 8 \<in> {2, 3, 4, 5, 6, 7}" | "Suc m mod 8 \<in> {0, 1}" by blast
  then show ?thesis
  proof cases
    case 1
    with n show ?thesis by (elim insertE emptyE) (simp_all add: f fwd_enter [of _ t] del: fwd_loop.simps)
  next
    case 2
    with n show ?thesis by (elim insertE emptyE; cases t) (simp_all add: f fwd_enter [of _ "t - 1"] del: fwd_loop.simps)
  qed
qed

lemma merge_enter:
  assumes "len = 4 * Suc t" "j \<le> 4" "length a = 4" "a ! ((6 - j) mod 4) = Some x" "a ! ((7 - j) mod 4) = Some y"
    "p = srcp + 8 * (4 - int j)" "q = dstp + 8 * (4 - int j)" "m = j + 4 * t"
  shows "dest_loop sh src srcp dstp j len a dst = merge_pipe sh src p q m x y dst"
  using assms dest_loop_pipe [of len j a x y sh src srcp dstp dst] by (simp del: dest_loop.simps)

lemma wordcopy_fwd_dest_aligned_pipe:
  assumes "load src (srcp - srcp mod 8) = Inr x" "load src (srcp - srcp mod 8 + 8) = Inr y"
  shows "wordcopy_fwd_dest_aligned dst dstp src srcp (Suc m) =
    merge_pipe (8 * nat (srcp mod 8)) src (srcp - srcp mod 8 + 16) dstp m x y dst"
proof -
  define t where "t = Suc m div 4"
  define p where "p = srcp - srcp mod 8"
  have n: "Suc m = 4 * t + Suc m mod 4" by (simp add: t_def)
  note f = wordcopy_fwd_dest_aligned_def Let_def assms [folded p_def] add.commute p_def [symmetric]
  have "Suc m mod 4 \<in> {2, 3} \<union> {0, 1}" by auto
  then consider "Suc m mod 4 \<in> {2, 3}" | "Suc m mod 4 \<in> {0, 1}" by blast
  then show ?thesis
  proof cases
    case 1
    with n show ?thesis by (elim insertE emptyE) (simp_all add: f merge_enter [of _ t] del: dest_loop.simps)
  next
    case 2
    with n show ?thesis by (elim insertE emptyE; cases t) (simp_all add: f merge_enter [of _ "t - 1"] del: dest_loop.simps)
  qed
qed

lemma wordcopy_fwd_aligned_eq:
  assumes "s + 8 * n \<le> length src" "d + 8 * n \<le> length dst"
  shows "wordcopy_fwd_aligned dst (int d) src (int s) n = Inr (patch dst d (take (8 * n) (drop s src)))"
proof (cases n)
  case (Suc m)
  then show ?thesis
    using assms pipe_eq [of s m src d dst] by (simp add: wordcopy_fwd_aligned_pipe load_eq)
qed (simp add: wordcopy_fwd_aligned_def)

lemma wordcopy_fwd_dest_aligned_eq:
  assumes "length src mod 8 = 0" "s mod 8 \<noteq> 0" "s + 8 * n \<le> length src" "d + 8 * n \<le> length dst"
  shows "wordcopy_fwd_dest_aligned dst (int d) src (int s) n = Inr (patch dst d (take (8 * n) (drop s src)))"
proof (cases n)
  case (Suc m)
  define p where "p = 8 * (s div 8)"
  have s: "s = p + s mod 8" "s mod 8 \<le> 8" by (simp_all add: p_def)
  obtain l where l: "length src = 8 * l" using assms(1) by (auto simp: mod_eq_0_iff_dvd)
  then have "8 * (s div 8 + Suc m) + s mod 8 \<le> 8 * l"
    using assms(3) Suc mult_div_mod_eq [of 8 s] by (simp add: distrib_left)
  moreover have "8 * a + r \<le> 8 * l \<Longrightarrow> 0 < r \<Longrightarrow> a < l" for a r :: nat by simp
  ultimately have "s div 8 + Suc m < l" using assms(2) by blast
  then have p: "p + 8 * (m + 2) \<le> length src" unfolding p_def l by simp
  have k: "int s mod 8 = int (s mod 8)" "int s - int s mod 8 = int p"
    by (simp_all add: zmod_int p_def minus_mod_eq_mult_div zdiv_int)
  have "load src (int s - int s mod 8) = Inr (le (take 8 (drop p src)))"
    "load src (int s - int s mod 8 + 8) = Inr (le (take 8 (drop (p + 8) src)))"
    using p load_eq [of p src] load_eq [of "p + 8" src] unfolding k(2) by simp_all
  note wordcopy_fwd_dest_aligned_pipe [OF this, of dst "int d" m]
  also have "nat (int s mod 8) = s mod 8" by (simp only: k(1) nat_int)
  also note k(2)
  also note merge_pipe_eq [OF p, of d dst "s mod 8"]
  finally show ?thesis using s Suc assms(4) by simp
qed (simp add: wordcopy_fwd_dest_aligned_def)

lemma WORD_COPY_FWD_eq:
  assumes "length src mod 8 = 0" "s + n \<le> length src" "d + n \<le> length dst"
  shows "WORD_COPY_FWD dst (int d) src (int s) n =
    Inr (patch dst d (take (n - n mod 8) (drop s src)), int (d + (n - n mod 8)), int (s + (n - n mod 8)), n mod 8)"
proof -
  have n: "8 * (n div 8) = n - n mod 8" by (simp add: minus_mod_eq_mult_div)
  have "s + 8 * (n div 8) \<le> length src" "d + 8 * (n div 8) \<le> length dst" using assms(2,3) unfolding n by simp_all
  moreover have "int s mod 8 = 0 \<longleftrightarrow> s mod 8 = 0" by presburger
  ultimately show ?thesis
    using assms(1) wordcopy_fwd_aligned_eq [of s "n div 8" src d dst] wordcopy_fwd_dest_aligned_eq [of src s "n div 8" d dst]
    by (simp add: WORD_COPY_FWD_def n)
qed

lemma memcpy_word_eq:
  assumes "length src mod 8 = 0" "s + len \<le> length src" "d + len \<le> length dst"
  shows "memcpy_word dst d src s len = memcpy dst d (drop s src) len"
proof (cases "OP_T_THRES \<le> len")
  case True
  define h where "h = nat (- int d mod 8)"
  define m where "m = len - h"
  have "h < 8" by (simp add: h_def nat_less_iff)
  then have l: "len = h + m" using True by (simp add: m_def OP_T_THRES_def)
  define r w where "r = m mod 8" and "w = m - m mod 8"
  let ?d = "\<lambda>n. patch dst d (take n (drop s src))"
  have b: "len = h + w + r" "d + (h + w + r) \<le> length dst" "s + (h + w + r) \<le> length src"
    using assms l by (simp_all add: r_def w_def)
  have j: "patch (?d n) (d + n) (take k (drop (s + n) src)) = ?d (n + k)" if "n + k \<le> len" for n k
    using that assms by (simp add: patch_patch take_drop_add)
  have 1: "BYTE_COPY_FWD dst (int d) src (int s) h = Inr (?d h)"
    using BYTE_COPY_FWD_eq [of d h dst s src] b by simp
  have 2: "WORD_COPY_FWD (?d h) (int (d + h)) src (int (s + h)) m = Inr (?d (h + w), int (d + (h + w)), int (s + (h + w)), r)"
    using WORD_COPY_FWD_eq [of src "s + h" m "d + h" "?d h", folded w_def r_def] assms l b j [of h w] by (simp add: add.assoc)
  have 3: "BYTE_COPY_FWD (?d (h + w)) (int (d + (h + w))) src (int (s + (h + w))) r = Inr (?d len)"
    using BYTE_COPY_FWD_eq [of "d + (h + w)" r "?d (h + w)" "s + (h + w)" src] b j [of "h + w" r] by simp
  show ?thesis
    using True 1 2 3 assms
    by (simp add: memcpy_word_def Let_def h_def [symmetric] m_def [symmetric] memcpy_def fetch_def store_patch)
next
  case False
  then show ?thesis using assms BYTE_COPY_FWD_eq [of d len dst s src]
    by (simp add: memcpy_word_def memcpy_def fetch_def store_patch)
qed

text \<open>
  C17. memcpy by words copies the bytes the abstract memcpy copies, whatever the two alignments are: the
  result is the destination with the len bytes from s on at position d and every other byte kept.
  No access leaves its region, although words around the source bytes are read, when the
  region of the source is made of whole words; no register is written to memory before it is loaded.
\<close>

theorem memcpy_words:
  assumes "length src mod 8 = 0" "s + len \<le> length src" "d + len \<le> length dst"
  shows "memcpy_word dst d src s len = memcpy dst d (drop s src) len \<and>
    memcpy_word dst d src s len = Inr (take d dst @ take len (drop s src) @ drop (d + len) dst)"
  using assms by (simp add: memcpy_word_eq memcpy_eq)

theorem memcpy_words_witness:
  "memcpy_word (replicate 24 0) 3 (map word_of_nat [0..<24]) 1 18 =
   Inr (replicate 3 0 @ map word_of_nat [1..<19] @ replicate 3 0)"
  using memcpy_words [THEN conjunct2, of "map word_of_nat [0..<24]" 1 18 3 "replicate 24 0"] by (simp add: drop_map take_map)

end
