(* ===== verification/Spec2Isabelle.thy ===== *)
theory Spec2Isabelle
  imports HexConvert Log Peers Table Handoff ThreadPool WordCopy
begin

text \<open>
  A verification library for the data distribution server under \<^verbatim>\<open>src/\<close>.

  \<^bold>\<open>The program.\<close>  \<^verbatim>\<open>server.c\<close> reads a table of peers from \<^verbatim>\<open>engine.conf\<close>, listens on a TCP
  port and forks a process per connection (\<^verbatim>\<open>util.c\<close>).  The process classifies each
  message it receives by its header (\<^verbatim>\<open>dataHeader.h\<close>).  Data is recorded in a file
  (\<^verbatim>\<open>recordData.c\<close>) and then forwarded to every client of the table by one thread per
  client, which a mutex makes run one after the other.  A replay request is not
  recorded; the thread of the client it came from plays recorded files back
  (\<^verbatim>\<open>playback.c\<close>), and a lock file keeps the others from forwarding to that client
  meanwhile.  Everything is logged (\<^verbatim>\<open>log.c\<close>), and settings come from the configuration
  reader (\<^verbatim>\<open>ConfigFile.c\<close>).  \<^verbatim>\<open>jinzhiConvert.c\<close> converts numbers, \<^verbatim>\<open>threadpool.c\<close> is a thread
  pool, \<^verbatim>\<open>sender.c\<close> and \<^verbatim>\<open>client.c\<close> are the programs at the two ends.  The repository holds
  its own C library, \<^verbatim>\<open>glibc-2.27/\<close>, whose \<open>scandir\<close> is changed for the playback.

  \<^bold>\<open>How code becomes definitions.\<close>  A C object is a list, a pointer into it an index or a
  suffix; every access is checked, and undefined behaviour is a value of type \<open>fault\<close>
  (theory \<open>Prelude\<close>; \<open>cres\<close> is the type of results).  Machine integers are words where they
  wrap around.  Code that calls the operating system is a \<open>prog\<close> (theory \<open>Process\<close>): a function
  of a process state with the answers of the environment to come and the trace of
  calls made.  No theorem assumes anything about the answers unless it says so.
  Threads are steps of an inductive relation (theories \<open>Handoff\<close>, \<open>ThreadPool\<close>).

  \<^bold>\<open>The theories.\<close>
  \<^item> \<open>Prelude\<close>: checked results, list accesses, faults.
  \<^item> \<open>CString\<close>, \<open>WordScan\<close>, \<open>WordCopy\<close>: the string functions of \<^verbatim>\<open>glibc-2.27/string\<close>, by bytes and by words
    of eight bytes; the word versions are equal to the byte versions (locale \<open>word_scan\<close>, C14 to C17).
  \<^item> \<open>Stdio\<close>: \<open>fgets\<close> and \<open>_IO_getline_info\<close> (\<^verbatim>\<open>libio\<close>).
  \<^item> \<open>Numbers\<close>, \<open>Inet\<close>, \<open>CalTime\<close>: \<open>printf\<close> of integers, \<open>strtol\<close>, \<open>atoi\<close>; \<open>inet_addr\<close>,
    \<open>inet_ntoa\<close>, \<open>htons\<close>; \<open>__offtime\<close> and numbers of \<open>strftime\<close>; round trips and the Gregorian date
    (C20 to C22).
  \<^item> \<open>Comparator\<close>, \<open>Msort\<close>, \<open>Quicksort\<close>, \<open>Qsort\<close>: the contracts of comparison functions and sorts as
    locales, and the two algorithms behind \<open>qsort\<close>, which meet them (C8, C24).
  \<^item> \<open>Dirent\<close>: \<open>readdir\<close>, \<open>scandir\<close>, \<open>alphasort\<close> (C10).
  \<^item> \<open>ConfigFile\<close>: every function of \<^verbatim>\<open>ConfigFile.c\<close>; the entries of a text as specification, a
    key-value store as interface (locale \<open>kvstore\<close>; C13, C25, C37).
  \<^item> \<open>HexConvert\<close>: \<^verbatim>\<open>jinzhiConvert.c\<close> (C23, C31).
  \<^item> \<open>Process\<close>: processes, calls, and calculi for what a program does to its trace (\<open>sat\<close>, \<open>only\<close>,
    \<open>calls\<close>).
  \<^item> \<open>Log\<close>: \<^verbatim>\<open>log.c\<close> from \<open>LogWrite\<close> down to the characters written (C12, C35).
  \<^item> \<open>Packet\<close>: the structures of \<^verbatim>\<open>dataHeader.h\<close> and the kinds of messages (C26).
  \<^item> \<open>RecordData\<close>, \<open>Playback\<close>: \<^verbatim>\<open>recordData.c\<close> and \<^verbatim>\<open>playback.c\<close> (C9, C11, C29, C34, C38, C39).
  \<^item> \<open>Distribute\<close>: \<^verbatim>\<open>util.c\<close> and \<^verbatim>\<open>server.c\<close>, with the invariant \<open>peers_ok\<close> of the table of peers.
  \<^item> \<open>Protocol\<close>, \<open>Forward\<close>, \<open>Serve\<close>, \<open>Table\<close>: protocols as automata over the calls of a program; the
    distribution of a message refines one (C1), reaches all clients that can be reached (C2),
    never records a replay request (C19) but forwards it (C36); the loops (C27), the invariant
    of the server (C3), and the table a configuration describes (C7).
  \<^item> \<open>Handoff\<close>: \<open>distribute_run\<close> and its threads in any interleaving: they run one after the other,
    each with its own index, which justifies the sequential model of \<open>Distribute\<close> (C5, C6).
  \<^item> \<open>ThreadPool\<close>: \<^verbatim>\<open>threadpool.c\<close>, the ring of tasks as a queue (locale \<open>fifo_queue\<close>) and the pool in any
    interleaving of its threads (C4, C18, C30, C40).
  \<^item> \<open>Peers\<close>: \<^verbatim>\<open>sender.c\<close> and \<^verbatim>\<open>client.c\<close> (C32, C33).
  \<^item> This theory: the server from its configuration file to its listening socket (C28).

  \<^bold>\<open>Bounds and fuel.\<close>  A loop that ends after a bounded number of rounds is a function with a
  termination proof (\<open>send_loop\<close>, \<open>quicksort_loop\<close>, \<open>year_loop\<close>, \<open>strlen_loop\<close> and others).  The endless
  loops of the server, the sender and the client ask the environment in every round; their
  fuel is one more than the answers there are, and the locale \<open>consuming_loop\<close> shows that more
  fuel changes nothing and that the loops satisfy the equations of the source.  Arrays
  have the sizes of the source; the receive buffer of 4096000 bytes is represented by
  the message in it.

  \<^bold>\<open>Not modelled.\<close>  Allocation in the program itself is taken to succeed, since the program
  does not handle its failure (in \<open>scandir\<close>, \<open>qsort\<close> and \<open>threadpool_create\<close> it may fail).  Of the C library
  only the functions named above are modelled; locales other than C, digit grouping, wide
  characters, locking inside the library and the time zone files are left out, and the
  rest of its 11000 files is never called by the program or stands for services of the
  operating system.  \<open>pthread_create\<close> is taken to succeed inside \<open>threadpool_create\<close> and \<open>adjust_thread\<close>, which
  do not look at its result; memory is sequentially consistent.  \<open>strerror\<close> is a parameter.
  The example task \<open>process\<close> and the code in comments have no model.
\<close>

section \<open>From the configuration file to the listening socket\<close>

lemma target_peer:
  assumes "NUL \<notin> set a" "length a < 122" "inet_addr (pad 128 a) = Inr ip"
  shows "target ((peer a q)\<lparr>clientNum := n\<rparr> # t) 0 = (''./shm/'' @ a, ip, htons (word_of_int q))"
  using assms by (simp add: target_def peer_def)

text \<open>
  C28. The server starts as its configuration says: a file that describes the server and its clients
  gives a well-formed table with exactly these peers, and then the socket is bound to the
  configured address and port and listens before the first connection is accepted.  A call
  that fails ends the process with the failure code, with the socket closed if there is one.
\<close>

theorem server_from_config:
  assumes "inp p = w # c # s # u # b # l # rest" "length (textOf (str w)) < 500" "rv c \<noteq> 0" "\<forall>kv \<in> set (entries (str c)). fits kv"
    and "describes (entries (str c)) (a, q) clients" "length clients \<le> 9999"
    and "\<forall>x \<in> set (a # map fst clients). length x < 122 \<and> (\<exists>ip. inet_addr (pad 128 x) = Inr ip)" "inet_addr (pad 128 a) = Inr ip"
  shows "\<exists>es p'. trc p' = trc p @ es \<and> peers_ok (distributeTcpInfo p') \<and>
    distributeTcpInfo p' = (peer a q)\<lparr>clientNum := int (length clients)\<rparr> # map (\<lambda>(a, q). peer a q) clients \<and>
    acts es = (Getcwd, w) # (Fopen (textOf (str w) @ CONFIGFILE) ''r'', c) # setup_calls ip (htons (word_of_int q)) s u b l \<and>
    (if \<exists>r \<in> {s, u, b, l}. rv r = EXIT_FAIL_CODE then server_main p = (Inl (Exit EXIT_FAIL_CODE), p')
     else server_main p = bindM (fuelled (accept_loop (rv s))) (\<lambda>_. retM EXIT_SUCCESS_CODE) p' \<and> inp p' = rest)"
proof -
  let ?log = "\<lambda>n x. Log INFO ''%d %s'' [D n, S x]"
  let ?table = "(peer a q)\<lparr>clientNum := int (length clients)\<rparr> # map (\<lambda>(a, q). peer a q) clients"
  let ?p = "emitted (?log 10 ''parse config file to distribute&playbook'') (emitted (?log 7 ''*********Start Server*********'') p)"
  obtain es1 p1 where p1: "parseFile_distributeTcpInfo ?p = (Inr (), p1)" "inp p1 = s # u # b # l # rest" "trc p1 = trc ?p @ es1"
    "acts es1 = [(Getcwd, w), (Fopen (textOf (str w) @ CONFIGFILE) ''r'', c)]" "distributeTcpInfo p1 = ?table"
    using parse_table [of ?p w c "s # u # b # l # rest" a q clients] assms(1-6) by auto
  have v: "cstr (pad 128 x) = Inr x" if "x \<in> set (a # map fst clients)" for x
    by (rule described_address [OF assms(4-6) that])
  let ?q = "emitted (?log 25 ''init tcp connection'') p1"
  have ok: "peers_ok (distributeTcpInfo ?q)" using peers_ok_table [of a clients q] assms(7) v by (simp add: p1(5))
  have a: "NUL \<notin> set a" "length a < 122" using cstr_no_nul [OF v [of a]] assms(7) by auto
  have "target (distributeTcpInfo ?q) 0 = (''./shm/'' @ a, ip, htons (word_of_int q))"
    using target_peer [OF a assms(8)] by (simp add: p1(5))
  from server_setup [OF ok this, of s u b l rest] p1(2) obtain es2 p2 where
    p2: "trc p2 = trc ?q @ es2" "distributeTcpInfo p2 = distributeTcpInfo ?q" "acts es2 = setup_calls ip (htons (word_of_int q)) s u b l"
      "if \<exists>r \<in> {s, u, b, l}. rv r = EXIT_FAIL_CODE then distribute_server ?q = (Inl (Exit EXIT_FAIL_CODE), p2)
       else distribute_server ?q = fuelled (accept_loop (rv s)) p2 \<and> inp p2 = rest" by auto
  have m: "server_main p = bindM distribute_server (\<lambda>_. retM EXIT_SUCCESS_CODE) ?q"
    using p1(1) by (simp add: server_main_def server_start_def step_run seqM_def [of parseFile_distributeTcpInfo] seqM_def [of distribute_server]
        bindM_def [of parseFile_distributeTcpInfo])
  let ?es = "[(?log 7 ''*********Start Server*********'', no_ret), (?log 10 ''parse config file to distribute&playbook'', no_ret)] @ es1 @
    (?log 25 ''init tcp connection'', no_ret) # es2"
  show ?thesis
    by (rule exI [of _ ?es], rule exI [of _ p2])
      (use p1 p2 ok in \<open>auto simp: m bindM_def quiet_def split: if_splits\<close>)
qed

theorem server_from_config_witness:
  "\<exists>es p'. trc p' = [] @ es \<and>
    distributeTcpInfo p' = [(peer ''192.168.30.3'' 60003)\<lparr>clientNum := 1\<rparr>, peer ''10.0.0.7'' 9999] \<and>
    server_main (boot [no_ret\<lparr>str := ''/srv''\<rparr>, no_ret\<lparr>rv := 5, str := peers_config\<rparr>, no_ret\<lparr>rv := 3\<rparr>, no_ret, no_ret\<lparr>rv := -1\<rparr>, no_ret] []) =
      (Inl (Exit EXIT_FAIL_CODE), p')"
  using server_from_config [of "boot [no_ret\<lparr>str := ''/srv''\<rparr>, no_ret\<lparr>rv := 5, str := peers_config\<rparr>, no_ret\<lparr>rv := 3\<rparr>, no_ret,
        no_ret\<lparr>rv := -1\<rparr>, no_ret] []" "no_ret\<lparr>str := ''/srv''\<rparr>" "no_ret\<lparr>rv := 5, str := peers_config\<rparr>" "no_ret\<lparr>rv := 3\<rparr>" no_ret
        "no_ret\<lparr>rv := -1\<rparr>" no_ret "[]" "''192.168.30.3''" 60003 "[(''10.0.0.7'', 9999)]" "[192, 168, 30, 3]"] peers_described demo_addresses
  by (auto simp: textOf_def peers_entries fits_def EXIT_FAIL_CODE_def)

end
